(* ===== verification/LCI_Prelude.thy ===== *)
theory LCI_Prelude
  imports Main "HOL-Library.Word"
begin

unbundle bit_operations_syntax

text \<open>
  The vocabulary the component theories share.  It holds the machine integer types, the result
  type in which an assertion failure, a thrown exception or an undefined C++ operation is a value,
  the error codes and completion descriptors of \<^verbatim>\<open>src/api/lci.hpp\<close>, and the generic lemmas on
  results, lists and words that the component proofs rest on.
\<close>

text \<open>The collections that the component proofs draw on: inversion of the result type, the error
  categories, and the arithmetic of ring positions.\<close>

named_theorems res_iff \<open>when a sequence of fallible steps returns or fails\<close>
named_theorems category_iff \<open>the codes of each error category\<close>

section \<open>Machine integers\<close>

type_synonym u8 = "8 word"
type_synonym u16 = "16 word"
type_synonym u32 = "32 word"
type_synonym u64 = "64 word"

text \<open>The named widths of the interface: \<^verbatim>\<open>tag_t\<close>, \<^verbatim>\<open>rcomp_t\<close>, \<^verbatim>\<open>net_imm_data_t\<close> and the keys of
  a matching engine.  Ranks are C \<^verbatim>\<open>int\<close>s; they are modelled by \<^typ>\<open>int\<close>, with the conversions to
  unsigned words written out where the code makes them.\<close>

type_synonym tag_t = u64
type_synonym rcomp_t = u32
type_synonym net_imm_data_t = u32
type_synonym matching_entry_key_t = u64

section \<open>Results: assertions, exceptions and undefined behaviour as values\<close>

text \<open>
  \<^verbatim>\<open>LCI_Assert\<close> throws a \<^verbatim>\<open>std::runtime_error\<close> (or aborts) in every build, so a failed assertion is
  a branch of the model.  \<^verbatim>\<open>LCI_DBG_Assert\<close> is compiled away in a release build and is no branch; the
  conditions it names are proved as invariants instead.  \<open>Undefined_behaviour\<close> marks an operation
  for which the C++ standard gives no meaning, such as an out-of-bounds read; \<open>Deadlock\<close> marks a
  thread that waits for a lock that it holds itself.
\<close>

datatype fault =
    Assert_failed
  | Thrown string
  | Peer_failure int
  | Undefined_behaviour
  | Deadlock

type_synonym 'a res = "fault + 'a"

definition bindR :: "'a res \<Rightarrow> ('a \<Rightarrow> 'b res) \<Rightarrow> 'b res" where
  "bindR m f = (case m of Inl e \<Rightarrow> Inl e | Inr x \<Rightarrow> f x)"

definition lci_assert :: "bool \<Rightarrow> unit res" where
  "lci_assert b = (if b then Inr () else Inl Assert_failed)"

lemma bindR_simps [simp]:
  "bindR (Inl e) f = Inl e"
  "bindR (Inr x) f = f x"
  by (simp_all add: bindR_def)

lemma bindR_Inr_iff [res_iff]: "bindR m f = Inr y \<longleftrightarrow> (\<exists>x. m = Inr x \<and> f x = Inr y)"
  by (cases m) simp_all

lemma Inr_bindR_iff [res_iff]: "Inr y = bindR m f \<longleftrightarrow> (\<exists>x. m = Inr x \<and> f x = Inr y)"
  by (cases m) auto

lemma bindR_Inl_iff [res_iff]: "bindR m f = Inl e \<longleftrightarrow> m = Inl e \<or> (\<exists>x. m = Inr x \<and> f x = Inl e)"
  by (cases m) simp_all

lemma bindR_assoc: "bindR (bindR m f) g = bindR m (\<lambda>x. bindR (f x) g)"
  by (cases m) simp_all

lemma lci_assert_simps [simp]:
  "lci_assert True = Inr ()"
  "lci_assert False = Inl Assert_failed"
  "lci_assert b = Inr u \<longleftrightarrow> b"
  "lci_assert b = Inl e \<longleftrightarrow> \<not> b \<and> e = Assert_failed"
  by (auto simp: lci_assert_def)

lemma bind_assert: "bindR (lci_assert b) f = (if b then f () else Inl Assert_failed)"
  by (simp add: lci_assert_def)

section \<open>Error codes and completion descriptors\<close>

text \<open>\<^verbatim>\<open>errorcode_t\<close>: three categories delimited by boundary markers, and a placeholder.\<close>

datatype errorcode_t =
    ec_done_min | ec_done | ec_done_backlog | ec_done_max
  | ec_posted_min | ec_posted | ec_posted_backlog | ec_posted_max
  | ec_retry_min | ec_retry | ec_retry_init | ec_retry_lock | ec_retry_nopacket
  | ec_retry_nomem | ec_retry_backlog | ec_retry_max
  | ec_fatal

text \<open>The enumeration's underlying values, in the order of the declaration: the order \<^verbatim>\<open><\<close> the
  category tests compare.\<close>

fun ec_val :: "errorcode_t \<Rightarrow> nat" where
  "ec_val ec_done_min = 0"
| "ec_val ec_done = 1"
| "ec_val ec_done_backlog = 2"
| "ec_val ec_done_max = 3"
| "ec_val ec_posted_min = 4"
| "ec_val ec_posted = 5"
| "ec_val ec_posted_backlog = 6"
| "ec_val ec_posted_max = 7"
| "ec_val ec_retry_min = 8"
| "ec_val ec_retry = 9"
| "ec_val ec_retry_init = 10"
| "ec_val ec_retry_lock = 11"
| "ec_val ec_retry_nopacket = 12"
| "ec_val ec_retry_nomem = 13"
| "ec_val ec_retry_backlog = 14"
| "ec_val ec_retry_max = 15"
| "ec_val ec_fatal = 16"

instantiation errorcode_t :: linorder
begin

definition less_eq_errorcode_t :: "errorcode_t \<Rightarrow> errorcode_t \<Rightarrow> bool" where
  "less_eq_errorcode_t a b \<longleftrightarrow> ec_val a \<le> ec_val b"

definition less_errorcode_t :: "errorcode_t \<Rightarrow> errorcode_t \<Rightarrow> bool" where
  "less_errorcode_t a b \<longleftrightarrow> ec_val a < ec_val b"

instance
proof
  fix a b :: errorcode_t
  assume "a \<le> b" and "b \<le> a"
  then have "ec_val a = ec_val b"
    by (simp add: less_eq_errorcode_t_def)
  then show "a = b"
    by (cases a; cases b; simp)
qed (auto simp: less_eq_errorcode_t_def less_errorcode_t_def)

end

definition is_done :: "errorcode_t \<Rightarrow> bool" where
  "is_done e \<longleftrightarrow> ec_done_min < e \<and> e < ec_done_max"

definition is_posted :: "errorcode_t \<Rightarrow> bool" where
  "is_posted e \<longleftrightarrow> ec_posted_min < e \<and> e < ec_posted_max"

definition is_retry :: "errorcode_t \<Rightarrow> bool" where
  "is_retry e \<longleftrightarrow> ec_retry_min < e \<and> e < ec_retry_max"

lemma is_done_iff [category_iff]: "is_done e \<longleftrightarrow> e = ec_done \<or> e = ec_done_backlog"
  by (cases e) (simp_all add: is_done_def less_errorcode_t_def)

lemma is_posted_iff [category_iff]: "is_posted e \<longleftrightarrow> e = ec_posted \<or> e = ec_posted_backlog"
  by (cases e) (simp_all add: is_posted_def less_errorcode_t_def)

lemma is_retry_iff [category_iff]:
  "is_retry e \<longleftrightarrow> e \<in> {ec_retry, ec_retry_init, ec_retry_lock, ec_retry_nopacket,
                          ec_retry_nomem, ec_retry_backlog}"
  by (cases e) (simp_all add: is_retry_def less_errorcode_t_def)

lemmas ec_category = is_done_iff is_posted_iff is_retry_iff

text \<open>\<^verbatim>\<open>status_t\<close>.  Pointers are modelled by naturals, the null pointer by 0.\<close>

type_synonym addr = nat

record status_t =
  st_error :: errorcode_t
  st_rank :: int
  st_buffer :: addr
  st_size :: nat
  st_tag :: tag_t
  st_user_context :: addr

definition status_init :: status_t where
  "status_init = \<lparr>st_error = ec_retry_init, st_rank = -1, st_buffer = 0, st_size = 0,
                   st_tag = 0, st_user_context = 0\<rparr>"

definition set_done :: "status_t \<Rightarrow> status_t" where
  "set_done s = s\<lparr>st_error := ec_done\<rparr>"

definition set_posted :: "status_t \<Rightarrow> status_t" where
  "set_posted s = s\<lparr>st_error := ec_posted\<rparr>"

definition set_retry :: "status_t \<Rightarrow> status_t" where
  "set_retry s = s\<lparr>st_error := ec_retry\<rparr>"

text \<open>The network layer: \<^verbatim>\<open>net_opcode_t\<close>, \<^verbatim>\<open>net_status_t\<close>, which describes a completed network
  operation, and \<^verbatim>\<open>rmr_t\<close>, which names registered memory of a peer.\<close>

datatype net_opcode_t = net_SEND | net_RECV | net_WRITE | net_REMOTE_WRITE | net_READ | net_ERROR

record net_status_t =
  ns_opcode :: net_opcode_t
  ns_rank :: int
  ns_user_context :: addr
  ns_length :: nat
  ns_imm_data :: net_imm_data_t

text \<open>What \<^verbatim>\<open>memset\<close> with 0 makes of a status.\<close>

definition net_status_zero :: net_status_t where
  "net_status_zero = \<lparr>ns_opcode = net_SEND, ns_rank = 0, ns_user_context = 0, ns_length = 0, ns_imm_data = 0\<rparr>"

record rmr_t =
  rmr_base :: u64
  rmr_mr_base :: u64
  opaque_rkey :: u64

definition rmr_empty :: rmr_t where
  "rmr_empty = \<lparr>rmr_base = 0, rmr_mr_base = 0, opaque_rkey = 0\<rparr>"

section \<open>Generic lemmas\<close>

text \<open>Updating a list position by position is how the arrays of the program are written.\<close>

lemma list_update_append_last [simp]: "(xs @ [x])[length xs := y] = xs @ [y]"
  by (simp add: list_update_append)

text \<open>The sum of what the threads of a step relation hold, when one of them moves.\<close>

lemma sum_list_update_nat:
  fixes f :: "'a \<Rightarrow> nat"
  assumes "i < length xs"
  shows "sum_list (map f (xs[i := x])) + f (xs ! i) = sum_list (map f xs) + f x"
  using assms
proof (induction xs arbitrary: i)
  case (Cons y ys)
  then show ?case by (cases i) (simp_all add: ac_simps)
qed simp

lemma all_update: "\<forall>x\<in>set xs. P x \<Longrightarrow> P y \<Longrightarrow> \<forall>x\<in>set (xs[k := y]). P x"
  by (auto dest!: subsetD [OF set_update_subset_insert])

lemma count_filter_update:
  "k < length xs \<Longrightarrow> length (filter P (xs[k := y])) + (if P (xs ! k) then 1 else 0) = length (filter P xs) + (if P y then 1 else 0)"
proof -
  have len: "length (filter P ys) = sum_list (map (\<lambda>x. if P x then 1 else 0) ys)" for ys by (induction ys) auto
  assume "k < length xs"
  from sum_list_update_nat [OF this, of "\<lambda>x. if P x then 1 else 0" y] show ?thesis by (simp add: len)
qed

lemma filter_replicate_False [simp]: "\<not> P x \<Longrightarrow> filter P (replicate n x) = []"
  by (induction n) simp_all

lemma mod_eq_imp_ge_diff:
  fixes a b n :: nat
  assumes "a < b" and "a mod n = b mod n"
  shows "n \<le> b - a"
proof (rule ccontr)
  assume "\<not> n \<le> b - a"
  then have small: "b - a < n" by simp
  from assms have "n dvd b - a"
    by (metis less_imp_le_nat mod_eq_dvd_iff_nat)
  with small assms(1) show False
    by (simp add: nat_dvd_not_less)
qed

lemma mod_inj_window:
  fixes a b n lo :: nat
  assumes "a mod n = b mod n" and "lo \<le> a" "a < lo + n" and "lo \<le> b" "b < lo + n"
  shows "a = b"
proof (rule ccontr)
  assume "a \<noteq> b"
  then consider "a < b" | "b < a" by linarith
  then show False
  proof cases
    case 1
    from mod_eq_imp_ge_diff [OF this assms(1)] assms show False by linarith
  next
    case 2
    from mod_eq_imp_ge_diff [OF this assms(1) [symmetric]] assms show False by linarith
  qed
qed

section \<open>Threads that hold positions\<close>

text \<open>How many elements of a list, such as the threads of a system, hold position \<open>p\<close>.\<close>

definition holds :: "('a \<Rightarrow> nat option) \<Rightarrow> 'a list \<Rightarrow> nat \<Rightarrow> nat" where
  "holds f xs p = length (filter (\<lambda>x. f x = Some p) xs)"

lemma holds_update:
  "i < length xs \<Longrightarrow> holds f (xs[i := y]) p + (if f (xs ! i) = Some p then 1 else 0) = holds f xs p + (if f y = Some p then 1 else 0)"
proof -
  have len: "holds f ys p = sum_list (map (\<lambda>x. if f x = Some p then 1 else 0) ys)" for ys by (induction ys) (auto simp: holds_def)
  assume "i < length xs"
  from sum_list_update_nat [OF this, of "\<lambda>x. if f x = Some p then 1 else 0" y] show ?thesis by (simp add: len)
qed

lemma holds_pos: "i < length xs \<Longrightarrow> f (xs ! i) = Some p \<Longrightarrow> 0 < holds f xs p"
  by (auto simp: holds_def filter_empty_conv intro: nth_mem)

lemma holds_append [simp]: "holds f (xs @ ys) p = holds f xs p + holds f ys p"
  by (simp add: holds_def)

lemma holds_Nil [simp]: "holds f [] p = 0"
  by (simp add: holds_def)

lemma holds_Cons [simp]: "holds f (x # xs) p = (if f x = Some p then 1 else 0) + holds f xs p"
  by (simp add: holds_def)

lemma holds_one:
  assumes "holds f xs p \<le> 1" "i < length xs" "j < length xs" "f (xs ! i) = Some p" "f (xs ! j) = Some p"
  shows "i = j"
proof (rule ccontr)
  assume "i \<noteq> j"
  moreover have "holds f (xs[i := xs ! j]) p = holds f xs p" using holds_update [OF assms(2), of f "xs ! j" p] assms(4,5) by simp
  moreover have "card {k. k < length xs \<and> f (xs ! k) = Some p} = holds f xs p" by (simp add: holds_def length_filter_conv_card)
  moreover have "{i, j} \<subseteq> {k. k < length xs \<and> f (xs ! k) = Some p}" using assms by auto
  ultimately show False using card_mono [of "{k. k < length xs \<and> f (xs ! k) = Some p}" "{i, j}"] assms(1) by simp
qed

end
