(* ===== verification/LCI_Bits.thy ===== *)
theory LCI_Bits
  imports LCI_Prelude
begin

text \<open>
  The bit-field helpers of \<^verbatim>\<open>src/util/misc.hpp\<close> and the two formats built from them: the 32-bit
  immediate data of a message (\<^verbatim>\<open>set_immediate_data\<close> on the sending side, the decoding at the head
  of \<^verbatim>\<open>progress_recv\<close> and \<^verbatim>\<open>progress_remote_write\<close> on the receiving side) and the 64-bit keys of a
  matching engine (\<^verbatim>\<open>make_key\<close>).
\<close>

section \<open>Bit fields\<close>

text \<open>The mask is computed as \<^verbatim>\<open>(1UL << width) - 1\<close> in 64 bits and then stored in 32 bits.  A shift
  of a 32-bit value by 32 places, or of a 64-bit value by 64, has no meaning in C++.\<close>

definition bits32_mask :: "int \<Rightarrow> u32" where
  "bits32_mask width = ucast (push_bit (nat width) (1::u64) - 1)"

definition set_bits32 :: "u32 \<Rightarrow> u32 \<Rightarrow> int \<Rightarrow> int \<Rightarrow> u32 res" where
  "set_bits32 flag val width offset =
     bindR (lci_assert (0 \<le> width)) (\<lambda>_.
     bindR (lci_assert (width \<le> 32)) (\<lambda>_.
     bindR (lci_assert (0 \<le> offset)) (\<lambda>_.
     bindR (lci_assert (offset \<le> 32)) (\<lambda>_.
     bindR (lci_assert (offset + width \<le> 32)) (\<lambda>_.
     if offset = 32 then Inl Undefined_behaviour else
     let val_mask = bits32_mask width;
         flag_mask = push_bit (nat offset) val_mask
     in bindR (lci_assert (val \<le> val_mask)) (\<lambda>_.
        Inr ((flag AND NOT flag_mask) OR push_bit (nat offset) (val AND val_mask))))))))"

definition get_bits32 :: "u32 \<Rightarrow> int \<Rightarrow> int \<Rightarrow> u32 res" where
  "get_bits32 flag width offset =
     bindR (lci_assert (0 \<le> width)) (\<lambda>_.
     bindR (lci_assert (width \<le> 32)) (\<lambda>_.
     bindR (lci_assert (0 \<le> offset)) (\<lambda>_.
     bindR (lci_assert (offset \<le> 32)) (\<lambda>_.
     bindR (lci_assert (offset + width \<le> 32)) (\<lambda>_.
     if offset = 32 then Inl Undefined_behaviour else
     Inr (drop_bit (nat offset) flag AND bits32_mask width))))))"

definition set_bits64 :: "u64 \<Rightarrow> u64 \<Rightarrow> int \<Rightarrow> int \<Rightarrow> u64 res" where
  "set_bits64 flag val width offset =
     bindR (lci_assert (0 \<le> width)) (\<lambda>_.
     bindR (lci_assert (width \<le> 64)) (\<lambda>_.
     bindR (lci_assert (0 \<le> offset)) (\<lambda>_.
     bindR (lci_assert (offset \<le> 64)) (\<lambda>_.
     bindR (lci_assert (offset + width \<le> 64)) (\<lambda>_.
     if width = 64 \<or> offset = 64 then Inl Undefined_behaviour else
     let val_mask = push_bit (nat width) (1::u64) - 1;
         flag_mask = push_bit (nat offset) val_mask
     in bindR (lci_assert (val \<le> val_mask)) (\<lambda>_.
        Inr ((flag AND NOT flag_mask) OR push_bit (nat offset) (val AND val_mask))))))))"

definition get_bits64 :: "u64 \<Rightarrow> int \<Rightarrow> int \<Rightarrow> u64 res" where
  "get_bits64 flag width offset =
     bindR (lci_assert (0 \<le> width)) (\<lambda>_.
     bindR (lci_assert (width \<le> 64)) (\<lambda>_.
     bindR (lci_assert (0 \<le> offset)) (\<lambda>_.
     bindR (lci_assert (offset \<le> 64)) (\<lambda>_.
     bindR (lci_assert (offset + width \<le> 64)) (\<lambda>_.
     if width = 64 \<or> offset = 64 then Inl Undefined_behaviour else
     Inr (drop_bit (nat offset) flag AND (push_bit (nat width) (1::u64) - 1)))))))"

text \<open>The masks are the library's \<^const>\<open>mask\<close>, so that its bit lemmas apply.\<close>

lemma push_bit_1_minus_1: "push_bit n (1 :: 'a::len word) - 1 = mask n"
  by (simp add: mask_eq_exp_minus_1)

lemma bits32_mask_le: "w \<le> 32 \<Longrightarrow> bits32_mask w = mask (nat w)"
  by (simp add: bits32_mask_def push_bit_1_minus_1 ucast_mask_eq min_def nat_le_iff
      del: push_bit_of_1)

lemma le_mask_take_bit:
  fixes v :: "'a::len word"
  assumes "v \<le> mask n"
  shows "take_bit n v = v"
proof (cases "n < LENGTH('a)")
  case True
  have "unat (take_bit n (mask n :: 'a word)) < 2 ^ n"
    by (simp only: unsigned_take_bit_eq take_bit_nat_less_exp)
  then have "unat (mask n :: 'a word) < 2 ^ n"
    by (simp add: take_bit_eq_mask)
  with assms have "unat v < 2 ^ n"
    by (simp add: word_le_nat_alt)
  then show ?thesis
    by (simp add: word_unat_eq_iff unsigned_take_bit_eq take_bit_nat_eq_self)
next
  case False
  then show ?thesis by (simp add: take_bit_word_eq_self)
qed

lemma le_mask_and: "v \<le> mask n \<Longrightarrow> v AND mask n = (v :: 'a::len word)"
  by (simp add: le_mask_take_bit flip: take_bit_eq_mask)

text \<open>Reading a field as bits.\<close>

lemma bit_le_mask:
  fixes v :: "'a::len word"
  assumes "v \<le> mask n" and "bit v i"
  shows "i < n"
  using assms(2) by (subst (asm) le_mask_take_bit [OF assms(1), symmetric]) (simp add: bit_take_bit_iff)

lemma set_bits32_ok:
  assumes "0 \<le> w" "0 \<le> off" "off + w \<le> 32" "off < 32" "val \<le> mask (nat w)"
  shows "set_bits32 flag val w off =
     Inr ((flag AND NOT (push_bit (nat off) (mask (nat w)))) OR push_bit (nat off) val)"
proof -
  have "val AND mask (nat w) = val"
    using assms(5) by (rule le_mask_and)
  with assms show ?thesis
    by (simp add: set_bits32_def bits32_mask_le Let_def del: push_bit_and)
qed

lemma get_bits32_ok:
  assumes "0 \<le> w" "0 \<le> off" "off + w \<le> 32" "off < 32"
  shows "get_bits32 flag w off = Inr (drop_bit (nat off) flag AND mask (nat w))"
  using assms by (simp add: get_bits32_def bits32_mask_le)

lemma set_bits64_ok:
  assumes "0 \<le> w" "0 \<le> off" "off + w \<le> 64" "w < 64" "off < 64" "val \<le> mask (nat w)"
  shows "set_bits64 flag val w off =
     Inr ((flag AND NOT (push_bit (nat off) (mask (nat w)))) OR push_bit (nat off) val)"
proof -
  have "val AND mask (nat w) = val"
    using assms(6) by (rule le_mask_and)
  with assms show ?thesis
    by (simp add: set_bits64_def push_bit_1_minus_1 Let_def del: push_bit_of_1 push_bit_and)
qed

lemma set_bits64_too_big:
  assumes "0 \<le> w" "0 \<le> off" "off + w \<le> 64" "w < 64" "off < 64" "\<not> val \<le> mask (nat w)"
  shows "set_bits64 flag val w off = Inl Assert_failed"
  using assms by (simp add: set_bits64_def push_bit_1_minus_1 Let_def del: push_bit_of_1)

lemma field_get_set_same:
  fixes v flag :: "'a::len word"
  assumes "v \<le> mask w" "off + w \<le> LENGTH('a)"
  shows "drop_bit off ((flag AND NOT (push_bit off (mask w))) OR push_bit off v) AND mask w = v"
  (is "?l = v")
proof (rule bit_word_eqI)
  fix i assume "i < LENGTH('a)"
  show "bit ?l i \<longleftrightarrow> bit v i"
    using assms bit_le_mask [OF assms(1), of i]
    by (auto simp: bit_simps)
qed

lemma field_get_set_other:
  fixes v flag :: "'a::len word"
  assumes "v \<le> mask w" "off + w \<le> LENGTH('a)" "off' + w' \<le> LENGTH('a)"
    and "off + w \<le> off' \<or> off' + w' \<le> off"
  shows "drop_bit off' ((flag AND NOT (push_bit off (mask w))) OR push_bit off v) AND mask w'
       = drop_bit off' flag AND mask w'" (is "?l = ?r")
proof (rule bit_word_eqI)
  fix i assume "i < LENGTH('a)"
  show "bit ?l i \<longleftrightarrow> bit ?r i"
    using assms bit_le_mask [OF assms(1), of "off' + i - off"]
    by (auto simp: bit_simps)
qed

lemma set_bits32_range:
  assumes "set_bits32 flag val w off = Inr flag'"
  shows "0 \<le> w \<and> 0 \<le> off \<and> off + w \<le> 32 \<and> off < 32 \<and> val \<le> mask (nat w) \<and>
         flag' = (flag AND NOT (push_bit (nat off) (mask (nat w)))) OR push_bit (nat off) val"
proof -
  from assms have r: "0 \<le> w" "0 \<le> off" "off + w \<le> 32" "off < 32" "val \<le> mask (nat w)"
    by (auto simp: set_bits32_def bits32_mask_le bindR_Inr_iff Let_def split: if_splits)
  with assms show ?thesis by (simp add: set_bits32_ok)
qed

lemma bits32_get_same:
  assumes "set_bits32 flag val w off = Inr flag'"
  shows "get_bits32 flag' w off = Inr val"
proof -
  note r = set_bits32_range [OF assms]
  then have "nat off + nat w \<le> LENGTH(32)" by auto
  from field_get_set_same [OF _ this, of val flag] r show ?thesis
    by (simp only: get_bits32_ok)
qed

lemma bits32_get_other:
  assumes "set_bits32 flag val w off = Inr flag'"
    and "0 \<le> w'" "0 \<le> off'" "off' + w' \<le> 32" "off' < 32"
    and "off + w \<le> off' \<or> off' + w' \<le> off"
  shows "get_bits32 flag' w' off' = get_bits32 flag w' off'"
proof -
  note r = set_bits32_range [OF assms(1)]
  then have "nat off + nat w \<le> LENGTH(32)" "nat off' + nat w' \<le> LENGTH(32)"
      "nat off + nat w \<le> nat off' \<or> nat off' + nat w' \<le> nat off"
    using assms by auto
  from field_get_set_other [OF _ this, of val flag] r assms show ?thesis
    by (simp only: get_bits32_ok)
qed

section \<open>Immediate data\<close>

datatype imm_data_msg_type_t = IMM_DATA_MSG_EAGER | IMM_DATA_MSG_RTS | IMM_DATA_MSG_RTR | IMM_DATA_MSG_FIN

fun msg_type_val :: "imm_data_msg_type_t \<Rightarrow> u32" where
  "msg_type_val IMM_DATA_MSG_EAGER = 0"
| "msg_type_val IMM_DATA_MSG_RTS = 1"
| "msg_type_val IMM_DATA_MSG_RTR = 2"
| "msg_type_val IMM_DATA_MSG_FIN = 3"

definition msg_type_of :: "u32 \<Rightarrow> imm_data_msg_type_t" where
  "msg_type_of v = (if v = 0 then IMM_DATA_MSG_EAGER else if v = 1 then IMM_DATA_MSG_RTS
     else if v = 2 then IMM_DATA_MSG_RTR else IMM_DATA_MSG_FIN)"

lemma msg_type_of_val [simp]: "msg_type_of (msg_type_val t) = t"
  by (cases t) (simp_all add: msg_type_of_def)

text \<open>The three layouts the senders write: the fast path carries the tag and the remote handler
  (\<^verbatim>\<open>set_immediate_data\<close>); a control message carries only its type; the write-with-immediate end of a
  rendezvous carries its type and the key of the receive context (\<^verbatim>\<open>handle_rdv_rtr\<close>).\<close>

definition encode_fastpath :: "int \<Rightarrow> int \<Rightarrow> tag_t \<Rightarrow> rcomp_t \<Rightarrow> net_imm_data_t res" where
  "encode_fastpath nbits_tag nbits_rcomp tag rhandler =
     bindR (set_bits32 0 1 1 31) (\<lambda>imm.
     bindR (set_bits32 imm (ucast tag) nbits_tag 0) (\<lambda>imm.
     set_bits32 imm rhandler nbits_rcomp 16))"

definition encode_msg_type :: "imm_data_msg_type_t \<Rightarrow> net_imm_data_t res" where
  "encode_msg_type t = set_bits32 0 (msg_type_val t) 2 29"

definition encode_writeimm :: "int \<Rightarrow> u32 \<Rightarrow> net_imm_data_t res" where
  "encode_writeimm tag_bits recv_key =
     bindR (set_bits32 0 (msg_type_val IMM_DATA_MSG_FIN) 2 29) (\<lambda>imm.
     set_bits32 imm recv_key tag_bits 0)"

text \<open>What the receiver reads: the widths are the constants 16 and 15, whatever the runtime's
  attributes are.\<close>

datatype imm_view =
    Imm_fastpath tag_t rcomp_t
  | Imm_typed imm_data_msg_type_t

definition decode_imm :: "net_imm_data_t \<Rightarrow> imm_view res" where
  "decode_imm imm_data =
     bindR (get_bits32 imm_data 1 31) (\<lambda>is_fastpath.
     if is_fastpath \<noteq> 0 then
       bindR (get_bits32 imm_data 16 0) (\<lambda>tag.
       bindR (get_bits32 imm_data 15 16) (\<lambda>remote_comp.
       Inr (Imm_fastpath (ucast tag) remote_comp)))
     else
       bindR (get_bits32 imm_data 2 29) (\<lambda>t. Inr (Imm_typed (msg_type_of t))))"

definition decode_archive_tag :: "int \<Rightarrow> net_imm_data_t \<Rightarrow> u32 res" where
  "decode_archive_tag tag_bits imm_data = get_bits32 imm_data tag_bits 0"

lemma get_bits32_wider:
  assumes "get_bits32 flag w off = Inr v" and "get_bits32 flag (w' - w) (off + w) = Inr 0"
    and "0 \<le> w" "w \<le> w'" "0 \<le> off" "off + w' \<le> 32" "off + w < 32"
  shows "get_bits32 flag w' off = Inr v"
proof -
  have lo: "drop_bit (nat off) flag AND mask (nat w) = v"
    using assms by (simp add: get_bits32_ok)
  have hi: "drop_bit (nat (off + w)) flag AND mask (nat (w' - w)) = 0"
    using assms by (simp add: get_bits32_ok)
  have "drop_bit (nat off) flag AND mask (nat w') = drop_bit (nat off) flag AND mask (nat w)"
  proof (rule bit_word_eqI)
    fix i assume i: "i < LENGTH(32)"
    have "\<not> bit (drop_bit (nat (off + w)) flag AND mask (nat (w' - w))) (i - nat w)"
      unfolding hi by simp
    then show "bit (drop_bit (nat off) flag AND mask (nat w')) i =
               bit (drop_bit (nat off) flag AND mask (nat w)) i"
      using assms i
      by (auto simp: bit_simps nat_add_distrib nat_diff_distrib not_less) (metis less_diff_iff le_add_diff_inverse add.assoc not_le)+
  qed
  with lo assms show ?thesis by (simp add: get_bits32_ok)
qed

lemma get_bits32_0:
  "0 \<le> w \<Longrightarrow> 0 \<le> off \<Longrightarrow> off + w \<le> 32 \<Longrightarrow> off < 32 \<Longrightarrow> get_bits32 0 w off = Inr 0"
  by (simp add: get_bits32_ok)

lemma ucast_le_mask:
  fixes t :: u64
  assumes "t \<le> mask n" "n \<le> 32"
  shows "(ucast t :: u32) \<le> mask n \<and> ucast (ucast t :: u32) = t"
proof -
  have t: "take_bit n t = t" using assms(1) by (rule le_mask_take_bit)
  then have "take_bit n (ucast t :: u32) = ucast t"
    by (metis unsigned_take_bit_eq)
  then have 1: "(ucast t :: u32) \<le> mask n"
    by (metis take_bit_eq_mask word_and_le1)
  have 2: "ucast (ucast t :: u32) = t"
  proof (rule bit_word_eqI)
    fix i assume "i < LENGTH(64)"
    show "bit (ucast (ucast t :: u32) :: u64) i = bit t i"
      using bit_le_mask [OF assms(1), of i] assms(2) by (auto simp: bit_simps)
  qed
  from 1 2 show ?thesis by simp
qed

lemma encode_fastpath_fields:
  assumes "0 \<le> nt" "nt \<le> 16" "0 \<le> nr" "nr \<le> 15" "tag \<le> mask (nat nt)" "rh \<le> mask (nat nr)"
  shows "\<exists>imm. encode_fastpath nt nr tag rh = Inr imm \<and> get_bits32 imm 1 31 = Inr 1
           \<and> get_bits32 imm 16 0 = Inr (ucast tag) \<and> get_bits32 imm 15 16 = Inr rh"
proof -
  have t: "(ucast tag :: u32) \<le> mask (nat nt)"
    using ucast_le_mask [of tag "nat nt"] assms by simp
  obtain i1 where i1: "set_bits32 0 1 1 31 = Inr i1"
    by (simp add: set_bits32_ok)
  obtain i2 where i2: "set_bits32 i1 (ucast tag) nt 0 = Inr i2"
    using assms t by (simp add: set_bits32_ok)
  obtain i3 where i3: "set_bits32 i2 rh nr 16 = Inr i3"
    using assms by (simp add: set_bits32_ok)
  have "get_bits32 i3 1 31 = Inr 1"
    using bits32_get_other [OF i3, of 1 31] bits32_get_other [OF i2, of 1 31] bits32_get_same [OF i1] assms
    by simp
  moreover have "get_bits32 i3 16 0 = Inr (ucast tag)"
  proof (rule get_bits32_wider [where w = nt])
    show "get_bits32 i3 nt 0 = Inr (ucast tag)"
      using bits32_get_other [OF i3, of nt 0] bits32_get_same [OF i2] assms by simp
    show "get_bits32 i3 (16 - nt) (0 + nt) = Inr 0"
      using bits32_get_other [OF i3, of "16 - nt" nt] bits32_get_other [OF i2, of "16 - nt" nt]
        bits32_get_other [OF i1, of "16 - nt" nt] get_bits32_0 [of "16 - nt" nt] assms by simp
  qed (use assms in simp_all)
  moreover have "get_bits32 i3 15 16 = Inr rh"
  proof (rule get_bits32_wider [where w = nr])
    show "get_bits32 i3 nr 16 = Inr rh"
      using bits32_get_same [OF i3] .
    show "get_bits32 i3 (15 - nr) (16 + nr) = Inr 0"
      using bits32_get_other [OF i3, of "15 - nr" "16 + nr"] bits32_get_other [OF i2, of "15 - nr" "16 + nr"]
        bits32_get_other [OF i1, of "15 - nr" "16 + nr"] get_bits32_0 [of "15 - nr" "16 + nr"] assms by simp
  qed (use assms in simp_all)
  moreover have "encode_fastpath nt nr tag rh = Inr i3"
    by (simp add: encode_fastpath_def i1 i2 i3)
  ultimately show ?thesis by blast
qed

lemma encode_fastpath_decode:
  assumes "0 \<le> nt" "nt \<le> 16" "0 \<le> nr" "nr \<le> 15" "tag \<le> mask (nat nt)" "rh \<le> mask (nat nr)"
  shows "bindR (encode_fastpath nt nr tag rh) decode_imm = Inr (Imm_fastpath tag rh)"
proof -
  have "ucast (ucast tag :: u32) = tag"
    using ucast_le_mask [of tag "nat nt"] assms by simp
  with encode_fastpath_fields [OF assms] show ?thesis
    by (auto simp: decode_imm_def)
qed

lemma encode_msg_type_decode: "bindR (encode_msg_type t) decode_imm = Inr (Imm_typed t)"
proof -
  have v: "msg_type_val t \<le> mask 2"
    by (cases t) (simp_all add: mask_eq_exp_minus_1)
  then obtain i where i: "set_bits32 0 (msg_type_val t) 2 29 = Inr i"
    by (simp add: set_bits32_ok)
  have "get_bits32 i 1 31 = Inr 0"
    using bits32_get_other [OF i, of 1 31] get_bits32_0 [of 1 31] by simp
  with bits32_get_same [OF i] i show ?thesis
    by (simp add: encode_msg_type_def decode_imm_def)
qed

lemma encode_writeimm_decode:
  assumes "0 \<le> nb" "nb \<le> 29" "key \<le> mask (nat nb)"
  shows "\<exists>imm. encode_writeimm nb key = Inr imm \<and> decode_imm imm = Inr (Imm_typed IMM_DATA_MSG_FIN)
           \<and> decode_archive_tag nb imm = Inr key"
proof -
  have "(3::u32) \<le> mask 2" by (simp add: mask_eq_exp_minus_1)
  then obtain i where i: "set_bits32 0 3 2 29 = Inr i"
    by (simp add: set_bits32_ok)
  obtain j where j: "set_bits32 i key nb 0 = Inr j"
    using assms by (simp add: set_bits32_ok)
  have "get_bits32 j 1 31 = Inr 0"
    using bits32_get_other [OF j, of 1 31] bits32_get_other [OF i, of 1 31] get_bits32_0 [of 1 31] assms by simp
  moreover have "get_bits32 j 2 29 = Inr 3"
    using bits32_get_other [OF j, of 2 29] bits32_get_same [OF i] assms by simp
  ultimately show ?thesis
    using bits32_get_same [OF j] by (simp add: encode_writeimm_def decode_imm_def decode_archive_tag_def
        msg_type_of_def i j)
qed

section \<open>Matching keys\<close>

datatype matching_policy_t = mp_none | mp_rank_only | mp_tag_only | mp_rank_tag | mp_max

fun policy_val :: "matching_policy_t \<Rightarrow> u32" where
  "policy_val mp_none = 0"
| "policy_val mp_rank_only = 1"
| "policy_val mp_tag_only = 2"
| "policy_val mp_rank_tag = 3"
| "policy_val mp_max = 4"

definition ANY_SOURCE :: int where "ANY_SOURCE = -1"

definition ANY_TAG :: tag_t where "ANY_TAG = -1"

text \<open>The rank, a C \<^verbatim>\<open>int\<close>, is converted to the \<^verbatim>\<open>uint64_t\<close> parameter by sign extension.\<close>

fun make_key :: "int \<Rightarrow> tag_t \<Rightarrow> matching_policy_t \<Rightarrow> matching_entry_key_t res" where
  "make_key rank tag mp_none = Inr 0"
| "make_key rank tag mp_rank_only = set_bits64 0 (word_of_int rank) 32 0"
| "make_key rank tag mp_tag_only = set_bits64 0 tag 32 0"
| "make_key rank tag mp_rank_tag =
     bindR (set_bits64 0 (word_of_int rank) 32 32) (\<lambda>key. set_bits64 key tag 32 0)"
| "make_key rank tag mp_max = Inl Assert_failed"

text \<open>What the policy promises: the part of the rank and the tag that two operations must share.\<close>

fun policy_view :: "matching_policy_t \<Rightarrow> int \<Rightarrow> tag_t \<Rightarrow> int option \<times> tag_t option" where
  "policy_view mp_none rank tag = (None, None)"
| "policy_view mp_rank_only rank tag = (Some rank, None)"
| "policy_view mp_tag_only rank tag = (None, Some tag)"
| "policy_view mp_rank_tag rank tag = (Some rank, Some tag)"
| "policy_view mp_max rank tag = (None, None)"

definition c_int :: "int \<Rightarrow> bool" where
  "c_int r \<longleftrightarrow> - (2 ^ 31) \<le> r \<and> r < 2 ^ 31"

lemma set_bits64_range:
  assumes "set_bits64 flag val w off = Inr flag'"
  shows "0 \<le> w \<and> 0 \<le> off \<and> off + w \<le> 64 \<and> w < 64 \<and> off < 64 \<and> val \<le> mask (nat w) \<and>
         flag' = (flag AND NOT (push_bit (nat off) (mask (nat w)))) OR push_bit (nat off) val"
proof -
  from assms have r: "0 \<le> w" "0 \<le> off" "off + w \<le> 64" "w < 64" "off < 64" "val \<le> mask (nat w)"
    by (auto simp: set_bits64_def push_bit_1_minus_1 bindR_Inr_iff Let_def
        simp del: push_bit_of_1 split: if_splits)
  with assms show ?thesis by (simp add: set_bits64_ok)
qed

lemma get_field64_same:
  assumes "set_bits64 flag val w off = Inr flag'"
  shows "drop_bit (nat off) flag' AND mask (nat w) = val"
proof -
  note r = set_bits64_range [OF assms]
  then have "nat off + nat w \<le> LENGTH(64)" by auto
  from field_get_set_same [OF _ this, of val flag] r show ?thesis by simp
qed

lemma get_field64_other:
  assumes "set_bits64 flag val w off = Inr flag'" "off' + w' \<le> 64"
    and "nat off + nat w \<le> off' \<or> off' + w' \<le> nat off"
  shows "drop_bit off' flag' AND mask w' = drop_bit off' flag AND mask w'"
proof -
  note r = set_bits64_range [OF assms(1)]
  then have "nat off + nat w \<le> LENGTH(64)" "off' + w' \<le> LENGTH(64)"
    using assms(2) by auto
  from field_get_set_other [OF _ this assms(3), of val flag] r show ?thesis by simp
qed

text \<open>The two halves of a key.\<close>

lemma make_key_fields:
  assumes "make_key rank tag p = Inr k"
  shows "(p = mp_none \<longrightarrow> k = 0) \<and>
         (p = mp_rank_only \<longrightarrow> k AND mask 32 = word_of_int rank) \<and>
         (p = mp_tag_only \<longrightarrow> k AND mask 32 = tag) \<and>
         (p = mp_rank_tag \<longrightarrow> drop_bit 32 k AND mask 32 = word_of_int rank \<and> k AND mask 32 = tag)"
proof (cases p)
  case mp_rank_tag
  with assms obtain k' where k': "set_bits64 0 (word_of_int rank) 32 32 = Inr k'"
      and k: "set_bits64 k' tag 32 0 = Inr k"
    by (auto simp: bindR_Inr_iff)
  show ?thesis
    using get_field64_same [OF k] get_field64_other [OF k, of 32 32] get_field64_same [OF k'] mp_rank_tag
    by simp
qed (use assms get_field64_same [of 0 _ 32 0 k] in simp_all)

lemma word_of_int_c_int_inj:
  assumes "c_int r" "c_int r'" "(word_of_int r :: u64) = word_of_int r'"
  shows "r = r'"
proof -
  from assms(3) have "take_bit 64 r = take_bit 64 r'"
    by (simp add: word_of_int_eq_iff)
  then have "r mod 2 ^ 64 = r' mod 2 ^ 64"
    by (simp add: take_bit_eq_mod)
  then have "2 ^ 64 dvd r - r'"
    by (simp add: mod_eq_dvd_iff)
  moreover have "\<bar>r - r'\<bar> < 2 ^ 64"
    using assms(1,2) by (simp add: c_int_def abs_less_iff)
  ultimately have "r - r' = 0"
    using dvd_imp_le_int [of "r - r'" "2 ^ 64"] by (cases "r = r'") simp_all
  then show ?thesis by simp
qed

lemma make_key_eq_iff:
  assumes "make_key rank tag p = Inr k" "make_key rank' tag' p = Inr k'" "c_int rank" "c_int rank'"
  shows "k = k' \<longleftrightarrow> policy_view p rank tag = policy_view p rank' tag'"
proof
  assume "k = k'"
  with make_key_fields [OF assms(1)] make_key_fields [OF assms(2)] assms(3,4)
  show "policy_view p rank tag = policy_view p rank' tag'"
    by (cases p) (auto dest: word_of_int_c_int_inj)
next
  assume "policy_view p rank tag = policy_view p rank' tag'"
  with assms(1,2) show "k = k'" by (cases p) auto
qed

section \<open>Properties\<close>

text \<open>A bit field reads back the value that was written to it, and the write changes no
  disjoint field: the law that every packed format of the library rests on.\<close>

theorem bits32_get_set:
  assumes "set_bits32 flag val w off = Inr flag'"
    and "0 \<le> w'" "0 \<le> off'" "off' + w' \<le> 32" "off' < 32"
    and "off + w \<le> off' \<or> off' + w' \<le> off"
  shows "get_bits32 flag' w off = Inr val \<and> get_bits32 flag' w' off' = get_bits32 flag w' off'"
  using bits32_get_same [OF assms(1)] bits32_get_other [OF assms] by simp

theorem bits32_get_set_witness:
  "\<exists>flag'. set_bits32 0xFFFF 5 3 16 = Inr flag' \<and> get_bits32 flag' 3 16 = Inr 5
     \<and> get_bits32 flag' 16 0 = get_bits32 0xFFFF 16 0"
proof -
  have "(5::u32) \<le> mask 3" by (simp add: mask_eq_exp_minus_1)
  then obtain f where "set_bits32 0xFFFF 5 3 16 = Inr f"
    by (simp add: set_bits32_ok)
  with bits32_get_set [of "0xFFFF" 5 3 16 f 16 0] show ?thesis by simp
qed




text \<open>C34.  Under one matching policy two operations get the same key exactly when they agree on
  what the policy matches: nothing, the rank, the tag, or both.\<close>

theorem make_key_separates:
  assumes "make_key rank tag policy = Inr k" "make_key rank' tag' policy = Inr k'"
    and "c_int rank" "c_int rank'"
  shows "k = k' \<longleftrightarrow> policy_view policy rank tag = policy_view policy rank' tag'"
  using assms by (rule make_key_eq_iff)

theorem make_key_separates_witness:
  "make_key 3 7 mp_rank_tag = Inr 0x300000007 \<and> make_key 7 3 mp_rank_tag = Inr 0x700000003
   \<and> policy_view mp_rank_tag 3 7 \<noteq> policy_view mp_rank_tag 7 3"
proof -
  have 1: "make_key 3 7 mp_rank_tag = Inr 0x300000007" "make_key 7 3 mp_rank_tag = Inr 0x700000003"
    by (simp_all add: set_bits64_def Let_def)
  have "c_int 3" "c_int 7" by (simp_all add: c_int_def)
  from make_key_separates [OF 1 this] 1 show ?thesis by simp
qed

end
