(* ===== verification/LCI_Matching_Map.thy ===== *)
theory LCI_Matching_Map
  imports LCI_Matching
begin

text \<open>
  The hash-table matching engine of \<^verbatim>\<open>src/matching_engine/matching_engine_map.hpp\<close>: per key a compact
  queue that lives in two inline slots and spills to a list of seven-value nodes, the chains of
  buckets that hold these queues, and \<^verbatim>\<open>insert\<close>, which searches a chain, frees empty buckets on the
  way and pops, appends or sets up a queue.  The table is shown to implement the contract of
  \<^verbatim>\<open>LCI_Matching\<close>.
\<close>

section \<open>Queues\<close>

text \<open>With 64-byte cache lines a node has seven values and the link.  A linked list of nodes is a
  list, its head pointer the first element and its tail pointer the last one.  The slots and the
  list share memory in the code; the flag \<^verbatim>\<open>is_queue\<close> says which member is active, and every
  operation reads only the member that the flag selects.\<close>

definition NODE_NUM_VALUES :: nat where "NODE_NUM_VALUES = 7"
definition SLOT_NUM_VALUES :: nat where "SLOT_NUM_VALUES = 2"
definition BUCKET_NUM_QUEUES_DEFAULT :: nat where "BUCKET_NUM_QUEUES_DEFAULT = 3"
definition TABLE_BIT_SIZE :: nat where "TABLE_BIT_SIZE = 16"

type_synonym node_t = "val_t list"

record queue_t =
  q_is_empty :: bool
  q_is_queue :: bool
  q_type :: insert_type_t
  q_key :: key_t
  q_slots :: "val_t list"
  q_list :: "node_t list"

definition new_node :: node_t where
  "new_node = replicate NODE_NUM_VALUES VALUE_EMPTY"

text \<open>The constructor leaves key and type uninitialised: they are its arguments here.\<close>

definition new_queue :: "key_t \<Rightarrow> insert_type_t \<Rightarrow> queue_t" where
  "new_queue k t = \<lparr>q_is_empty = True, q_is_queue = False, q_type = t, q_key = k,
                     q_slots = replicate SLOT_NUM_VALUES VALUE_EMPTY, q_list = []\<rparr>"

text \<open>The scan that both branches of \<^verbatim>\<open>pop\<close> run over an array: take the first value, count the others.\<close>

fun pop_scan :: "val_t \<Rightarrow> nat \<Rightarrow> val_t list \<Rightarrow> val_t \<times> nat \<times> val_t list" where
  "pop_scan ret nlefts [] = (ret, nlefts, [])"
| "pop_scan ret nlefts (v # vs) =
     (if v \<noteq> VALUE_EMPTY then
        if ret = VALUE_EMPTY then
          let (r, n, ws) = pop_scan v nlefts vs in (r, n, VALUE_EMPTY # ws)
        else
          let (r, n, ws) = pop_scan ret (nlefts + 1) vs in (r, n, v # ws)
      else
        let (r, n, ws) = pop_scan ret nlefts vs in (r, n, v # ws))"

definition queue_pop :: "queue_t \<Rightarrow> val_t \<times> queue_t" where
  "queue_pop q =
     (if \<not> q_is_queue q then
        let (ret, nlefts, slots) = pop_scan VALUE_EMPTY 0 (q_slots q);
            q = q\<lparr>q_slots := slots\<rparr>
        in (ret, if nlefts = 0 then q\<lparr>q_is_empty := True\<rparr> else q)
      else
        let (ret, nlefts, values) = pop_scan VALUE_EMPTY 0 (hd (q_list q))
        in if nlefts = 0 then
             let q = q\<lparr>q_list := tl (q_list q)\<rparr>
             in (ret, if q_list q = [] then q\<lparr>q_is_empty := True\<rparr> else q)
           else if nlefts \<le> SLOT_NUM_VALUES \<and> tl (q_list q) = [] then
             let kept = filter (\<lambda>v. v \<noteq> VALUE_EMPTY) values
             in (ret, q\<lparr>q_list := [], q_is_queue := False,
                        q_slots := kept @ replicate (SLOT_NUM_VALUES - length kept) VALUE_EMPTY\<rparr>)
           else (ret, q\<lparr>q_list := values # tl (q_list q)\<rparr>))"

text \<open>The two position searches of \<^verbatim>\<open>push\<close>: upwards for the first empty slot, downwards for the start
  of the run of empty values at the end of the tail node.\<close>

fun first_empty_slot :: "val_t list \<Rightarrow> val_t \<Rightarrow> val_t list" where
  "first_empty_slot [] value = []"
| "first_empty_slot (v # vs) value =
     (if v = VALUE_EMPTY then value # vs else v # first_empty_slot vs value)"

fun empty_run :: "val_t list \<Rightarrow> nat \<Rightarrow> nat \<Rightarrow> nat" where
  "empty_run vs 0 empty_slot = empty_slot"
| "empty_run vs (Suc i) empty_slot = (if vs ! i = VALUE_EMPTY then empty_run vs i i else empty_slot)"

definition queue_push :: "queue_t \<Rightarrow> val_t \<Rightarrow> queue_t" where
  "queue_push q value =
     (if \<not> q_is_queue q then
        if q_slots q ! (SLOT_NUM_VALUES - 1) \<noteq> VALUE_EMPTY then
          let node = (take SLOT_NUM_VALUES (q_slots q) @ drop SLOT_NUM_VALUES new_node)
                       [SLOT_NUM_VALUES := value]
          in q\<lparr>q_is_queue := True, q_list := [node]\<rparr>
        else q\<lparr>q_slots := first_empty_slot (q_slots q) value\<rparr>
      else
        let tail = last (q_list q)
        in if tail ! (NODE_NUM_VALUES - 1) \<noteq> VALUE_EMPTY then
             q\<lparr>q_list := q_list q @ [new_node[0 := value]]\<rparr>
           else
             let empty_slot = empty_run tail NODE_NUM_VALUES (NODE_NUM_VALUES - 1)
             in q\<lparr>q_list := butlast (q_list q) @ [tail[empty_slot := value]]\<rparr>)"

definition queue_setup :: "queue_t \<Rightarrow> key_t \<Rightarrow> insert_type_t \<Rightarrow> val_t \<Rightarrow> queue_t" where
  "queue_setup q key type value =
     q\<lparr>q_is_empty := False, q_is_queue := False, q_key := key, q_type := type,
        q_slots := value # replicate (SLOT_NUM_VALUES - 1) VALUE_EMPTY\<rparr>"

text \<open>The destructor: how many nodes it frees.\<close>

definition queue_destroy_freed :: "queue_t \<Rightarrow> nat" where
  "queue_destroy_freed q = (if q_is_empty q \<and> q_is_queue q then length (q_list q) else 0)"

section \<open>A queue is a FIFO list\<close>

definition values_of :: "val_t list \<Rightarrow> val_t list" where
  "values_of vs = filter (\<lambda>v. v \<noteq> VALUE_EMPTY) vs"

definition contents :: "queue_t \<Rightarrow> val_t list" where
  "contents q = (if q_is_empty q then []
     else if q_is_queue q then values_of (concat (q_list q)) else values_of (q_slots q))"

text \<open>The invariant that the debug assertions of \<^verbatim>\<open>pop\<close> and \<^verbatim>\<open>push\<close> name: a queue that is not empty
  has a value in its slots, or in every node of its list.\<close>

definition queue_t_inv :: "queue_t \<Rightarrow> bool" where
  "queue_t_inv q \<longleftrightarrow> length (q_slots q) = SLOT_NUM_VALUES \<and>
     (q_is_empty q \<longrightarrow> q_is_queue q \<longrightarrow> q_list q = []) \<and>
     (\<not> q_is_empty q \<longrightarrow>
        (if q_is_queue q then q_list q \<noteq> [] \<and>
           (\<forall>n\<in>set (q_list q). length n = NODE_NUM_VALUES \<and> values_of n \<noteq> [])
         else values_of (q_slots q) \<noteq> []))"

lemmas queue_consts = NODE_NUM_VALUES_def SLOT_NUM_VALUES_def new_node_def

lemma values_of_simps [simp]:
  "values_of [] = []"
  "values_of (v # vs) = (if v = VALUE_EMPTY then values_of vs else v # values_of vs)"
  "values_of (xs @ ys) = values_of xs @ values_of ys"
  "values_of (replicate n VALUE_EMPTY) = []"
  by (simp_all add: values_of_def)

lemma values_of_idem [simp]: "values_of (values_of vs) = values_of vs"
  by (simp add: values_of_def)

lemma pop_scan_taken:
  "ret \<noteq> VALUE_EMPTY \<Longrightarrow> pop_scan ret n vs = (ret, n + length (values_of vs), vs)"
  by (induction vs arbitrary: n) simp_all

lemma pop_scan_spec:
  assumes "values_of vs = w # ws"
  shows "\<exists>vs'. pop_scan VALUE_EMPTY n vs = (w, n + length ws, vs') \<and> values_of vs' = ws
           \<and> length vs' = length vs"
  using assms
proof (induction vs)
  case (Cons v vs)
  then show ?case
    by (cases "v = VALUE_EMPTY") (auto simp: pop_scan_taken)
qed simp

lemma values_of_run:
  assumes "n < length vs" "\<forall>j. n \<le> j \<and> j < length vs \<longrightarrow> vs ! j = VALUE_EMPTY" "value \<noteq> VALUE_EMPTY"
  shows "values_of (vs[empty_run vs n n := value]) = values_of vs @ [value]"
  using assms
proof (induction n)
  case 0
  then have "values_of vs = []"
    by (auto simp: values_of_def filter_empty_conv in_set_conv_nth)
  moreover have "values_of (tl vs) = []"
    using 0 by (auto simp: values_of_def filter_empty_conv in_set_conv_nth nth_tl)
  ultimately show ?case
    using 0 by (cases vs) auto
next
  case (Suc n)
  show ?case
  proof (cases "vs ! n = VALUE_EMPTY")
    case True
    with Suc show ?thesis by (auto simp: le_Suc_eq intro!: Suc.IH) (metis le_antisym not_less_eq_eq)
  next
    case False
    have "values_of (drop (Suc n) vs) = []" "values_of (drop (Suc (Suc n)) vs) = []"
      using Suc.prems(2) by (auto simp: values_of_def filter_empty_conv in_set_conv_nth)
    moreover have "vs = take (Suc n) vs @ drop (Suc n) vs" by simp
    ultimately have "values_of vs = values_of (take (Suc n) vs)"
      by (metis append_Nil2 values_of_simps(3))
    moreover have "vs[Suc n := value] = take (Suc n) vs @ value # drop (Suc (Suc n)) vs"
      using Suc.prems(1) by (rule upd_conv_take_nth_drop)
    ultimately show ?thesis
      using False \<open>values_of (drop (Suc (Suc n)) vs) = []\<close> Suc.prems(3) by simp
  qed
qed

lemma length2_cases: "length xs = 2 \<Longrightarrow> \<exists>a b. xs = [a, b]"
  by (cases xs; cases "tl xs"; simp)

lemma queue_pop_slots:
  assumes "queue_t_inv q" "\<not> q_is_empty q" "\<not> q_is_queue q" "queue_pop q = (r, q')"
  shows "queue_t_inv q' \<and> contents q = r # contents q' \<and> q_is_empty q' = (contents q' = [])"
proof -
  obtain w ws where w: "values_of (q_slots q) = w # ws"
    using assms(1-3) by (auto simp: queue_t_inv_def neq_Nil_conv)
  obtain vs' where vs': "pop_scan VALUE_EMPTY 0 (q_slots q) = (w, length ws, vs')" "values_of vs' = ws"
      "length vs' = length (q_slots q)"
    using pop_scan_spec [OF w, of 0] by auto
  from vs'(1) assms(3,4) have "r = w"
      "q' = (if ws = [] then q\<lparr>q_slots := vs', q_is_empty := True\<rparr> else q\<lparr>q_slots := vs'\<rparr>)"
    by (auto simp: queue_pop_def Let_def split: if_splits)
  with assms(1-3) w vs'(2,3) show ?thesis
    by (auto simp: queue_t_inv_def contents_def)
qed

lemma queue_pop_list:
  assumes "queue_t_inv q" "\<not> q_is_empty q" "q_is_queue q" "queue_pop q = (r, q')"
  shows "queue_t_inv q' \<and> contents q = r # contents q' \<and> q_is_empty q' = (contents q' = [])"
proof -
  obtain n ns where n: "q_list q = n # ns"
    using assms(1-3) by (auto simp: queue_t_inv_def neq_Nil_conv)
  have all: "\<forall>m\<in>set ns. length m = NODE_NUM_VALUES \<and> values_of m \<noteq> []"
      and nl: "length n = NODE_NUM_VALUES"
    using assms(1-3) n by (auto simp: queue_t_inv_def)
  obtain w ws where w: "values_of n = w # ws"
    using assms(1-3) n by (auto simp: queue_t_inv_def neq_Nil_conv)
  obtain vs' where vs': "pop_scan VALUE_EMPTY 0 n = (w, length ws, vs')" "values_of vs' = ws" "length vs' = length n"
    using pop_scan_spec [OF w, of 0] by auto
  have kept: "filter (\<lambda>v. v \<noteq> VALUE_EMPTY) vs' = ws" "VALUE_EMPTY \<notin> set ws"
    using vs'(2) by (auto simp: values_of_def)
  then have ws: "values_of ws = ws" by (metis values_of_idem vs'(2))
  consider "ws = []" | "ws \<noteq> []" "length ws \<le> SLOT_NUM_VALUES" "ns = []"
    | "ws \<noteq> []" "\<not> (length ws \<le> SLOT_NUM_VALUES \<and> ns = [])" by blast
  then show ?thesis
  proof cases
    case 1
    with assms(3,4) n vs'(1) have "r = w"
        "q' = (if ns = [] then q\<lparr>q_list := ns, q_is_empty := True\<rparr> else q\<lparr>q_list := ns\<rparr>)"
      by (auto simp: queue_pop_def Let_def split: if_splits)
    moreover have "ns \<noteq> [] \<Longrightarrow> values_of (concat ns) \<noteq> []"
      using all by (cases ns) auto
    ultimately show ?thesis
      using assms(1-3) n all w 1 by (auto simp: queue_t_inv_def contents_def)
  next
    case 2
    with assms(3,4) n vs'(1) kept have "r = w"
        "q' = q\<lparr>q_list := [], q_is_queue := False,
                q_slots := ws @ replicate (SLOT_NUM_VALUES - length ws) VALUE_EMPTY\<rparr>"
      by (auto simp: queue_pop_def Let_def split: if_splits)
    with 2 assms(1-3) n w ws show ?thesis
      by (auto simp: queue_t_inv_def contents_def)
  next
    case 3
    with assms(3,4) n vs'(1) have "r = w" "q' = q\<lparr>q_list := vs' # ns\<rparr>"
      by (auto simp: queue_pop_def Let_def split: if_splits)
    with 3 assms(1-3) n w vs'(2,3) nl all show ?thesis
      by (auto simp: queue_t_inv_def contents_def)
  qed
qed

lemma queue_pop_fields:
  "q_key (snd (queue_pop q)) = q_key q \<and> q_type (snd (queue_pop q)) = q_type q"
  by (auto simp: queue_pop_def Let_def split: prod.splits)

lemma queue_pop_spec:
  assumes "queue_t_inv q" "\<not> q_is_empty q" "queue_pop q = (r, q')"
  shows "queue_t_inv q' \<and> contents q = r # contents q' \<and> q_is_empty q' = (contents q' = [])
       \<and> q_key q' = q_key q \<and> q_type q' = q_type q"
  using queue_pop_slots [OF assms(1,2) _ assms(3)] queue_pop_list [OF assms(1,2) _ assms(3)]
    queue_pop_fields [of q] assms(3) by auto

lemma queue_push_spec:
  assumes "queue_t_inv q" "\<not> q_is_empty q" "value \<noteq> VALUE_EMPTY"
  shows "queue_t_inv (queue_push q value) \<and> contents (queue_push q value) = contents q @ [value]
       \<and> \<not> q_is_empty (queue_push q value)
       \<and> q_key (queue_push q value) = q_key q \<and> q_type (queue_push q value) = q_type q"
proof (cases "q_is_queue q")
  case False
  then obtain a b where "q_slots q = [a, b]"
    using assms(1) length2_cases [of "q_slots q"] by (auto simp: queue_t_inv_def SLOT_NUM_VALUES_def)
  with False assms show ?thesis
    by (auto simp: queue_push_def queue_t_inv_def contents_def Let_def queue_consts numeral_eq_Suc)
next
  case True
  then have ne: "q_list q \<noteq> []" using assms by (simp add: queue_t_inv_def)
  let ?t = "last (q_list q)" and ?b = "butlast (q_list q)"
  have l: "q_list q = ?b @ [?t]" using ne by simp
  have len: "length ?t = NODE_NUM_VALUES" "values_of ?t \<noteq> []"
    using assms True ne by (simp_all add: queue_t_inv_def)
  have b: "\<forall>n\<in>set ?b. length n = NODE_NUM_VALUES \<and> values_of n \<noteq> []"
    using assms True by (auto simp: queue_t_inv_def dest: in_set_butlastD)
  have c: "contents q = values_of (concat ?b) @ values_of ?t"
    using assms(2) True arg_cong [OF l, of concat] by (simp add: contents_def)
  show ?thesis
  proof (cases "?t ! (NODE_NUM_VALUES - 1) = VALUE_EMPTY")
    case False
    then have p: "queue_push q value = q\<lparr>q_list := q_list q @ [new_node[0 := value]]\<rparr>"
      using True by (simp add: queue_push_def Let_def)
    have "values_of (new_node[0 := value]) = [value]" "length (new_node[0 := value]) = NODE_NUM_VALUES"
      using assms(3) by (simp_all add: queue_consts numeral_eq_Suc)
    with p assms True ne show ?thesis
      by (auto simp: queue_t_inv_def contents_def)
  next
    case last: True
    let ?e = "empty_run ?t NODE_NUM_VALUES (NODE_NUM_VALUES - 1)"
    have "?e = empty_run ?t (NODE_NUM_VALUES - 1) (NODE_NUM_VALUES - 1)"
      using last by (simp add: NODE_NUM_VALUES_def numeral_eq_Suc)
    moreover have "\<forall>j. NODE_NUM_VALUES - 1 \<le> j \<and> j < length ?t \<longrightarrow> ?t ! j = VALUE_EMPTY"
      using last len by (auto simp: NODE_NUM_VALUES_def le_Suc_eq numeral_eq_Suc less_Suc_eq)
    ultimately have "values_of (?t[?e := value]) = values_of ?t @ [value]"
      using values_of_run [of "NODE_NUM_VALUES - 1" ?t "value"] len assms(3)
      by (simp add: NODE_NUM_VALUES_def)
    moreover have "queue_push q value = q\<lparr>q_list := ?b @ [?t[?e := value]]\<rparr>"
      using True last by (simp add: queue_push_def Let_def)
    ultimately show ?thesis
      using assms(1,2) True b len c by (auto simp: queue_t_inv_def contents_def [of "q\<lparr>q_list := _\<rparr>"])
  qed
qed

lemma queue_setup_spec:
  assumes "queue_t_inv q" "value \<noteq> VALUE_EMPTY"
  shows "queue_t_inv (queue_setup q k t value) \<and> contents (queue_setup q k t value) = [value]"
  using assms by (simp add: queue_setup_def queue_t_inv_def contents_def SLOT_NUM_VALUES_def)

lemma new_queue_inv: "queue_t_inv (new_queue k t)"
  by (simp add: new_queue_def queue_t_inv_def)

section \<open>Buckets and the table\<close>

type_synonym bucket_t = "queue_t list"

text \<open>A chain is the list of buckets linked from a master bucket; \<^verbatim>\<open>nqueues\<close> is the length of a
  bucket.  A pointer to a queue is its place in the chain.\<close>

type_synonym place = "nat \<times> nat"

datatype hit = Target place | Same_type place

text \<open>The \<^verbatim>\<open>for\<close> loop over the queues of one bucket: it carries the first empty queue met so far
  in the whole chain and whether this bucket is in use.\<close>

fun scan_bucket :: "key_t \<Rightarrow> insert_type_t \<Rightarrow> place option \<Rightarrow> bool \<Rightarrow> nat \<Rightarrow> nat \<Rightarrow> bucket_t
    \<Rightarrow> place option \<times> bool \<times> hit option" where
  "scan_bucket key target fe ne b i [] = (fe, ne, None)"
| "scan_bucket key target fe ne b i (q # qs) =
     (if q_is_empty q then
        if fe = None then scan_bucket key target (Some (b, i)) True b (i + 1) qs
        else scan_bucket key target fe ne b (i + 1) qs
      else if q_key q = key then
        (fe, True, Some (if q_type q = target then Target (b, i) else Same_type (b, i)))
      else scan_bucket key target fe True b (i + 1) qs)"

text \<open>The \<^verbatim>\<open>while\<close> loop over the chain.  \<open>kept\<close> are the buckets passed and kept, of which the last
  is \<^verbatim>\<open>previous_bucket\<close>.  A bucket without an entry is unlinked, unless it is the master.\<close>

fun scan_chain :: "key_t \<Rightarrow> insert_type_t \<Rightarrow> place option \<Rightarrow> bucket_t list \<Rightarrow> bucket_t list
    \<Rightarrow> place option \<times> hit option \<times> bucket_t list" where
  "scan_chain key target fe kept [] = (fe, None, kept)"
| "scan_chain key target fe kept (bk # rest) =
     (case scan_bucket key target fe False (length kept) 0 bk of
        (fe', ne, Some h) \<Rightarrow> (fe', Some h, kept @ bk # rest)
      | (fe', ne, None) \<Rightarrow>
          if \<not> ne \<and> kept \<noteq> [] then scan_chain key target fe' kept rest
          else scan_chain key target fe' (kept @ [bk]) rest)"

definition hash_fn :: "u64 \<Rightarrow> u32" where
  "hash_fn k =
     (let Prime = 0x01000193; Seed = 0x811C9DC5;
          byte = (\<lambda>n. ucast (drop_bit n k AND 0xff) :: u32);
          hash = (byte 0 XOR Seed) * Prime;
          hash = (byte 8 XOR hash) * Prime;
          hash = (byte 16 XOR hash) * Prime;
          hash = (byte 24 XOR hash) * Prime;
          hash = (byte 32 XOR hash) * Prime;
          hash = (byte 40 XOR hash) * Prime;
          hash = (byte 48 XOR hash) * Prime;
          hash = (byte 56 XOR hash) * Prime
      in (drop_bit TABLE_BIT_SIZE hash XOR hash) AND (push_bit TABLE_BIT_SIZE 1 - 1))"

type_synonym table_t = "u32 \<Rightarrow> bucket_t list"

definition bucket_alloc :: "nat \<Rightarrow> bucket_t" where
  "bucket_alloc nqueues = replicate nqueues (new_queue 0 it_send)"

definition table_init :: table_t where
  "table_init idx = [bucket_alloc BUCKET_NUM_QUEUES_DEFAULT]"

definition queue_at :: "bucket_t list \<Rightarrow> place \<Rightarrow> queue_t" where
  "queue_at chain p = chain ! fst p ! snd p"

definition put_at :: "bucket_t list \<Rightarrow> place \<Rightarrow> queue_t \<Rightarrow> bucket_t list" where
  "put_at chain p q = chain[fst p := (chain ! fst p)[snd p := q]]"

definition chain_insert :: "bucket_t list \<Rightarrow> key_t \<Rightarrow> val_t \<Rightarrow> insert_type_t \<Rightarrow> val_t \<times> bucket_t list" where
  "chain_insert chain key value type =
     (case scan_chain key (opposite type) None [] chain of
        (fe, Some (Target p), chain) \<Rightarrow>
          let (ret, q) = queue_pop (queue_at chain p) in (ret, put_at chain p q)
      | (fe, Some (Same_type p), chain) \<Rightarrow>
          (VALUE_EMPTY, put_at chain p (queue_push (queue_at chain p) value))
      | (fe, None, chain) \<Rightarrow>
          let (p, chain) = (case fe of Some p \<Rightarrow> (p, chain)
                | None \<Rightarrow> ((length chain, 0), chain @ [bucket_alloc (length (last chain) * 2 + 1)]))
          in (VALUE_EMPTY, put_at chain p (queue_setup (queue_at chain p) key type value)))"

definition map_insert :: "table_t \<Rightarrow> key_t \<Rightarrow> val_t \<Rightarrow> insert_type_t \<Rightarrow> val_t \<times> table_t" where
  "map_insert table key value type =
     (let idx = hash_fn key;
          (ret, chain) = chain_insert (table idx) key value type
      in (ret, table(idx := chain)))"

section \<open>The table implements the contract\<close>

definition live :: "bucket_t list \<Rightarrow> queue_t list" where
  "live chain = filter (\<lambda>q. \<not> q_is_empty q) (concat chain)"

definition pend_in :: "queue_t list \<Rightarrow> key_t \<Rightarrow> insert_type_t \<Rightarrow> val_t list" where
  "pend_in qs k t = concat (map contents (filter (\<lambda>q. q_key q = k \<and> q_type q = t) qs))"

text \<open>A chain has at most one queue in use per key.\<close>

definition chain_inv :: "bucket_t list \<Rightarrow> bool" where
  "chain_inv chain \<longleftrightarrow> chain \<noteq> [] \<and> (\<forall>q\<in>set (concat chain). queue_t_inv q) \<and>
     distinct (map q_key (live chain))"

definition valid_place :: "bucket_t list \<Rightarrow> place \<Rightarrow> bool" where
  "valid_place chain p \<longleftrightarrow> fst p < length chain \<and> snd p < length (chain ! fst p)"

lemma valid_place_append: "valid_place chain p \<Longrightarrow> valid_place (chain @ c) p \<and> queue_at (chain @ c) p = queue_at chain p"
  by (simp add: valid_place_def queue_at_def nth_append)

lemma split_at:
  assumes "valid_place chain p"
  shows "\<exists>pre post. concat chain = pre @ queue_at chain p # post \<and>
           (\<forall>q. concat (put_at chain p q) = pre @ q # post)"
proof -
  obtain b i where p: "p = (b, i)" by fastforce
  have b: "b < length chain" and i: "i < length (chain ! b)"
    using assms p by (simp_all add: valid_place_def)
  let ?pre = "concat (take b chain) @ take i (chain ! b)"
  let ?post = "drop (Suc i) (chain ! b) @ concat (drop (Suc b) chain)"
  have "concat chain = ?pre @ queue_at chain p # ?post"
    using arg_cong [OF id_take_nth_drop [OF b], of concat] id_take_nth_drop [OF i]
    by (simp add: queue_at_def p)
  moreover have "\<forall>q. concat (put_at chain p q) = ?pre @ q # ?post"
    using b i by (simp add: put_at_def p upd_conv_take_nth_drop)
  ultimately show ?thesis by blast
qed

definition at_place :: "nat \<Rightarrow> nat \<Rightarrow> bucket_t \<Rightarrow> (queue_t \<Rightarrow> bool) \<Rightarrow> place \<Rightarrow> bool" where
  "at_place b i qs P p \<longleftrightarrow> (\<exists>j<length qs. p = (b, i + j) \<and> P (qs ! j))"

lemma at_place_simps [simp]:
  "\<not> at_place b i [] P p"
  "at_place b i (q # qs) P p \<longleftrightarrow> p = (b, i) \<and> P q \<or> at_place b (Suc i) qs P p"
  by (auto simp: at_place_def less_Suc_eq_0_disj)

lemma scan_bucket_hit:
  "scan_bucket key target fe ne b i qs = (fe', ne', h) \<Longrightarrow>
     (case h of None \<Rightarrow> \<forall>q\<in>set qs. \<not> q_is_empty q \<longrightarrow> q_key q \<noteq> key
      | Some (Target p) \<Rightarrow> at_place b i qs (\<lambda>q. \<not> q_is_empty q \<and> q_key q = key \<and> q_type q = target) p
      | Some (Same_type p) \<Rightarrow> at_place b i qs (\<lambda>q. \<not> q_is_empty q \<and> q_key q = key \<and> q_type q \<noteq> target) p)"
  by (induction key target fe ne b i qs arbitrary: fe' ne' h rule: scan_bucket.induct)
    (auto split: if_splits option.splits hit.splits)

lemma scan_bucket_used:
  "scan_bucket key target fe ne b i qs = (fe', ne', h) \<Longrightarrow> \<not> ne' \<Longrightarrow>
     \<not> ne \<and> (\<forall>q\<in>set qs. q_is_empty q) \<and> fe' = fe"
proof (induction qs arbitrary: fe ne i)
  case (Cons q qs)
  show ?case
  proof (cases "q_is_empty q \<and> fe \<noteq> None")
    case True
    with Cons.prems(1) have "scan_bucket key target fe ne b (Suc i) qs = (fe', ne', h)" by simp
    from Cons.IH [OF this Cons.prems(2)] True show ?thesis by simp
  next
    case False
    with Cons.prems obtain fe1 where "scan_bucket key target fe1 True b (Suc i) qs = (fe', ne', h)"
      by (auto split: if_splits)
    from Cons.IH [OF this Cons.prems(2)] show ?thesis by simp
  qed
qed simp

lemma scan_bucket_first:
  "scan_bucket key target fe ne b i qs = (fe', ne', h) \<Longrightarrow>
     fe' = fe \<or> (\<exists>p. fe' = Some p \<and> at_place b i qs q_is_empty p)"
proof (induction qs arbitrary: fe ne i)
  case (Cons q qs)
  consider "q_is_empty q" "fe = None" | "\<not> q_is_empty q" "q_key q = key"
    | "\<not> (q_is_empty q \<and> fe = None)" "q_is_empty q \<or> q_key q \<noteq> key" by blast
  then show ?case
  proof cases
    case 1
    with Cons.prems have "scan_bucket key target (Some (b, i)) True b (Suc i) qs = (fe', ne', h)" by simp
    from Cons.IH [OF this] 1 show ?thesis by auto
  next
    case 2
    with Cons.prems show ?thesis by simp
  next
    case 3
    with Cons.prems obtain ne1 where "scan_bucket key target fe ne1 b (Suc i) qs = (fe', ne', h)"
      by (auto split: if_splits)
    from Cons.IH [OF this] show ?thesis by auto
  qed
qed simp

lemma at_place_chain:
  "at_place (length kept) 0 bk P p \<Longrightarrow> valid_place (kept @ bk # rest) p \<and> P (queue_at (kept @ bk # rest) p)"
  by (auto simp: at_place_def valid_place_def queue_at_def)

lemma live_simps [simp]:
  "live [] = []"
  "live (bk # bks) = filter (\<lambda>q. \<not> q_is_empty q) bk @ live bks"
  "live (xs @ ys) = live xs @ live ys"
  by (simp_all add: live_def)

text \<open>What the search of a chain returns: only unused buckets are gone, a place that it reports is
  in the chain that it leaves, and if it reports no hit then no queue in use has the key.\<close>

definition hit_ok :: "bucket_t list \<Rightarrow> key_t \<Rightarrow> insert_type_t \<Rightarrow> hit option \<Rightarrow> bool" where
  "hit_ok chain key target h = (case h of
     None \<Rightarrow> \<forall>q\<in>set (live chain). q_key q \<noteq> key
   | Some (Target p) \<Rightarrow> valid_place chain p \<and> \<not> q_is_empty (queue_at chain p)
        \<and> q_key (queue_at chain p) = key \<and> q_type (queue_at chain p) = target
   | Some (Same_type p) \<Rightarrow> valid_place chain p \<and> \<not> q_is_empty (queue_at chain p)
        \<and> q_key (queue_at chain p) = key \<and> q_type (queue_at chain p) \<noteq> target)"

definition first_ok :: "bucket_t list \<Rightarrow> place option \<Rightarrow> bool" where
  "first_ok chain fe = (case fe of None \<Rightarrow> True
     | Some p \<Rightarrow> valid_place chain p \<and> q_is_empty (queue_at chain p))"

lemma first_ok_append: "first_ok chain fe \<Longrightarrow> first_ok (chain @ c) fe"
  using valid_place_append by (fastforce simp: first_ok_def split: option.splits)

lemma scan_bucket_first_ok:
  assumes "scan_bucket key target fe ne (length kept) 0 bk = (fe', ne', h)" "first_ok kept fe"
  shows "first_ok (kept @ bk # rest) fe'"
proof -
  from scan_bucket_first [OF assms(1)]
  consider "fe' = fe" | p where "fe' = Some p" "at_place (length kept) 0 bk q_is_empty p" by blast
  then show ?thesis
  proof cases
    case 1 with assms(2) show ?thesis by (simp add: first_ok_append)
  next
    case 2 with at_place_chain [OF 2(2)] show ?thesis by (simp add: first_ok_def)
  qed
qed

lemma scan_bucket_hit_ok:
  assumes "scan_bucket key target fe ne (length kept) 0 bk = (fe', ne', Some h)"
  shows "hit_ok (kept @ bk # rest) key target (Some h)"
proof (cases h)
  case (Target p)
  with scan_bucket_hit [OF assms] have "at_place (length kept) 0 bk
      (\<lambda>q. \<not> q_is_empty q \<and> q_key q = key \<and> q_type q = target) p" by simp
  from at_place_chain [OF this] Target show ?thesis by (simp add: hit_ok_def)
next
  case (Same_type p)
  with scan_bucket_hit [OF assms] have "at_place (length kept) 0 bk
      (\<lambda>q. \<not> q_is_empty q \<and> q_key q = key \<and> q_type q \<noteq> target) p" by simp
  from at_place_chain [OF this] Same_type show ?thesis by (simp add: hit_ok_def)
qed

lemma scan_chain_spec:
  assumes "scan_chain key target fe kept rest = (fe', h, chain)"
    and "first_ok kept fe" "kept \<noteq> [] \<or> rest \<noteq> []" "\<forall>q\<in>set (live kept). q_key q \<noteq> key"
  shows "live chain = live (kept @ rest) \<and> chain \<noteq> [] \<and> set (concat chain) \<subseteq> set (concat (kept @ rest))
       \<and> hit_ok chain key target h \<and> first_ok chain fe'"
  using assms
proof (induction key target fe kept rest arbitrary: fe' h chain rule: scan_chain.induct)
  case (1 key target fe kept)
  then show ?case by (simp add: hit_ok_def)
next
  case (2 key target fe kept bk rest)
  obtain fe1 ne1 h1 where sb: "scan_bucket key target fe False (length kept) 0 bk = (fe1, ne1, h1)"
    by (metis prod_cases3)
  show ?case
  proof (cases h1)
    case (Some hh)
    with 2(3) sb have res: "fe' = fe1" "h = Some hh" "chain = kept @ bk # rest" by simp_all
    have "hit_ok (kept @ bk # rest) key target (Some hh)"
      using scan_bucket_hit_ok sb Some by simp
    with res scan_bucket_first_ok [OF sb 2(4)] show ?thesis by simp
  next
    case None
    have nokey: "\<forall>q\<in>set bk. \<not> q_is_empty q \<longrightarrow> q_key q \<noteq> key"
      using scan_bucket_hit [OF sb] None by simp
    show ?thesis
    proof (cases "\<not> ne1 \<and> kept \<noteq> []")
      case True
      then have e: "filter (\<lambda>q. \<not> q_is_empty q) bk = []" "fe1 = fe"
        using scan_bucket_used [OF sb] by (simp_all add: filter_empty_conv)
      have sc: "scan_chain key target fe1 kept rest = (fe', h, chain)"
        using 2(3) sb None True by simp
      from 2(1) [OF sb [symmetric] refl None True sc] 2(4,6) True e
      show ?thesis by auto
    next
      case False
      have sc: "scan_chain key target fe1 (kept @ [bk]) rest = (fe', h, chain)"
        using 2(3) sb None False by simp
      have nk: "\<forall>q\<in>set (live (kept @ [bk])). q_key q \<noteq> key"
        using nokey 2(6) by auto
      from 2(2) [OF sb [symmetric] refl None False sc scan_bucket_first_ok [OF sb 2(4)] _ nk]
      show ?thesis by simp
    qed
  qed
qed

text \<open>Replacing the one queue that holds a key.\<close>

abbreviation unused_key :: "key_t \<Rightarrow> queue_t list \<Rightarrow> bool" where
  "unused_key k qs \<equiv> \<forall>q\<in>set qs. \<not> q_is_empty q \<longrightarrow> q_key q \<noteq> k"

lemma contents_empty [simp]: "q_is_empty q \<Longrightarrow> contents q = []"
  by (simp add: contents_def)

lemma pend_in_simps [simp]:
  "pend_in [] k t = []"
  "pend_in (q # qs) k t = (if q_key q = k \<and> q_type q = t then contents q else []) @ pend_in qs k t"
  "pend_in (xs @ ys) k t = pend_in xs k t @ pend_in ys k t"
  by (simp_all add: pend_in_def)

lemma pend_in_unused: "unused_key k qs \<Longrightarrow> pend_in qs k t = []"
  by (induction qs) auto

lemma pend_in_live: "pend_in (concat chain) k t = pend_in (live chain) k t"
proof -
  have "pend_in qs k t = pend_in (filter (\<lambda>q. \<not> q_is_empty q) qs) k t" for qs
    by (induction qs) auto
  then show ?thesis by (simp add: live_def)
qed

definition holds :: "key_t \<Rightarrow> queue_t \<Rightarrow> bool" where
  "holds k q \<longleftrightarrow> q_is_empty q \<or> q_key q = k"

definition own :: "queue_t \<Rightarrow> insert_type_t \<Rightarrow> val_t list" where
  "own q t = (if q_type q = t then contents q else [])"

lemma pend_in_replace:
  assumes "unused_key k pre" "unused_key k post" "holds k q" "holds k q'"
  shows "pend_in (pre @ q' # post) = (pend_in (pre @ q # post))(k := own q')
       \<and> pend_in (pre @ q # post) k = own q"
proof -
  have "pend_in (pre @ x # post) k t = own x t" if "holds k x" for x t
    using that assms(1,2) by (auto simp: holds_def own_def pend_in_unused)
  moreover have "pend_in (pre @ x # post) k' t = pend_in (pre @ post) k' t" if "holds k x" "k' \<noteq> k" for x k' t
    using that by (auto simp: holds_def)
  ultimately show ?thesis
    using assms(3,4) by (auto simp: fun_eq_iff)
qed

lemma distinct_replace:
  assumes "unused_key k pre" "unused_key k post" "holds k q'"
    and "distinct (map q_key (filter (\<lambda>q. \<not> q_is_empty q) (pre @ q # post)))"
  shows "distinct (map q_key (filter (\<lambda>q. \<not> q_is_empty q) (pre @ q' # post)))"
  using assms by (auto simp: holds_def split: if_splits)

text \<open>One operation on a place of a chain: the chain keeps its invariant, and only the key's own
  entries change.\<close>

lemma put_at_spec:
  assumes inv: "chain_inv chain" and p: "valid_place chain p"
    and q: "holds k (queue_at chain p)" "\<not> q_is_empty (queue_at chain p) \<or> unused_key k (live chain)"
    and q': "holds k q'" "queue_t_inv q'"
  shows "chain_inv (put_at chain p q') \<and> queue_t_inv (queue_at chain p)
       \<and> pend_in (concat (put_at chain p q')) = (pend_in (concat chain))(k := own q')
       \<and> pend_in (concat chain) k = own (queue_at chain p)
       \<and> q_key ` set (live (put_at chain p q')) \<subseteq> insert k (q_key ` set (live chain))"
proof -
  let ?q = "queue_at chain p"
  obtain pre post where c: "concat chain = pre @ ?q # post"
      and c': "\<And>q. concat (put_at chain p q) = pre @ q # post"
    using split_at [OF p] by blast
  have d: "distinct (map q_key (filter (\<lambda>q. \<not> q_is_empty q) (pre @ ?q # post)))"
    using inv by (simp add: chain_inv_def live_def c)
  have "unused_key k pre \<and> unused_key k post"
  proof (cases "q_is_empty ?q")
    case True
    with q show ?thesis by (auto simp: live_def c)
  next
    case False
    with q(1) have "q_key ?q = k" by (simp add: holds_def)
    with False d show ?thesis by (auto simp: image_iff)
  qed
  then have u: "unused_key k pre" "unused_key k post" by simp_all
  have "put_at chain p q' \<noteq> []"
    using inv by (simp add: chain_inv_def put_at_def)
  moreover have "q_key ` set (live (put_at chain p q')) \<subseteq> insert k (q_key ` set (live chain))"
    using q'(1) by (auto simp: live_def c c' holds_def)
  ultimately show ?thesis
    using pend_in_replace [OF u q(1) q'(1)] distinct_replace [OF u q'(1) d] inv q'(2)
    by (simp add: chain_inv_def live_def c c')
qed

lemma chain_inv_sub:
  assumes "chain_inv chain" "live chain' = live chain" "chain' \<noteq> []" "set (concat chain') \<subseteq> set (concat chain)"
  shows "chain_inv chain'"
  using assms by (auto simp: chain_inv_def)

lemma chain_inv_grow:
  assumes "chain_inv chain"
  shows "chain_inv (chain @ [bucket_alloc n]) \<and> live (chain @ [bucket_alloc n]) = live chain"
  using assms new_queue_inv by (auto simp: chain_inv_def bucket_alloc_def new_queue_def)

lemma queue_at_inv: "chain_inv chain \<Longrightarrow> valid_place chain p \<Longrightarrow> queue_t_inv (queue_at chain p)"
  unfolding chain_inv_def valid_place_def queue_at_def by (auto dest!: nth_mem)

lemma chain_insert_hit:
  assumes inv: "chain_inv chain" and ok: "hit_ok chain k (opposite t) (Some h)" and v: "v \<noteq> VALUE_EMPTY"
  shows "case h of
      Target p \<Rightarrow> (let (r, q) = queue_pop (queue_at chain p); c = put_at chain p q in
         chain_inv c \<and> (r, pend_in (concat c)) = spec_insert (pend_in (concat chain)) k v t
         \<and> q_key ` set (live c) \<subseteq> insert k (q_key ` set (live chain)))
    | Same_type p \<Rightarrow> (let c = put_at chain p (queue_push (queue_at chain p) v) in
         chain_inv c \<and> (VALUE_EMPTY, pend_in (concat c)) = spec_insert (pend_in (concat chain)) k v t
         \<and> q_key ` set (live c) \<subseteq> insert k (q_key ` set (live chain)))"
proof (cases h)
  case (Target p)
  let ?q = "queue_at chain p"
  have p: "valid_place chain p" "\<not> q_is_empty ?q" "q_key ?q = k" "q_type ?q = opposite t"
    using ok Target by (simp_all add: hit_ok_def)
  then have h: "holds k ?q" by (simp add: holds_def)
  have iq: "queue_t_inv ?q"
    using inv p(1) by (rule queue_at_inv)
  obtain r q where pop: "queue_pop ?q = (r, q)" by fastforce
  note sp = queue_pop_spec [OF iq p(2) pop]
  then have "holds k q" using p(3) by (simp add: holds_def)
  with put_at_spec [OF inv p(1) h _ this] sp p(2)
  have ps: "chain_inv (put_at chain p q)" "pend_in (concat chain) k = own ?q"
      "pend_in (concat (put_at chain p q)) = (pend_in (concat chain))(k := own q)"
      "q_key ` set (live (put_at chain p q)) \<subseteq> insert k (q_key ` set (live chain))"
    by simp_all
  have "own ?q (opposite t) = r # contents q" "own q = (own ?q)(opposite t := contents q)"
    using sp p(4) by (auto simp: own_def fun_eq_iff)
  with ps Target pop show ?thesis
    by (simp add: spec_insert_def)
next
  case (Same_type p)
  let ?q = "queue_at chain p"
  have p: "valid_place chain p" "\<not> q_is_empty ?q" "q_key ?q = k" "q_type ?q = t"
    using ok Same_type neq_opposite_iff [of "q_type ?q" "opposite t"] by (simp_all add: hit_ok_def)
  then have h: "holds k ?q" by (simp add: holds_def)
  have iq: "queue_t_inv ?q"
    using inv p(1) by (rule queue_at_inv)
  let ?q' = "queue_push ?q v"
  note sp = queue_push_spec [OF iq p(2) v]
  then have "holds k ?q'" using p(3) by (simp add: holds_def)
  with put_at_spec [OF inv p(1) h _ this] sp p(2)
  have ps: "chain_inv (put_at chain p ?q')" "pend_in (concat chain) k = own ?q"
      "pend_in (concat (put_at chain p ?q')) = (pend_in (concat chain))(k := own ?q')"
      "q_key ` set (live (put_at chain p ?q')) \<subseteq> insert k (q_key ` set (live chain))"
    by simp_all
  have "own ?q (opposite t) = []" "own ?q' = (own ?q)(t := own ?q t @ [v])"
    using sp p(4) by (auto simp: own_def fun_eq_iff)
  with ps Same_type show ?thesis
    by (simp add: spec_insert_def)
qed

lemma chain_setup:
  assumes inv: "chain_inv chain" and p: "valid_place chain p" "q_is_empty (queue_at chain p)"
    and u: "unused_key k (live chain)" and v: "v \<noteq> VALUE_EMPTY"
    and c: "c = put_at chain p (queue_setup (queue_at chain p) k t v)"
  shows "chain_inv c \<and> (VALUE_EMPTY, pend_in (concat c)) = spec_insert (pend_in (concat chain)) k v t
         \<and> q_key ` set (live c) \<subseteq> insert k (q_key ` set (live chain))"
proof -
  let ?q = "queue_at chain p" and ?q' = "queue_setup (queue_at chain p) k t v"
  have h: "holds k ?q" "holds k ?q'" using p by (simp_all add: holds_def queue_setup_def)
  note sp = queue_setup_spec [OF queue_at_inv [OF inv p(1)] v, of k t]
  have ps: "chain_inv c" "pend_in (concat chain) k = own ?q"
      "pend_in (concat c) = (pend_in (concat chain))(k := own ?q')"
      "q_key ` set (live c) \<subseteq> insert k (q_key ` set (live chain))"
    using put_at_spec [OF inv p(1) h(1) _ h(2)] sp u c by simp_all
  have "own ?q = (\<lambda>t. [])" "own ?q' = (\<lambda>t. [])(t := [v])"
    using p(2) sp by (auto simp: own_def queue_setup_def fun_eq_iff)
  with ps show ?thesis by (simp add: spec_insert_def)
qed

lemma chain_insert_spec:
  assumes inv: "chain_inv chain" and v: "v \<noteq> VALUE_EMPTY" and ins: "chain_insert chain k v t = (r, c)"
  shows "chain_inv c \<and> (r, pend_in (concat c)) = spec_insert (pend_in (concat chain)) k v t
         \<and> q_key ` set (live c) \<subseteq> insert k (q_key ` set (live chain))"
proof -
  obtain fe h chain' where sc: "scan_chain k (opposite t) None [] chain = (fe, h, chain')"
    by (metis prod_cases3)
  have sp: "live chain' = live chain" "chain' \<noteq> []" "set (concat chain') \<subseteq> set (concat chain)"
      "hit_ok chain' k (opposite t) h" "first_ok chain' fe"
    using scan_chain_spec [OF sc] inv by (simp_all add: first_ok_def chain_inv_def)
  have inv': "chain_inv chain'"
    using chain_inv_sub [OF inv sp(1-3)] .
  have same: "pend_in (concat chain') = pend_in (concat chain)"
    by (intro ext) (simp add: pend_in_live sp(1))
  show ?thesis
  proof (cases h)
    case (Some h')
    from chain_insert_hit [OF inv' sp(4) [unfolded Some] v] ins sc Some sp(1) same show ?thesis
      by (cases h') (auto simp: chain_insert_def Let_def split: prod.splits)
  next
    case None
    then have u: "unused_key k (live chain')" using sp(4) by (simp add: hit_ok_def)
    show ?thesis
    proof (cases fe)
      case (Some p)
      with sp(5) have p: "valid_place chain' p" "q_is_empty (queue_at chain' p)"
        by (simp_all add: first_ok_def)
      from chain_setup [OF inv' p u v refl, of t] ins sc None Some sp(1) same show ?thesis
        by (auto simp: chain_insert_def)
    next
      case fe: None
      let ?n = "length (last chain') * 2 + 1"
      let ?p = "(length chain', 0)" and ?g = "chain' @ [bucket_alloc ?n]"
      have g: "chain_inv ?g" "live ?g = live chain'" using chain_inv_grow [OF inv'] by blast+
      have p: "valid_place ?g ?p" "q_is_empty (queue_at ?g ?p)"
        by (simp_all add: valid_place_def queue_at_def bucket_alloc_def new_queue_def)
      have u': "unused_key k (live ?g)" using u g(2) by simp
      have "pend_in (concat ?g) = pend_in (concat chain)"
        by (intro ext) (simp only: pend_in_live sp(1) g(2))
      moreover have "r = VALUE_EMPTY" "c = put_at ?g ?p (queue_setup (queue_at ?g ?p) k t v)"
        using ins sc None fe by (simp_all add: chain_insert_def)
      ultimately show ?thesis
        using chain_setup [OF g(1) p u' v, of c t] by (simp only: g(2) sp(1))
    qed
  qed
qed

definition table_inv :: "table_t \<Rightarrow> bool" where
  "table_inv table \<longleftrightarrow> (\<forall>i. chain_inv (table i) \<and> (\<forall>q\<in>set (live (table i)). hash_fn (q_key q) = i))"

definition map_pend :: "table_t \<Rightarrow> pending" where
  "map_pend table k = pend_in (concat (table (hash_fn k))) k"

lemma map_insert_spec:
  assumes inv: "table_inv table" and v: "v \<noteq> VALUE_EMPTY" and ins: "map_insert table k v t = (r, table')"
  shows "table_inv table' \<and> (r, map_pend table') = spec_insert (map_pend table) k v t"
proof -
  let ?i = "hash_fn k"
  obtain c where ci: "chain_insert (table ?i) k v t = (r, c)" and t': "table' = table(?i := c)"
    using ins by (auto simp: map_insert_def Let_def split: prod.splits)
  have "chain_inv (table ?i)" using inv by (simp add: table_inv_def)
  note sp = chain_insert_spec [OF this v ci]
  have "table_inv table'"
    using inv sp by (auto simp: table_inv_def t')
  moreover have "r = fst (spec_insert (map_pend table) k v t)"
      "map_pend table' = snd (spec_insert (map_pend table) k v t)"
    using sp by (auto simp: spec_insert_def map_pend_def t' fun_eq_iff split: list.splits)
  ultimately show ?thesis by simp
qed

interpretation meng: matching_contract table_init map_insert table_inv map_pend
proof (standard, goal_cases)
  case 1 show ?case
    using new_queue_inv by (auto simp: table_inv_def table_init_def chain_inv_def bucket_alloc_def
        live_def new_queue_def)
next
  case 2 show ?case
    by (intro ext) (auto simp: map_pend_def table_init_def bucket_alloc_def new_queue_def intro: pend_in_unused)
next
  case (3 e v k t) then show ?case using map_insert_spec [of e v k t] by (metis prod.collapse)
next
  case (4 e v k t) then show ?case using map_insert_spec [of e v k t] by (metis fst_conv prod.collapse)
next
  case (5 e v k t) then show ?case using map_insert_spec [of e v k t] by (metis snd_conv prod.collapse)
qed

section \<open>Properties\<close>

text \<open>C3.  The hash-table engine pairs sends and receives first come, first served: for every
  sequence of inserts and every key, the pairs that the return values report are exactly the n-th
  send of the key with its n-th receive, for as many as both sides have.\<close>

theorem map_engine_fifo:
  assumes "\<forall>x\<in>set ops. op_val x \<noteq> VALUE_EMPTY"
  shows "pairs k ops (fst (run_inserts map_insert table_init ops))
       = zip (side it_send k ops) (side it_recv k ops)"
  using assms by (rule meng.run_pairs)

theorem map_engine_fifo_witness:
  "pairs 5 [\<lparr>op_key = 5, op_val = 10, op_type = it_send\<rparr>, \<lparr>op_key = 6, op_val = 11, op_type = it_recv\<rparr>,
            \<lparr>op_key = 5, op_val = 12, op_type = it_send\<rparr>, \<lparr>op_key = 5, op_val = 13, op_type = it_recv\<rparr>]
     (fst (run_inserts map_insert table_init
           [\<lparr>op_key = 5, op_val = 10, op_type = it_send\<rparr>, \<lparr>op_key = 6, op_val = 11, op_type = it_recv\<rparr>,
            \<lparr>op_key = 5, op_val = 12, op_type = it_send\<rparr>, \<lparr>op_key = 5, op_val = 13, op_type = it_recv\<rparr>]))
   = [(10, 13)]"
  by (subst map_engine_fifo) (simp_all add: VALUE_EMPTY_def)



text \<open>A queue of the table is a FIFO list whatever its representation: popping returns the
  oldest value, pushing appends, the representation moves between slots and nodes without loss, and
  the emptiness flag is exact.\<close>

lemma queue_fifo:
  assumes "queue_t_inv q" "\<not> q_is_empty q" "v \<noteq> VALUE_EMPTY"
  shows "contents q = fst (queue_pop q) # contents (snd (queue_pop q))
       \<and> queue_t_inv (snd (queue_pop q))
       \<and> (q_is_empty (snd (queue_pop q)) \<longleftrightarrow> contents (snd (queue_pop q)) = [])
       \<and> contents (queue_push q v) = contents q @ [v] \<and> queue_t_inv (queue_push q v)"
  using queue_pop_spec [OF assms(1,2) prod.collapse [symmetric]] queue_push_spec [OF assms] by simp

theorem queue_fifo_witness:
  "contents (queue_push (queue_push (queue_setup (new_queue 0 it_send) 7 it_recv 1) 2) 3) = [1, 2, 3]"
proof -
  let ?q = "queue_push (queue_setup (new_queue 0 it_send) 7 it_recv 1) 2"
  have "queue_t_inv ?q" "\<not> q_is_empty ?q" "contents ?q = [1, 2]"
    by (simp_all add: queue_push_def queue_setup_def new_queue_def queue_t_inv_def contents_def
        SLOT_NUM_VALUES_def VALUE_EMPTY_def values_of_def)
  then show ?thesis
    using queue_fifo [of ?q 3] by (simp add: VALUE_EMPTY_def)
qed

text \<open>The destructor of a queue frees nothing: the only state in which it walks the node list,
  an empty queue in list form, has no nodes.  The nodes of a queue with pending values are leaked.\<close>

theorem queue_destructor_frees_nothing:
  assumes "queue_t_inv q"
  shows "queue_destroy_freed q = 0"
  using assms by (simp add: queue_destroy_freed_def queue_t_inv_def)

theorem queue_destructor_frees_nothing_witness:
  "(let q = queue_push (queue_push (queue_setup (new_queue 0 it_send) 7 it_recv 1) 2) 3
    in length (q_list q) = 1 \<and> queue_destroy_freed q = 0)"
proof -
  let ?q = "queue_push (queue_push (queue_setup (new_queue 0 it_send) 7 it_recv 1) 2) 3"
  have "queue_t_inv ?q" "length (q_list ?q) = 1"
    by (simp_all add: queue_push_def queue_setup_def new_queue_def queue_t_inv_def
        queue_consts VALUE_EMPTY_def numeral_eq_Suc)
  with queue_destructor_frees_nothing [of ?q] show ?thesis by simp
qed

text \<open>The linear engine reads the matched value out of the list node that it has just erased:
  whatever a read of the freed node yields is what \<^verbatim>\<open>insert\<close> returns.\<close>

lemma queue_search_reads_freed_node:
  assumes "entries_of es key = w # ws"
  shows "fst (search freed es key) = freed w"
  using search_some [OF assms, of freed] by auto

theorem queue_search_reads_freed_node_witness:
  "fst (search (\<lambda>_. 99) [\<lparr>e_key = 5, e_value = 10\<rparr>] 5) = 99"
  using queue_search_reads_freed_node [of "[\<lparr>e_key = 5, e_value = 10\<rparr>]" 5 10 "[]" "\<lambda>_. 99"] by simp

end
