(* ===== verification/LCI_Packet.thy ===== *)
theory LCI_Packet
  imports LCI_Prelude "HOL-Library.Multiset"
begin

text \<open>
  The packet pool: \<^verbatim>\<open>mpmc_set_t\<close> of \<^verbatim>\<open>src/data_structure/mpmc_set.hpp\<close>, a circular deque per thread with
  packet stealing, and \<^verbatim>\<open>packet_pool_impl_t\<close> of \<^verbatim>\<open>src/packet_pool\<close> on top of it.  A deque is shown to be
  a list, the set to be a multiset from which no operation loses or duplicates an element, and the
  pool to hand out a packet to one owner at a time.
\<close>

section \<open>The deque of one thread\<close>

text \<open>\<^verbatim>\<open>local_set_t\<close>.  Head and tail are 64-bit counters that move without reduction; the position in
  the array is taken modulo its size, with C++'s remainder, which has the sign of the dividend.\<close>

record local_set_t =
  ls_queue :: "addr list"
  ls_head :: int
  ls_tail :: int

definition c_rem :: "int \<Rightarrow> int \<Rightarrow> int" where
  "c_rem a b = sgn a * (\<bar>a\<bar> mod b)"

definition get_position :: "local_set_t \<Rightarrow> int \<Rightarrow> nat" where
  "get_position s idx =
     (let size = int (length (ls_queue s)) in nat (c_rem (c_rem idx size + size) size))"

definition ls_size :: "local_set_t \<Rightarrow> nat" where
  "ls_size s = nat (ls_tail s - ls_head s)"

definition ls_empty :: "local_set_t \<Rightarrow> bool" where
  "ls_empty s \<longleftrightarrow> ls_head s = ls_tail s"

definition new_local_set :: "int \<Rightarrow> local_set_t res" where
  "new_local_set default_size =
     bindR (lci_assert (default_size > 0)) (\<lambda>_.
     Inr \<lparr>ls_queue = replicate (nat default_size + 1) 0, ls_head = 0, ls_tail = 0\<rparr>)"

definition memcpy_at :: "addr list \<Rightarrow> nat \<Rightarrow> addr list \<Rightarrow> nat \<Rightarrow> nat \<Rightarrow> addr list" where
  "memcpy_at dst d src s n = take d dst @ take n (drop s src) @ drop (d + n) dst"

definition copy_to_new :: "local_set_t \<Rightarrow> addr list \<Rightarrow> nat \<Rightarrow> (local_set_t \<times> addr list) res" where
  "copy_to_new src new_queue n =
     bindR (lci_assert (ls_size src \<ge> n)) (\<lambda>_.
     bindR (lci_assert (length new_queue > n)) (\<lambda>_.
     let head_idx = get_position src (ls_head src);
         len = length (ls_queue src);
         src' = src\<lparr>ls_head := ls_head src + int n\<rparr>
     in if head_idx + n \<le> len then
          Inr (src', memcpy_at new_queue 0 (ls_queue src) head_idx n)
        else
          let first = len - head_idx
          in Inr (src', memcpy_at (memcpy_at new_queue 0 (ls_queue src) head_idx first)
                          first (ls_queue src) 0 (n - first))))"

definition expand :: "local_set_t \<Rightarrow> local_set_t res" where
  "expand s =
     (let current_size = ls_size s in
      bindR (copy_to_new s (replicate (length (ls_queue s) * 2) 0) current_size) (\<lambda>(s, new_queue).
      let s = s\<lparr>ls_head := 0, ls_tail := int current_size, ls_queue := new_queue\<rparr> in
      bindR (lci_assert (ls_head s < ls_tail s)) (\<lambda>_.
      bindR (lci_assert (\<forall>v\<in>set (take current_size new_queue). v \<noteq> 0)) (\<lambda>_.
      Inr s))))"

definition grow_if_full :: "local_set_t \<Rightarrow> local_set_t res" where
  "grow_if_full s = (if ls_size s = length (ls_queue s) - 1 then expand s else Inr s)"

definition push_to_bot :: "local_set_t \<Rightarrow> addr \<Rightarrow> local_set_t res" where
  "push_to_bot s packet =
     bindR (lci_assert (packet \<noteq> 0)) (\<lambda>_.
     bindR (grow_if_full s) (\<lambda>s.
     Inr (s\<lparr>ls_queue := (ls_queue s)[get_position s (ls_tail s) := packet],
            ls_tail := ls_tail s + 1\<rparr>)))"

definition push_to_top :: "local_set_t \<Rightarrow> addr \<Rightarrow> local_set_t res" where
  "push_to_top s packet =
     bindR (lci_assert (packet \<noteq> 0)) (\<lambda>_.
     bindR (grow_if_full s) (\<lambda>s.
     let head = ls_head s - 1 in
     Inr (s\<lparr>ls_queue := (ls_queue s)[get_position s head := packet], ls_head := head\<rparr>)))"

definition pop_from_top :: "local_set_t \<Rightarrow> (addr \<times> local_set_t) res" where
  "pop_from_top s =
     (if ls_head s = ls_tail s then Inr (0, s) else
      bindR (lci_assert (ls_head s < ls_tail s)) (\<lambda>_.
      let ret = ls_queue s ! get_position s (ls_head s) in
      bindR (lci_assert (ret \<noteq> 0)) (\<lambda>_.
      Inr (ret, s\<lparr>ls_head := ls_head s + 1\<rparr>))))"

definition pop_from_bot :: "local_set_t \<Rightarrow> (addr \<times> local_set_t) res" where
  "pop_from_bot s =
     (if ls_head s = ls_tail s then Inr (0, s) else
      bindR (lci_assert (ls_head s < ls_tail s)) (\<lambda>_.
      let tail = ls_tail s - 1; ret = ls_queue s ! get_position s tail in
      bindR (lci_assert (ret \<noteq> 0)) (\<lambda>_.
      Inr (ret, s\<lparr>ls_tail := tail\<rparr>))))"

section \<open>A deque is a list\<close>

definition cell :: "local_set_t \<Rightarrow> int \<Rightarrow> addr" where
  "cell s i = ls_queue s ! nat (i mod int (length (ls_queue s)))"

definition deque_list :: "local_set_t \<Rightarrow> addr list" where
  "deque_list s = map (\<lambda>j. cell s (ls_head s + int j)) [0..<ls_size s]"

definition local_inv :: "local_set_t \<Rightarrow> bool" where
  "local_inv s \<longleftrightarrow> 2 \<le> length (ls_queue s) \<and> ls_head s \<le> ls_tail s \<and>
     ls_size s < length (ls_queue s) \<and> 0 \<notin> set (deque_list s)"

lemma c_rem_nonneg: "0 \<le> a \<Longrightarrow> c_rem a b = a mod b"
  by (simp add: c_rem_def sgn_if)

lemma c_rem_pos: "0 < b \<Longrightarrow> c_rem (c_rem a b + b) b = a mod b"
proof -
  assume b: "0 < b"
  have eq: "(c_rem a b + b) mod b = a mod b"
    by (cases "a \<ge> 0") (auto simp: c_rem_def sgn_if mod_minus_eq)
  have "0 \<le> c_rem a b + b"
    using b pos_mod_bound [OF b, of "\<bar>a\<bar>"] pos_mod_sign [OF b, of "\<bar>a\<bar>"]
    by (auto simp: c_rem_def sgn_if)
  then have "c_rem (c_rem a b + b) b = (c_rem a b + b) mod b"
    by (rule c_rem_nonneg)
  with eq show ?thesis by simp
qed

lemma get_position_mod:
  "ls_queue s \<noteq> [] \<Longrightarrow> get_position s i = nat (i mod int (length (ls_queue s)))"
  by (simp add: get_position_def Let_def c_rem_pos)

lemma length_deque [simp]: "length (deque_list s) = ls_size s"
  by (simp add: deque_list_def)

lemma nth_deque: "j < ls_size s \<Longrightarrow> deque_list s ! j = cell s (ls_head s + int j)"
  by (simp add: deque_list_def)

lemma mod_window_neq:
  fixes a d n :: int
  assumes "0 < d" "d < n"
  shows "(a + d) mod n \<noteq> a mod n"
proof
  assume "(a + d) mod n = a mod n"
  then have "n dvd d" by (metis add_diff_cancel_left' mod_eq_dvd_iff)
  with assms show False using zdvd_not_zless by blast
qed

lemma cell_update:
  assumes "ls_queue s \<noteq> []"
  shows "cell (s\<lparr>ls_queue := (ls_queue s)[get_position s i := v], ls_head := h, ls_tail := t\<rparr>) j
       = (if j mod int (length (ls_queue s)) = i mod int (length (ls_queue s)) then v else cell s j)"
proof -
  have "0 < int (length (ls_queue s))" using assms by simp
  then have b: "\<And>k. 0 \<le> k mod int (length (ls_queue s)) \<and> k mod int (length (ls_queue s)) < int (length (ls_queue s))"
    by simp
  have "nat (i mod int (length (ls_queue s))) < length (ls_queue s)"
    using b [of i] by (simp add: nat_less_iff)
  then show ?thesis
    using b [of i] b [of j] assms by (auto simp: cell_def get_position_mod nth_list_update eq_nat_nat_iff)
qed

lemma local_invD:
  assumes "local_inv s"
  shows "ls_queue s \<noteq> []" "2 \<le> length (ls_queue s)" "ls_head s \<le> ls_tail s"
    "ls_size s < length (ls_queue s)" "0 \<notin> set (deque_list s)"
    "int (ls_size s) = ls_tail s - ls_head s"
  using assms by (auto simp: local_inv_def ls_size_def)

lemma local_invI:
  assumes "2 \<le> length (ls_queue s)" "ls_head s \<le> ls_tail s" "ls_size s < length (ls_queue s)"
    "0 \<notin> set (deque_list s)"
  shows "local_inv s"
  using assms by (simp add: local_inv_def)

lemma copy_to_new_spec:
  assumes "local_inv s" "n \<le> ls_size s" "n < length nq"
  shows "\<exists>q. copy_to_new s nq n = Inr (s\<lparr>ls_head := ls_head s + int n\<rparr>, q)
           \<and> length q = length nq \<and> take n q = take n (deque_list s)"
proof -
  note D = local_invD [OF assms(1)]
  let ?len = "length (ls_queue s)" and ?h = "get_position s (ls_head s)"
  have h: "?h = nat (ls_head s mod int ?len)" using D by (simp add: get_position_mod)
  then have hlt: "?h < ?len" using D(1) by (simp add: nat_less_iff)
  have hint: "int ?h = ls_head s mod int ?len" using h D(1) by simp
  have cellj: "cell s (ls_head s + int j) = ls_queue s ! ((?h + j) mod ?len)" for j
  proof -
    have "(ls_head s + int j) mod int ?len = int ((?h + j) mod ?len)"
      by (simp add: hint zmod_int mod_add_left_eq)
    then show ?thesis by (simp add: cell_def)
  qed
  have tk: "take n (deque_list s) = map (\<lambda>j. ls_queue s ! ((?h + j) mod ?len)) [0..<n]"
    using assms(2) by (simp add: deque_list_def take_map cellj)
  have nlt: "n < ?len" using assms(2) D by simp
  show ?thesis
  proof (cases "?h + n \<le> ?len")
    case True
    let ?q = "memcpy_at nq 0 (ls_queue s) ?h n"
    have "take n ?q = take n (drop ?h (ls_queue s))"
      using True by (simp add: memcpy_at_def)
    also have "\<dots> = map (\<lambda>j. ls_queue s ! ((?h + j) mod ?len)) [0..<n]"
      using True by (intro nth_equalityI) simp_all
    finally show ?thesis
      using True assms(2,3) tk by (simp add: copy_to_new_def Let_def memcpy_at_def)
  next
    case False
    let ?f = "?len - ?h"
    let ?q = "memcpy_at (memcpy_at nq 0 (ls_queue s) ?h ?f) ?f (ls_queue s) 0 (n - ?f)"
    have "take n ?q = drop ?h (ls_queue s) @ take (n - ?f) (ls_queue s)"
      using False hlt nlt assms(3) by (simp add: memcpy_at_def min_def)
    also have "\<dots> = map (\<lambda>j. ls_queue s ! ((?h + j) mod ?len)) [0..<n]"
      using False hlt nlt
      by (intro nth_equalityI) (auto simp: nth_append mod_if not_less add.commute)
    finally show ?thesis
      using False assms(2,3) tk hlt nlt by (auto simp: copy_to_new_def Let_def memcpy_at_def min_def)
  qed
qed

text \<open>A deque that starts at index 0.\<close>

lemma deque_list_from_0:
  assumes "int n < int (length q)"
  shows "deque_list \<lparr>ls_queue = q, ls_head = 0, ls_tail = int n\<rparr> = take n q"
  using assms by (intro nth_equalityI) (simp_all add: deque_list_def ls_size_def cell_def)

lemma expand_spec:
  assumes "local_inv s" "ls_size s > 0"
  shows "\<exists>s'. expand s = Inr s' \<and> local_inv s' \<and> deque_list s' = deque_list s
           \<and> length (ls_queue s') = 2 * length (ls_queue s)"
proof -
  note D = local_invD [OF assms(1)]
  let ?n = "ls_size s"
  obtain q where q: "copy_to_new s (replicate (length (ls_queue s) * 2) 0) ?n
        = Inr (s\<lparr>ls_head := ls_head s + int ?n\<rparr>, q)"
      "length q = length (ls_queue s) * 2" "take ?n q = take ?n (deque_list s)"
    using copy_to_new_spec [OF assms(1), of ?n "replicate (length (ls_queue s) * 2) 0"] D by auto
  let ?s' = "\<lparr>ls_queue = q, ls_head = 0, ls_tail = int ?n\<rparr>"
  have dl: "deque_list ?s' = deque_list s"
    using deque_list_from_0 [of ?n q] q D by simp
  have "expand s = Inr ?s'"
    using q D assms(2) by (auto simp: expand_def bind_assert)
  moreover have "local_inv ?s'"
    using D(2,4,5) q(2) dl by (intro local_invI) (simp_all add: ls_size_def [of ?s'])
  ultimately show ?thesis using dl q by auto
qed

lemma grow_if_full_spec:
  assumes "local_inv s"
  shows "\<exists>s'. grow_if_full s = Inr s' \<and> local_inv s' \<and> deque_list s' = deque_list s
           \<and> ls_size s' < length (ls_queue s') - 1"
proof (cases "ls_size s = length (ls_queue s) - 1")
  case True
  with local_invD [OF assms] have "ls_size s > 0" by simp
  from expand_spec [OF assms this] obtain s' where s': "expand s = Inr s'" "local_inv s'"
      "deque_list s' = deque_list s" "length (ls_queue s') = 2 * length (ls_queue s)" by blast
  moreover have "ls_size s' = ls_size s"
    by (metis length_deque s'(3))
  ultimately show ?thesis
    using True local_invD(2) [OF assms] by (auto simp: grow_if_full_def)
next
  case False
  with assms local_invD [OF assms] show ?thesis by (auto simp: grow_if_full_def)
qed

lemma push_to_bot_spec:
  assumes "local_inv s" "p \<noteq> 0"
  shows "\<exists>s'. push_to_bot s p = Inr s' \<and> local_inv s' \<and> deque_list s' = deque_list s @ [p]"
proof -
  obtain g where g: "grow_if_full s = Inr g" "local_inv g" "deque_list g = deque_list s"
      "ls_size g < length (ls_queue g) - 1"
    using grow_if_full_spec [OF assms(1)] by blast
  note D = local_invD [OF g(2)]
  let ?s' = "g\<lparr>ls_queue := (ls_queue g)[get_position g (ls_tail g) := p], ls_tail := ls_tail g + 1\<rparr>"
  have sz: "ls_size ?s' = Suc (ls_size g)"
    using D(3) by (simp add: ls_size_def Suc_nat_eq_nat_zadd1 algebra_simps)
  have c: "cell ?s' j = (if j mod int (length (ls_queue g)) = ls_tail g mod int (length (ls_queue g))
      then p else cell g j)" for j
    using cell_update [OF D(1), where i = "ls_tail g" and v = p and h = "ls_head g" and t = "ls_tail g + 1" and j = j] by simp
  have "cell ?s' (ls_head g + int j) = cell g (ls_head g + int j)" if "j < ls_size g" for j
    using mod_window_neq [of "ls_tail g - (ls_head g + int j)" "int (length (ls_queue g))" "ls_head g + int j"]
      that D(4,6) by (simp add: c)
  then have "deque_list ?s' = deque_list g @ [cell ?s' (ls_head g + int (ls_size g))]"
    unfolding deque_list_def sz by simp
  also have "cell ?s' (ls_head g + int (ls_size g)) = p"
    using D(6) by (simp add: c)
  finally have dl: "deque_list ?s' = deque_list s @ [p]" using g by simp
  moreover have "local_inv ?s'"
    using D(2,3,5) g(3,4) assms(2) sz by (intro local_invI) (simp_all add: dl)
  moreover have "push_to_bot s p = Inr ?s'"
    using assms(2) g by (simp add: push_to_bot_def)
  ultimately show ?thesis by blast
qed

lemma push_to_top_spec:
  assumes "local_inv s" "p \<noteq> 0"
  shows "\<exists>s'. push_to_top s p = Inr s' \<and> local_inv s' \<and> deque_list s' = p # deque_list s"
proof -
  obtain g where g: "grow_if_full s = Inr g" "local_inv g" "deque_list g = deque_list s"
      "ls_size g < length (ls_queue g) - 1"
    using grow_if_full_spec [OF assms(1)] by blast
  note D = local_invD [OF g(2)]
  let ?s' = "g\<lparr>ls_queue := (ls_queue g)[get_position g (ls_head g - 1) := p], ls_head := ls_head g - 1\<rparr>"
  have sz: "ls_size ?s' = Suc (ls_size g)"
    using D(3) by (simp add: ls_size_def Suc_nat_eq_nat_zadd1 algebra_simps)
  have c: "cell ?s' j = (if j mod int (length (ls_queue g)) = (ls_head g - 1) mod int (length (ls_queue g))
      then p else cell g j)" for j
    using cell_update [OF D(1), where i = "ls_head g - 1" and v = p and h = "ls_head g - 1" and t = "ls_tail g" and j = j] by simp
  have "cell ?s' (ls_head g + int j) = cell g (ls_head g + int j)" if "j < ls_size g" for j
    using mod_window_neq [of "1 + int j" "int (length (ls_queue g))" "ls_head g - 1"]
      that g(4) by (simp add: c)
  then have "deque_list ?s' = cell ?s' (ls_head g - 1) # deque_list g"
    unfolding deque_list_def sz by (simp add: upt_conv_Cons map_Suc_upt [symmetric] o_def del: upt_Suc)
  also have "cell ?s' (ls_head g - 1) = p" by (simp add: c)
  finally have dl: "deque_list ?s' = p # deque_list s" using g by simp
  moreover have "local_inv ?s'"
    using D(2,3,5) g(3,4) assms(2) sz by (intro local_invI) (simp_all add: dl)
  moreover have "push_to_top s p = Inr ?s'"
    using assms(2) g by (simp add: push_to_top_def Let_def)
  ultimately show ?thesis by blast
qed

lemma deque_list_cases:
  assumes "local_inv s"
  shows "ls_head s = ls_tail s \<longleftrightarrow> deque_list s = []"
  using local_invD [OF assms] by (auto simp: deque_list_def ls_size_def)

lemma pop_from_top_spec:
  assumes "local_inv s"
  shows "pop_from_top s = (case deque_list s of [] \<Rightarrow> Inr (0, s)
           | p # ps \<Rightarrow> Inr (p, s\<lparr>ls_head := ls_head s + 1\<rparr>))
       \<and> (deque_list s \<noteq> [] \<longrightarrow> local_inv (s\<lparr>ls_head := ls_head s + 1\<rparr>)
           \<and> deque_list (s\<lparr>ls_head := ls_head s + 1\<rparr>) = tl (deque_list s))"
proof (cases "deque_list s")
  case Nil
  with deque_list_cases [OF assms] show ?thesis by (simp add: pop_from_top_def)
next
  case (Cons p ps)
  note D = local_invD [OF assms]
  let ?s = "s\<lparr>ls_head := ls_head s + 1\<rparr>"
  have sz: "ls_size s = Suc (length ps)" by (metis Cons length_Cons length_deque)
  have lt: "ls_head s < ls_tail s" using D(3) deque_list_cases [OF assms] Cons by fastforce
  have p: "p = ls_queue s ! get_position s (ls_head s)"
    using nth_deque [of 0 s] Cons sz D(1) by (simp add: cell_def get_position_mod)
  have sz': "ls_size ?s = length ps" using sz lt by (simp add: ls_size_def)
  have "deque_list ?s = ps"
  proof (rule nth_equalityI)
    show "length (deque_list ?s) = length ps" using sz' by simp
    fix i assume "i < length (deque_list ?s)"
    then have "i < length ps" using sz' by simp
    then have "ps ! i = deque_list s ! Suc i" using Cons by simp
    with \<open>i < length ps\<close> show "deque_list ?s ! i = ps ! i"
      using sz sz' by (simp add: nth_deque cell_def algebra_simps)
  qed
  moreover have "local_inv ?s"
    using D(2,4,5) lt sz sz' calculation Cons by (intro local_invI) auto
  moreover have "p \<noteq> 0" using D(5) Cons by auto
  ultimately show ?thesis
    using Cons lt p by (simp add: pop_from_top_def Let_def)
qed

lemma pop_from_bot_spec:
  assumes "local_inv s"
  shows "\<exists>p s'. pop_from_bot s = Inr (p, s') \<and> local_inv s'
       \<and> (deque_list s = [] \<longrightarrow> p = 0 \<and> s' = s)
       \<and> (deque_list s \<noteq> [] \<longrightarrow> p \<noteq> 0 \<and> deque_list s = deque_list s' @ [p])"
proof (cases "deque_list s = []")
  case True
  with deque_list_cases [OF assms] assms show ?thesis by (simp add: pop_from_bot_def)
next
  case False
  note D = local_invD [OF assms]
  let ?s = "s\<lparr>ls_tail := ls_tail s - 1\<rparr>"
  have lt: "ls_head s < ls_tail s" using D(3) deque_list_cases [OF assms] False by fastforce
  have sz: "ls_size s = Suc (ls_size ?s)" using lt by (simp add: ls_size_def)
  let ?p = "ls_queue s ! get_position s (ls_tail s - 1)"
  have "ls_head s + int (ls_size ?s) = ls_tail s - 1"
    using D(6) sz by linarith
  then have "?p = cell s (ls_head s + int (ls_size ?s))"
    using D(1) by (simp add: cell_def get_position_mod)
  then have dl: "deque_list s = deque_list ?s @ [?p]"
    unfolding deque_list_def sz by (simp add: cell_def)
  have "local_inv ?s"
    using D(2,4,5) lt sz dl by (intro local_invI) auto
  moreover have "?p \<noteq> 0" using D(5) dl by (metis in_set_conv_decomp)
  ultimately show ?thesis
    using dl lt by (simp add: pop_from_bot_def Let_def)
qed

section \<open>The set of deques\<close>

text \<open>\<^verbatim>\<open>mpmc_set_t\<close>: the deques in the order of their ids, and the thread's own deque.  Each operation
  runs in the calling thread \<open>tid\<close>.  The lock of the thread's deque serialises it with the other
  operations on that deque.  What the environment decides is an argument: the results of the
  \<^verbatim>\<open>try_lock\<close>s on the own deque, and for each stealing attempt the random number drawn and the result
  of the \<^verbatim>\<open>try_lock\<close> on the victim; their lengths are the numbers of attempts.\<close>

record mpmc_set_t =
  default_lpool_size :: nat
  pools :: "local_set_t list"
  tid_to_pools :: "int \<Rightarrow> nat option"

definition mpmc_set_init :: "nat \<Rightarrow> mpmc_set_t" where
  "mpmc_set_init n = \<lparr>default_lpool_size = n, pools = [], tid_to_pools = (\<lambda>_. None)\<rparr>"

definition get_local_pool :: "int \<Rightarrow> mpmc_set_t \<Rightarrow> (nat \<times> mpmc_set_t) res" where
  "get_local_pool tid s =
     (case tid_to_pools s tid of
        Some i \<Rightarrow> Inr (i, s)
      | None \<Rightarrow>
          bindR (new_local_set (int (default_lpool_size s))) (\<lambda>p.
          let pool_id = length (pools s) in
          Inr (pool_id, s\<lparr>pools := pools s @ [p],
                          tid_to_pools := (tid_to_pools s)(tid := Some pool_id)\<rparr>)))"

definition vec_resize :: "addr list \<Rightarrow> nat \<Rightarrow> addr list" where
  "vec_resize xs n = take n xs @ replicate (n - length xs) 0"

fun steal_packets :: "nat \<Rightarrow> (nat \<times> bool) list \<Rightarrow> mpmc_set_t \<Rightarrow> (bool \<times> mpmc_set_t) res" where
  "steal_packets l [] s = Inr (False, s)"
| "steal_packets l ((rnd, locked) # attempts) s =
     bindR (lci_assert (ls_empty (pools s ! l))) (\<lambda>_.
     let k = rnd mod length (pools s); victim = pools s ! k in
     if k = l \<or> ls_size victim = 0 \<or> \<not> locked then steal_packets l attempts s
     else
       let n = (ls_size victim + 1) div 2 in
       if n = 0 then steal_packets l attempts s
       else
         bindR (lci_assert (n \<le> ls_size victim)) (\<lambda>_.
         let q = vec_resize (ls_queue (pools s ! l)) (max (default_lpool_size s) (n * 2) + 1) in
         bindR (copy_to_new victim q n) (\<lambda>(victim, q).
         bindR (lci_assert (ls_head victim \<le> ls_tail victim)) (\<lambda>_.
         Inr (True, s\<lparr>pools := (pools s)[k := victim,
                l := \<lparr>ls_queue = q, ls_head = 0, ls_tail = int n\<rparr>]\<rparr>)))))"

fun pop_n :: "nat \<Rightarrow> local_set_t \<Rightarrow> (addr list \<times> local_set_t) res" where
  "pop_n 0 s = Inr ([], s)"
| "pop_n (Suc n) s =
     bindR (pop_from_bot s) (\<lambda>(p, s').
     if p = 0 then Inr ([], s')
     else bindR (pop_n n s') (\<lambda>(ps, s''). Inr (p # ps, s'')))"

record set_env =
  env_tid :: int
  env_locks :: "bool list"
  env_steals :: "(nat \<times> bool) list"

definition set_get_n :: "set_env \<Rightarrow> nat \<Rightarrow> mpmc_set_t \<Rightarrow> (addr list \<times> mpmc_set_t) res" where
  "set_get_n env n s =
     bindR (get_local_pool (env_tid env) s) (\<lambda>(l, s).
     if True \<notin> set (env_locks env) then Inr ([], s)
     else
       bindR (if ls_size (pools s ! l) = 0 then steal_packets l (env_steals env) s else Inr (False, s))
         (\<lambda>(_, s).
       bindR (pop_n n (pools s ! l)) (\<lambda>(ps, p). Inr (ps, s\<lparr>pools := (pools s)[l := p]\<rparr>))))"

text \<open>\<^verbatim>\<open>put\<close> takes the id of a local set, which the argument \<open>local_id\<close> is; the deque it pushes to is
  nevertheless always the calling thread's.\<close>

definition set_put :: "int \<times> int \<Rightarrow> addr \<Rightarrow> mpmc_set_t \<Rightarrow> mpmc_set_t res" where
  "set_put who packet s =
     (let (tid, local_id) = who in
      bindR (lci_assert (packet \<noteq> 0)) (\<lambda>_.
      let return_to_current = (local_id < 0) in
      bindR (get_local_pool tid s) (\<lambda>(l, s).
      bindR (if return_to_current then push_to_bot (pools s ! l) packet
             else push_to_top (pools s ! l) packet) (\<lambda>p.
      Inr (s\<lparr>pools := (pools s)[l := p]\<rparr>)))))"

definition set_size :: "mpmc_set_t \<Rightarrow> nat" where
  "set_size s = sum_list (map ls_size (pools s))"

section \<open>No packet is lost or duplicated\<close>

definition bag :: "mpmc_set_t \<Rightarrow> addr multiset" where
  "bag s = sum_list (map (\<lambda>p. mset (deque_list p)) (pools s))"

definition set_inv :: "mpmc_set_t \<Rightarrow> bool" where
  "set_inv s \<longleftrightarrow> 0 < default_lpool_size s \<and> (\<forall>p\<in>set (pools s). local_inv p) \<and>
     (\<forall>tid i. tid_to_pools s tid = Some i \<longrightarrow> i < length (pools s))"

definition once :: "addr multiset \<Rightarrow> bool" where
  "once M \<longleftrightarrow> (\<forall>x. count M x \<le> 1)"

lemma once_union: "once (mset xs + M) \<Longrightarrow> distinct xs \<and> set xs \<inter> set_mset M = {} \<and> once M"
proof -
  assume o: "once (mset xs + M)"
  then have le: "count (mset xs) x + count M x \<le> 1" for x by (simp add: once_def)
  have pos: "x \<in> set xs \<Longrightarrow> 1 \<le> count (mset xs) x" "x \<in># M \<Longrightarrow> 1 \<le> count M x" for x
    by (simp_all add: Suc_le_eq count_greater_zero_iff)
  have "count (mset xs) x = 1" if "x \<in> set xs" for x
    using le [of x] pos(1) [OF that] by linarith
  then have "distinct xs" by (auto simp: distinct_count_atmost_1 count_mset_0_iff)
  moreover have "x \<notin># M" if "x \<in> set xs" for x
    using le [of x] pos [of x] that by fastforce
  moreover have "count M x \<le> 1" for x using le [of x] by linarith
  ultimately show ?thesis by (auto simp: once_def)
qed

text \<open>The contract of a bag of objects: taking moves objects out of the bag, giving moves one in.
  An instance may be called in any environment.\<close>

locale bag_contract =
  fixes inv :: "'s \<Rightarrow> bool"
    and content :: "'s \<Rightarrow> addr multiset"
    and take_n :: "'e \<Rightarrow> nat \<Rightarrow> 's \<Rightarrow> (addr list \<times> 's) res"
    and give :: "'w \<Rightarrow> addr \<Rightarrow> 's \<Rightarrow> 's res"
  assumes take_ok: "inv s \<Longrightarrow> \<exists>xs s'. take_n e n s = Inr (xs, s') \<and> inv s' \<and>
      content s = mset xs + content s' \<and> length xs \<le> n \<and> 0 \<notin> set xs"
    and give_ok: "inv s \<Longrightarrow> x \<noteq> 0 \<Longrightarrow> \<exists>s'. give w x s = Inr s' \<and> inv s' \<and>
      content s' = add_mset x (content s)"
begin

primrec give_all :: "'w \<Rightarrow> addr list \<Rightarrow> 's \<Rightarrow> 's res" where
  "give_all w [] s = Inr s"
| "give_all w (x # xs) s = bindR (give w x s) (give_all w xs)"

lemma give_all_ok:
  "inv s \<Longrightarrow> 0 \<notin> set xs \<Longrightarrow> \<exists>s'. give_all w xs s = Inr s' \<and> inv s' \<and> content s' = mset xs + content s"
proof (induction xs arbitrary: s)
  case (Cons x xs)
  then obtain s1 where s1: "give w x s = Inr s1" "inv s1" "content s1 = add_mset x (content s)"
    using give_ok [of s x w] by auto
  with Cons.IH [of s1] Cons.prems show ?case by auto
qed simp

lemma take_disjoint:
  assumes "inv s" "take_n e n s = Inr (xs, s')" "take_n e' n' s' = Inr (ys, s'')" "once (content s)"
  shows "distinct (xs @ ys) \<and> set (xs @ ys) \<inter> set_mset (content s'') = {}"
proof -
  have 1: "inv s'" "content s = mset xs + content s'"
    using take_ok [OF assms(1), of e n] assms(2) by auto
  have "content s' = mset ys + content s''"
    using take_ok [OF 1(1), of e' n'] assms(3) by auto
  with 1 assms(4) have "once (mset (xs @ ys) + content s'')"
    by (simp add: add.assoc)
  from once_union [OF this] show ?thesis by simp
qed

end

lemma sum_list_update_mset:
  fixes f :: "'a \<Rightarrow> 'b multiset"
  assumes "i < length xs"
  shows "sum_list (map f (xs[i := x])) + f (xs ! i) = sum_list (map f xs) + f x"
  using assms
proof (induction xs arbitrary: i)
  case (Cons y ys)
  then show ?case by (cases i) (simp_all add: ac_simps)
qed simp

lemma bag_update:
  assumes "i < length (pools s)"
  shows "bag (s\<lparr>pools := (pools s)[i := p]\<rparr>) + mset (deque_list (pools s ! i)) = bag s + mset (deque_list p)"
  using sum_list_update_mset [OF assms, of "\<lambda>p. mset (deque_list p)" p] by (simp add: bag_def)

lemma set_inv_update:
  "set_inv s \<Longrightarrow> local_inv p \<Longrightarrow> set_inv (s\<lparr>pools := (pools s)[i := p]\<rparr>)"
  by (auto simp: set_inv_def dest: subsetD [OF set_update_subset_insert])

lemma new_local_set_spec:
  "0 < n \<Longrightarrow> \<exists>p. new_local_set (int n) = Inr p \<and> local_inv p \<and> deque_list p = []"
  by (simp add: new_local_set_def local_inv_def deque_list_def ls_size_def)

lemma get_local_pool_spec:
  assumes "set_inv s"
  shows "\<exists>l s'. get_local_pool tid s = Inr (l, s') \<and> set_inv s' \<and> l < length (pools s') \<and> bag s' = bag s"
proof (cases "tid_to_pools s tid")
  case (Some i)
  with assms show ?thesis by (auto simp: get_local_pool_def set_inv_def)
next
  case None
  from assms obtain p where p: "new_local_set (int (default_lpool_size s)) = Inr p" "local_inv p" "deque_list p = []"
    using new_local_set_spec [of "default_lpool_size s"] by (auto simp: set_inv_def)
  with None assms show ?thesis
    by (auto simp: get_local_pool_def set_inv_def bag_def less_Suc_eq Let_def)
qed

lemma local_inv_nth: "set_inv s \<Longrightarrow> l < length (pools s) \<Longrightarrow> local_inv (pools s ! l)"
  by (simp add: set_inv_def)

lemma steal_step_spec:
  assumes inv: "set_inv s" and l: "l < length (pools s)" "ls_empty (pools s ! l)"
    and k: "k < length (pools s)" "k \<noteq> l" and n: "0 < n" "n \<le> ls_size (pools s ! k)"
    and q: "length q = max (default_lpool_size s) (n * 2) + 1"
  shows "\<exists>v q'. copy_to_new (pools s ! k) q n = Inr (v, q') \<and> ls_head v \<le> ls_tail v
       \<and> (let s' = s\<lparr>pools := (pools s)[k := v, l := \<lparr>ls_queue = q', ls_head = 0, ls_tail = int n\<rparr>]\<rparr>
          in set_inv s' \<and> bag s' = bag s)"
proof -
  let ?v = "pools s ! k" and ?v' = "(pools s ! k)\<lparr>ls_head := ls_head (pools s ! k) + int n\<rparr>"
  have iv: "local_inv ?v" using inv k(1) by (rule local_inv_nth)
  note D = local_invD [OF iv]
  obtain q' where c: "copy_to_new ?v q n = Inr (?v', q')" and lq: "length q' = length q"
      and tk: "take n q' = take n (deque_list ?v)"
    using copy_to_new_spec [OF iv n(2), of q] q by (auto simp: max_def split: if_splits)
  let ?l = "\<lparr>ls_queue = q', ls_head = 0, ls_tail = int n\<rparr>"
  have dl: "deque_list ?l = take n (deque_list ?v)"
    using deque_list_from_0 [of n q'] tk lq q by simp
  have sv: "ls_size ?v' = ls_size ?v - n"
    using D(3,6) n by (simp add: ls_size_def)
  have dv: "deque_list ?v' = drop n (deque_list ?v)"
    using n(2) sv by (intro nth_equalityI) (simp_all add: nth_deque cell_def algebra_simps)
  have 1: "local_inv ?v'"
  proof (rule local_invI)
    show "ls_head ?v' \<le> ls_tail ?v'" using D(6) n(2) by simp
    show "0 \<notin> set (deque_list ?v')" using D(5) dv by (metis in_set_dropD)
  qed (use D(2,4) sv in simp_all)
  have 2: "local_inv ?l"
    using D(5) dl q lq n by (intro local_invI) (auto simp: ls_size_def dest: in_set_takeD)
  let ?s1 = "s\<lparr>pools := (pools s)[k := ?v']\<rparr>"
  let ?s2 = "?s1\<lparr>pools := (pools ?s1)[l := ?l]\<rparr>"
  have inv2: "set_inv ?s2"
    using set_inv_update [OF set_inv_update [OF inv 1] 2] .
  have e: "deque_list (pools s ! l) = []"
    using deque_list_cases [OF local_inv_nth [OF inv l(1)]] l(2) by (simp add: ls_empty_def)
  have b1: "bag ?s1 + mset (deque_list ?v) = bag s + mset (drop n (deque_list ?v))"
    using bag_update [OF k(1), of ?v'] dv by simp
  have "bag ?s2 = bag ?s1 + mset (take n (deque_list ?v))"
    using bag_update [of l ?s1 ?l] l(1) e k(2) dl by simp
  moreover have "mset (deque_list ?v) = mset (take n (deque_list ?v)) + mset (drop n (deque_list ?v))"
    by (metis append_take_drop_id mset_append)
  ultimately have "bag ?s2 = bag s"
    using b1 by (simp add: ac_simps)
  with inv2 c 1 show ?thesis
    by (auto simp: local_inv_def)
qed

lemma steal_packets_spec:
  assumes "set_inv s" "l < length (pools s)" "ls_size (pools s ! l) = 0"
  shows "\<exists>b s'. steal_packets l cs s = Inr (b, s') \<and> set_inv s' \<and> bag s' = bag s
       \<and> length (pools s') = length (pools s)"
proof (induction cs)
  case Nil
  with assms show ?case by auto
next
  case (Cons c cs)
  obtain rnd locked where c: "c = (rnd, locked)" by fastforce
  let ?k = "rnd mod length (pools s)" and ?n = "(ls_size (pools s ! (rnd mod length (pools s))) + 1) div 2"
  let ?q = "vec_resize (ls_queue (pools s ! l)) (max (default_lpool_size s) (?n * 2) + 1)"
  have k: "?k < length (pools s)" using assms(2) by (cases "pools s") auto
  have e: "ls_empty (pools s ! l)"
    using assms local_invD(3) [OF local_inv_nth [OF assms(1,2)]] by (simp add: ls_empty_def ls_size_def)
  show ?case
  proof (cases "?k = l \<or> ls_size (pools s ! ?k) = 0 \<or> \<not> locked")
    case True
    with Cons.IH c e show ?thesis by (simp add: Let_def)
  next
    case False
    then have n: "0 < ?n" "?n \<le> ls_size (pools s ! ?k)" by auto
    have q: "length ?q = max (default_lpool_size s) (?n * 2) + 1" by (simp add: vec_resize_def)
    obtain v q' where v: "copy_to_new (pools s ! ?k) ?q ?n = Inr (v, q')" "ls_head v \<le> ls_tail v"
        "set_inv (s\<lparr>pools := (pools s)[?k := v, l := \<lparr>ls_queue = q', ls_head = 0, ls_tail = int ?n\<rparr>]\<rparr>)"
        "bag (s\<lparr>pools := (pools s)[?k := v, l := \<lparr>ls_queue = q', ls_head = 0, ls_tail = int ?n\<rparr>]\<rparr>) = bag s"
      using steal_step_spec [OF assms(1,2) e k _ n q] False by (auto simp: Let_def)
    from False e n v(1,2) have "steal_packets l (c # cs) s
        = Inr (True, s\<lparr>pools := (pools s)[?k := v, l := \<lparr>ls_queue = q', ls_head = 0, ls_tail = int ?n\<rparr>]\<rparr>)"
      unfolding c steal_packets.simps Let_def by simp
    with v(3,4) show ?thesis by auto
  qed
qed

lemma pop_n_spec:
  "local_inv s \<Longrightarrow> \<exists>ps s'. pop_n n s = Inr (ps, s') \<and> local_inv s' \<and> length ps \<le> n \<and> 0 \<notin> set ps
     \<and> deque_list s = deque_list s' @ rev ps \<and> (deque_list s \<noteq> [] \<longrightarrow> 0 < n \<longrightarrow> ps \<noteq> [])"
proof (induction n arbitrary: s)
  case (Suc n)
  obtain p s1 where p: "pop_from_bot s = Inr (p, s1)" "local_inv s1"
      "deque_list s = [] \<longrightarrow> p = 0 \<and> s1 = s" "deque_list s \<noteq> [] \<longrightarrow> p \<noteq> 0 \<and> deque_list s = deque_list s1 @ [p]"
    using pop_from_bot_spec [OF Suc.prems] by auto
  show ?case
  proof (cases "deque_list s = []")
    case True
    with p Suc.prems show ?thesis by auto
  next
    case False
    with p Suc.IH [OF p(2)] show ?thesis by auto
  qed
qed simp

lemma set_get_n_spec:
  assumes "set_inv s"
  shows "\<exists>xs s'. set_get_n env n s = Inr (xs, s') \<and> set_inv s' \<and> bag s = mset xs + bag s'
           \<and> length xs \<le> n \<and> 0 \<notin> set xs"
proof -
  obtain l s1 where s1: "get_local_pool (env_tid env) s = Inr (l, s1)" "set_inv s1" "l < length (pools s1)" "bag s1 = bag s"
    using get_local_pool_spec [OF assms, of "env_tid env"] by auto
  show ?thesis
  proof (cases "True \<in> set (env_locks env)")
    case False
    with s1 show ?thesis by (simp add: set_get_n_def)
  next
    case True
    obtain b s2 where s2: "(if ls_size (pools s1 ! l) = 0 then steal_packets l (env_steals env) s1 else Inr (False, s1)) = Inr (b, s2)"
        "set_inv s2" "bag s2 = bag s" "l < length (pools s2)"
      using steal_packets_spec [OF s1(2,3), of "env_steals env"] s1(2-4)
      by (cases "ls_size (pools s1 ! l) = 0") auto
    obtain ps p where p: "pop_n n (pools s2 ! l) = Inr (ps, p)" "local_inv p" "length ps \<le> n" "0 \<notin> set ps"
        "deque_list (pools s2 ! l) = deque_list p @ rev ps"
      using pop_n_spec [OF local_inv_nth [OF s2(2,4)], of n] by auto
    let ?s3 = "s2\<lparr>pools := (pools s2)[l := p]\<rparr>"
    have "bag ?s3 + (mset (deque_list p) + mset ps) = bag s + mset (deque_list p)"
      using bag_update [OF s2(4), of p] p(5) s2(3) by simp
    then have "bag s = mset ps + bag ?s3"
      by (simp add: union_assoc union_commute union_lcomm)
    moreover have "set_get_n env n s = Inr (ps, ?s3)"
      using True by (simp add: set_get_n_def s1(1) s2(1) p(1) del: split_paired_All)
    moreover have "set_inv ?s3" using s2(2) p(2) by (rule set_inv_update)
    ultimately show ?thesis using p(3,4) by blast
  qed
qed

lemma set_put_spec:
  assumes "set_inv s" "x \<noteq> 0"
  shows "\<exists>s'. set_put w x s = Inr s' \<and> set_inv s' \<and> bag s' = add_mset x (bag s)"
proof -
  obtain tid i where w: "w = (tid, i)" by fastforce
  obtain l s1 where s1: "get_local_pool tid s = Inr (l, s1)" "set_inv s1" "l < length (pools s1)" "bag s1 = bag s"
    using get_local_pool_spec [OF assms(1), of tid] by auto
  note li = local_inv_nth [OF s1(2,3)]
  obtain p where p: "(if i < 0 then push_to_bot (pools s1 ! l) x else push_to_top (pools s1 ! l) x) = Inr p"
      "local_inv p" "mset (deque_list p) = add_mset x (mset (deque_list (pools s1 ! l)))"
    using push_to_bot_spec [OF li assms(2)] push_to_top_spec [OF li assms(2)] by (cases "i < 0") auto
  have "bag (s1\<lparr>pools := (pools s1)[l := p]\<rparr>) = add_mset x (bag s)"
    using bag_update [OF s1(3), of p] p(3) s1(4) by simp
  with set_inv_update [OF s1(2) p(2)] w s1(1) p(1) assms(2) show ?thesis
    by (auto simp: set_put_def)
qed

interpretation mset_bag: bag_contract set_inv bag set_get_n set_put
proof (standard, goal_cases)
  case (1 s e n) then show ?case by (rule set_get_n_spec)
next
  case (2 s x w) then show ?case by (rule set_put_spec)
qed

section \<open>The packet pool\<close>

text \<open>\<^verbatim>\<open>packet_pool_impl_t\<close>.  The pool owns the addresses of its packets; of a packet's local context it
  uses the flag \<^verbatim>\<open>isInPool\<close> and the id of the local set to return to.  \<open>pp_ctx_size\<close> is
  \<^verbatim>\<open>sizeof(packet_local_context_t)\<close>, which the ABI fixes.\<close>

record packet_pool_t =
  pp_pool :: mpmc_set_t
  pp_base :: nat
  pp_packet_size :: nat
  pp_npackets :: nat
  pp_ctx_size :: nat
  pp_in_pool :: "addr \<Rightarrow> bool"
  pp_local_id :: "addr \<Rightarrow> int"
  pp_lost :: nat

definition LOCAL_SET_ID_NULL :: int where "LOCAL_SET_ID_NULL = -1"

definition LCI_CACHE_LINE :: nat where "LCI_CACHE_LINE = 64"

text \<open>Address arithmetic is on \<^verbatim>\<open>uintptr_t\<close>: the subtraction of the context size wraps.\<close>

definition is_packet :: "packet_pool_t \<Rightarrow> addr \<Rightarrow> bool \<Rightarrow> bool" where
  "is_packet pp address include_lcontext =
     (if address = 0 then False else
      let packet_address = (if include_lcontext then address
                            else (address + 2 ^ 64 - pp_ctx_size pp) mod 2 ^ 64);
          offset = packet_address - pp_base pp
      in packet_address \<ge> pp_base pp \<and> offset mod pp_packet_size pp = 0 \<and>
         offset div pp_packet_size pp < pp_npackets pp)"

definition get_payload_size :: "packet_pool_t \<Rightarrow> nat" where
  "get_payload_size pp = pp_packet_size pp - LCI_CACHE_LINE"

definition mark_out :: "packet_pool_t \<Rightarrow> addr list \<Rightarrow> packet_pool_t" where
  "mark_out pp ps = pp\<lparr>pp_in_pool := (\<lambda>p. if p \<in> set ps then False else pp_in_pool pp p),
                        pp_local_id := (\<lambda>p. if p \<in> set ps then LOCAL_SET_ID_NULL else pp_local_id pp p)\<rparr>"

definition pool_get_n :: "set_env \<Rightarrow> nat \<Rightarrow> bool \<Rightarrow> packet_pool_t \<Rightarrow> (addr list \<times> packet_pool_t) res" where
  "pool_get_n env n blocking pp =
     bindR (set_get_n env n (pp_pool pp)) (\<lambda>(ps, s).
     bindR (lci_assert (ps \<noteq> [] \<or> \<not> blocking)) (\<lambda>_.
     bindR (lci_assert (\<forall>p\<in>set ps. p \<noteq> 0)) (\<lambda>_.
     Inr (ps, mark_out (pp\<lparr>pp_pool := s\<rparr>) ps))))"

definition pool_put :: "int \<Rightarrow> addr \<Rightarrow> packet_pool_t \<Rightarrow> packet_pool_t res" where
  "pool_put tid p pp =
     bindR (lci_assert (is_packet pp p True)) (\<lambda>_.
     bindR (lci_assert (\<not> pp_in_pool pp p)) (\<lambda>_.
     bindR (set_put (tid, pp_local_id pp p) p (pp_pool pp)) (\<lambda>s.
     Inr (pp\<lparr>pp_in_pool := (pp_in_pool pp)(p := True), pp_pool := s\<rparr>))))"

text \<open>The constructor.  The heap is not cleared: what the flags of the packets hold at first is the
  argument \<open>garbage\<close>.\<close>

fun put_packets :: "int \<Rightarrow> addr list \<Rightarrow> mpmc_set_t \<Rightarrow> mpmc_set_t res" where
  "put_packets tid [] s = Inr s"
| "put_packets tid (p # ps) s = bindR (set_put (tid, LOCAL_SET_ID_NULL) p s) (put_packets tid ps)"

definition packet_addrs :: "nat \<Rightarrow> nat \<Rightarrow> nat \<Rightarrow> addr list" where
  "packet_addrs base sz n = map (\<lambda>i. base + i * sz) [0..<n]"

definition packet_pool_init :: "int \<Rightarrow> nat \<Rightarrow> nat \<Rightarrow> nat \<Rightarrow> nat \<Rightarrow> (addr \<Rightarrow> bool) \<Rightarrow> (addr \<Rightarrow> int)
    \<Rightarrow> packet_pool_t res" where
  "packet_pool_init tid heap ctx_size packet_size npackets garbage ids =
     (let base = (if npackets > 0 then heap + LCI_CACHE_LINE - ctx_size else 0) in
      bindR (put_packets tid (packet_addrs base packet_size npackets) (mpmc_set_init 1024)) (\<lambda>s.
      Inr \<lparr>pp_pool = s, pp_base = base, pp_packet_size = packet_size, pp_npackets = npackets,
           pp_ctx_size = ctx_size, pp_in_pool = garbage, pp_local_id = ids, pp_lost = 0\<rparr>))"

definition pool_addrs :: "packet_pool_t \<Rightarrow> addr list" where
  "pool_addrs pp = packet_addrs (pp_base pp) (pp_packet_size pp) (pp_npackets pp)"

definition pool_inv :: "packet_pool_t \<Rightarrow> addr multiset \<Rightarrow> bool" where
  "pool_inv pp out \<longleftrightarrow> set_inv (pp_pool pp) \<and> 0 < pp_base pp \<and> 0 < pp_packet_size pp \<and>
     bag (pp_pool pp) + out = mset (pool_addrs pp) \<and> (\<forall>p\<in>#out. \<not> pp_in_pool pp p)"

lemma distinct_packet_addrs: "0 < sz \<Longrightarrow> distinct (packet_addrs base sz n)"
  by (auto simp: packet_addrs_def distinct_map inj_on_def)

lemma is_packet_iff:
  assumes "0 < pp_base pp" "0 < pp_packet_size pp"
  shows "is_packet pp p True \<longleftrightarrow> p \<in> set (pool_addrs pp)"
proof
  assume l: "is_packet pp p True"
  then have r: "pp_base pp \<le> p" "(p - pp_base pp) mod pp_packet_size pp = 0"
      "(p - pp_base pp) div pp_packet_size pp < pp_npackets pp"
    by (auto simp: is_packet_def Let_def split: if_splits)
  then have "p = pp_base pp + (p - pp_base pp) div pp_packet_size pp * pp_packet_size pp"
    by (metis add_0_right div_mult_mod_eq le_add_diff_inverse)
  with r(3) show "p \<in> set (pool_addrs pp)"
    by (auto simp: pool_addrs_def packet_addrs_def)
next
  assume "p \<in> set (pool_addrs pp)"
  then obtain i where "i < pp_npackets pp" "p = pp_base pp + i * pp_packet_size pp"
    by (auto simp: pool_addrs_def packet_addrs_def)
  with assms show "is_packet pp p True" by (simp add: is_packet_def)
qed

lemma put_packets_give_all: "put_packets tid ps s = mset_bag.give_all (tid, LOCAL_SET_ID_NULL) ps s"
  by (induction ps arbitrary: s) (simp_all add: fun_eq_iff [symmetric] bindR_def split: sum.splits)

lemma pool_get_n_spec:
  assumes "pool_inv pp out"
  shows "\<exists>xs pp'. pool_get_n env n False pp = Inr (xs, pp') \<and> pool_inv pp' (mset xs + out) \<and> length xs \<le> n
       \<and> pool_addrs pp' = pool_addrs pp"
proof -
  have inv: "set_inv (pp_pool pp)" using assms by (simp add: pool_inv_def)
  obtain xs s' where g: "set_get_n env n (pp_pool pp) = Inr (xs, s')" "set_inv s'"
      "bag (pp_pool pp) = mset xs + bag s'" "length xs \<le> n" "0 \<notin> set xs"
    using mset_bag.take_ok [OF inv, of env n] by auto
  have "pool_get_n env n False pp = Inr (xs, mark_out (pp\<lparr>pp_pool := s'\<rparr>) xs)"
    using g(5) by (auto simp: pool_get_n_def g(1) bind_assert)
  moreover have "pool_inv (mark_out (pp\<lparr>pp_pool := s'\<rparr>) xs) (mset xs + out)"
    using assms g by (auto simp: pool_inv_def mark_out_def pool_addrs_def union_assoc union_lcomm)
  ultimately show ?thesis using g(4) by (auto simp: mark_out_def pool_addrs_def)
qed

lemma pool_put_spec:
  assumes "pool_inv pp out" "p \<in># out"
  shows "\<exists>pp'. pool_put tid p pp = Inr pp' \<and> pool_inv pp' (out - {#p#}) \<and> pool_addrs pp' = pool_addrs pp
       \<and> pp_in_pool pp' p"
proof -
  have b: "bag (pp_pool pp) + out = mset (pool_addrs pp)" and pos: "0 < pp_base pp" "0 < pp_packet_size pp"
      and inv: "set_inv (pp_pool pp)" and f: "\<forall>q\<in>#out. \<not> pp_in_pool pp q"
    using assms by (simp_all add: pool_inv_def)
  have m: "p \<in> set (pool_addrs pp)" using b assms(2) by (metis set_mset_mset union_iff)
  then have "p \<noteq> 0" using pos by (auto simp: pool_addrs_def packet_addrs_def)
  then obtain s' where s': "set_put (tid, pp_local_id pp p) p (pp_pool pp) = Inr s'" "set_inv s'"
      "bag s' = add_mset p (bag (pp_pool pp))"
    using mset_bag.give_ok [OF inv] by blast
  let ?pp = "pp\<lparr>pp_in_pool := (pp_in_pool pp)(p := True), pp_pool := s'\<rparr>"
  have "once (mset (pool_addrs pp))"
    using distinct_packet_addrs [OF pos(2)]
    by (auto simp: once_def pool_addrs_def distinct_count_atmost_1)
  moreover obtain out' where out': "out = add_mset p out'"
    using assms(2) by (meson multi_member_split)
  ultimately have "once (mset [p] + (out' + bag (pp_pool pp)))"
    using b by (simp add: union_commute)
  then have "p \<notin># out'" using once_union by fastforce
  then have "pool_inv ?pp (out - {#p#})"
    using b pos s' f out' by (auto simp: pool_inv_def pool_addrs_def)
  moreover have "pool_put tid p pp = Inr ?pp"
    using m f assms(2) pos by (simp add: pool_put_def is_packet_iff s'(1))
  ultimately show ?thesis by (auto simp: pool_addrs_def)
qed

lemma pool_init_spec:
  assumes "0 < packet_size" "ctx_size < heap + LCI_CACHE_LINE" "0 < npackets"
  shows "\<exists>pp. packet_pool_init tid heap ctx_size packet_size npackets garbage ids = Inr pp \<and> pool_inv pp {#}
       \<and> pool_addrs pp = packet_addrs (heap + LCI_CACHE_LINE - ctx_size) packet_size npackets"
proof -
  let ?ps = "packet_addrs (heap + LCI_CACHE_LINE - ctx_size) packet_size npackets"
  have "set_inv (mpmc_set_init 1024)" "bag (mpmc_set_init 1024) = {#}"
    by (simp_all add: set_inv_def mpmc_set_init_def bag_def)
  moreover have "0 \<notin> set ?ps" using assms(2) by (auto simp: packet_addrs_def)
  ultimately obtain s where "put_packets tid ?ps (mpmc_set_init 1024) = Inr s" "set_inv s" "bag s = mset ?ps"
    unfolding put_packets_give_all using mset_bag.give_all_ok by fastforce
  with assms show ?thesis by (auto simp: packet_pool_init_def pool_inv_def pool_addrs_def)
qed

section \<open>Properties\<close>

text \<open>A client of the pool: threads take packets and put back packets that they hold.  \<open>out\<close> are the
  packets held by clients.\<close>

datatype pool_op = Pool_get set_env nat | Pool_put int addr

fun run_pool :: "packet_pool_t \<Rightarrow> addr multiset \<Rightarrow> pool_op list \<Rightarrow> (packet_pool_t \<times> addr multiset) res" where
  "run_pool pp out [] = Inr (pp, out)"
| "run_pool pp out (Pool_get env n # ops) =
     bindR (pool_get_n env n False pp) (\<lambda>(xs, pp). run_pool pp (mset xs + out) ops)"
| "run_pool pp out (Pool_put tid p # ops) =
     (if p \<in># out then bindR (pool_put tid p pp) (\<lambda>pp. run_pool pp (out - {#p#}) ops)
      else run_pool pp out ops)"

lemma run_pool_spec:
  "pool_inv pp out \<Longrightarrow> \<exists>pp' out'. run_pool pp out ops = Inr (pp', out') \<and> pool_inv pp' out'
     \<and> pool_addrs pp' = pool_addrs pp"
proof (induction pp out ops rule: run_pool.induct)
  case (2 pp out env n ops)
  from pool_get_n_spec [OF 2(2), of env n] obtain xs pp1 where
      g: "pool_get_n env n False pp = Inr (xs, pp1)" "pool_inv pp1 (mset xs + out)" "pool_addrs pp1 = pool_addrs pp"
    by blast
  have "\<And>pp xs. pool_inv pp (mset xs + out) \<Longrightarrow> \<exists>pp' out'. run_pool pp (mset xs + out) ops = Inr (pp', out')
      \<and> pool_inv pp' out' \<and> pool_addrs pp' = pool_addrs pp"
    using 2(1) by auto
  from this [OF g(2)] g(1,3) show ?case by auto
next
  case (3 pp out tid p ops)
  show ?case
  proof (cases "p \<in># out")
    case True
    from pool_put_spec [OF 3(3) True, of tid] obtain pp1 where
        g: "pool_put tid p pp = Inr pp1" "pool_inv pp1 (out - {#p#})" "pool_addrs pp1 = pool_addrs pp" by blast
    from 3(1) [OF True g(2)] g(1,3) True show ?thesis by auto
  next
    case False
    with 3 show ?thesis by simp
  qed
qed simp



text \<open>A deque of the set is a list: at its bottom push appends and pop removes the last
  element, at its top push prepends and pop removes the first.  The array may grow and the indices
  may wrap around or become negative.\<close>

lemma deque_operations:
  assumes "local_inv s" "p \<noteq> 0"
  shows "(\<exists>s'. push_to_bot s p = Inr s' \<and> local_inv s' \<and> deque_list s' = deque_list s @ [p])
       \<and> (\<exists>s'. push_to_top s p = Inr s' \<and> local_inv s' \<and> deque_list s' = p # deque_list s)
       \<and> (\<exists>r s'. pop_from_bot s = Inr (r, s') \<and> local_inv s'
            \<and> (deque_list s = [] \<longrightarrow> r = 0 \<and> s' = s)
            \<and> (deque_list s \<noteq> [] \<longrightarrow> r \<noteq> 0 \<and> deque_list s = deque_list s' @ [r]))
       \<and> (\<exists>r s'. pop_from_top s = Inr (r, s') \<and> local_inv s'
            \<and> (deque_list s = [] \<longrightarrow> r = 0 \<and> s' = s)
            \<and> (deque_list s \<noteq> [] \<longrightarrow> deque_list s = r # deque_list s'))"
proof -
  have "\<exists>r s'. pop_from_top s = Inr (r, s') \<and> local_inv s'
      \<and> (deque_list s = [] \<longrightarrow> r = 0 \<and> s' = s) \<and> (deque_list s \<noteq> [] \<longrightarrow> deque_list s = r # deque_list s')"
    using pop_from_top_spec [OF assms(1)] assms(1) by (cases "deque_list s") auto
  with push_to_bot_spec [OF assms] push_to_top_spec [OF assms] pop_from_bot_spec [OF assms(1)]
  show ?thesis by blast
qed

theorem deque_operations_witness:
  "\<exists>s'. push_to_top \<lparr>ls_queue = [0, 0, 0], ls_head = 0, ls_tail = 0\<rparr> 7 = Inr s' \<and> deque_list s' = [7]"
proof -
  have "local_inv \<lparr>ls_queue = [0, 0, 0], ls_head = 0, ls_tail = 0\<rparr>"
      "deque_list \<lparr>ls_queue = [0, 0, 0], ls_head = 0, ls_tail = 0\<rparr> = []"
    by (simp_all add: local_inv_def deque_list_def ls_size_def)
  with deque_operations [of "\<lparr>ls_queue = [0, 0, 0], ls_head = 0, ls_tail = 0\<rparr>" 7] show ?thesis by auto
qed

text \<open>A double free is caught: once a packet has been put back, putting it back again before it
  is handed out fails the assertion.\<close>

theorem double_put_caught:
  assumes "pool_inv pp out" "p \<in># out"
  shows "\<exists>pp'. pool_put tid p pp = Inr pp' \<and> pool_put tid' p pp' = Inl Assert_failed"
proof -
  obtain pp' where pp': "pool_put tid p pp = Inr pp'" "pp_in_pool pp' p"
    using pool_put_spec [OF assms, of tid] by blast
  then have "pool_put tid' p pp' = Inl Assert_failed"
    by (simp add: pool_put_def bind_assert)
  with pp' show ?thesis by blast
qed

theorem double_put_caught_witness:
  "\<exists>pp pp'. pool_put 0 1024 pp = Inr pp' \<and> pool_put 1 1024 pp' = Inl Assert_failed"
proof -
  let ?pp = "\<lparr>pp_pool = mpmc_set_init 1024, pp_base = 1024, pp_packet_size = 64, pp_npackets = 1,
              pp_ctx_size = 40, pp_in_pool = (\<lambda>_. False), pp_local_id = (\<lambda>_. -1), pp_lost = 0\<rparr>"
  have "pool_inv ?pp {#1024#}"
    by (simp add: pool_inv_def set_inv_def mpmc_set_init_def bag_def pool_addrs_def packet_addrs_def)
  from double_put_caught [OF this, of 1024 0 1] show ?thesis by auto
qed

text \<open>\<^verbatim>\<open>put\<close> with the id of another thread's set still returns the packet to the set of the
  calling thread: no other deque changes.\<close>

lemma put_ignores_local_id:
  assumes "set_inv s" "tid_to_pools s tid = Some l" "p \<noteq> 0" "set_put (tid, local_id) p s = Inr s'"
    and "k \<noteq> l"
  shows "pools s' ! k = pools s ! k"
  using assms by (auto simp: set_put_def get_local_pool_def bindR_Inr_iff Let_def split: if_splits)

theorem put_ignores_local_id_witness:
  "\<exists>s'. set_put (0, 1) 7 \<lparr>default_lpool_size = 2, pools = [\<lparr>ls_queue = [0, 0, 0], ls_head = 0, ls_tail = 0\<rparr>,
      \<lparr>ls_queue = [0, 0, 0], ls_head = 0, ls_tail = 0\<rparr>], tid_to_pools = [0 \<mapsto> 0, 1 \<mapsto> 1]\<rparr> = Inr s'
     \<and> pools s' ! 1 = \<lparr>ls_queue = [0, 0, 0], ls_head = 0, ls_tail = 0\<rparr>"
proof -
  let ?e = "\<lparr>ls_queue = [0, 0, 0], ls_head = 0, ls_tail = 0\<rparr>"
  let ?s = "\<lparr>default_lpool_size = 2, pools = [?e, ?e], tid_to_pools = [0 \<mapsto> 0, 1 \<mapsto> 1]\<rparr>"
  have inv: "set_inv ?s"
    by (auto simp: set_inv_def local_inv_def deque_list_def ls_size_def split: if_splits)
  obtain s' where s': "set_put (0, 1) 7 ?s = Inr s'"
    using set_put_spec [OF inv, of 7 "(0, 1)"] by auto
  from put_ignores_local_id [OF inv _ _ s', of 0 1] s' show ?thesis by auto
qed

end
