(* ===== verification/LCI_Device.thy ===== *)
theory LCI_Device
  imports LCI_Prelude
begin

text \<open>
  The receive accounting of a device: \<^verbatim>\<open>post_recv_packets\<close> and \<^verbatim>\<open>consume_recvs\<close> of
  \<^verbatim>\<open>src/network/device_inline.hpp\<close> and \<^verbatim>\<open>src/network/network.hpp\<close>.  Many threads run
  \<^verbatim>\<open>post_recv_packets\<close> at once on one atomic counter, without a lock, so the component is a step
  relation whose steps are the atomic operations.  The invariant is proved for every interleaving.
\<close>

section \<open>State and steps\<close>

text \<open>Where one thread is in \<^verbatim>\<open>post_recv_packets\<close>, with the local variables that are live there.\<close>

datatype recv_phase =
    Ph_idle
  | Ph_checked
  | Ph_reserved nat
  | Ph_holding nat
  | Ph_posted nat

text \<open>The counter \<^verbatim>\<open>nrecvs_posted\<close>, the receives that are posted to the network and the receives
  that have completed but are not yet accounted for by \<^verbatim>\<open>consume_recvs\<close>; the last two are what the
  counter stands for, not variables of the program.\<close>

record recv_state =
  nrecvs_posted :: nat
  on_nic :: nat
  completed :: nat
  phases :: "recv_phase list"

definition recv_init :: "nat \<Rightarrow> recv_state" where
  "recv_init nthreads = \<lparr>nrecvs_posted = 0, on_nic = 0, completed = 0,
                          phases = replicate nthreads Ph_idle\<rparr>"

text \<open>\<open>mx\<close> is \<^verbatim>\<open>attr.net_max_recvs\<close> and \<open>B\<close> is \<^verbatim>\<open>BATCH_SIZE\<close>.  How many packets the pool yields and how
  many of them the network accepts is up to the environment.\<close>

inductive recv_step :: "nat \<Rightarrow> nat \<Rightarrow> recv_state \<Rightarrow> recv_state \<Rightarrow> bool" for mx B where
  check: "i < length (phases s) \<Longrightarrow> phases s ! i = Ph_idle \<Longrightarrow> nrecvs_posted s < mx \<Longrightarrow>
    recv_step mx B s (s\<lparr>phases := (phases s)[i := Ph_checked]\<rparr>)"
| reserve: "i < length (phases s) \<Longrightarrow> phases s ! i = Ph_checked \<Longrightarrow>
    recv_step mx B s (s\<lparr>nrecvs_posted := nrecvs_posted s + B,
                        phases := (phases s)[i := Ph_reserved (nrecvs_posted s)]\<rparr>)"
| full: "i < length (phases s) \<Longrightarrow> phases s ! i = Ph_reserved pos \<Longrightarrow> mx \<le> pos \<Longrightarrow>
    recv_step mx B s (s\<lparr>nrecvs_posted := nrecvs_posted s - B, phases := (phases s)[i := Ph_idle]\<rparr>)"
| no_packet: "i < length (phases s) \<Longrightarrow> phases s ! i = Ph_reserved pos \<Longrightarrow> pos < mx \<Longrightarrow>
    recv_step mx B s (s\<lparr>nrecvs_posted := nrecvs_posted s - B, phases := (phases s)[i := Ph_idle]\<rparr>)"
| get_packets: "i < length (phases s) \<Longrightarrow> phases s ! i = Ph_reserved pos \<Longrightarrow> pos < mx \<Longrightarrow>
    0 < n_popped \<Longrightarrow> n_popped \<le> min (mx - pos) B \<Longrightarrow>
    recv_step mx B s (s\<lparr>phases := (phases s)[i := Ph_holding n_popped]\<rparr>)"
| post: "i < length (phases s) \<Longrightarrow> phases s ! i = Ph_holding n_popped \<Longrightarrow> n_posted \<le> n_popped \<Longrightarrow>
    recv_step mx B s (s\<lparr>on_nic := on_nic s + n_posted, phases := (phases s)[i := Ph_posted n_posted]\<rparr>)"
| return_rest: "i < length (phases s) \<Longrightarrow> phases s ! i = Ph_posted n_posted \<Longrightarrow>
    recv_step mx B s (s\<lparr>nrecvs_posted := nrecvs_posted s - (B - n_posted),
                        phases := (phases s)[i := Ph_idle]\<rparr>)"
| complete: "0 < on_nic s \<Longrightarrow>
    recv_step mx B s (s\<lparr>on_nic := on_nic s - 1, completed := completed s + 1\<rparr>)"
| consume: "0 < completed s \<Longrightarrow>
    recv_step mx B s (s\<lparr>nrecvs_posted := nrecvs_posted s - 1, completed := completed s - 1\<rparr>)"

inductive recv_reach :: "nat \<Rightarrow> nat \<Rightarrow> recv_state \<Rightarrow> bool" for mx B where
  init: "recv_reach mx B (recv_init n)"
| step: "recv_reach mx B s \<Longrightarrow> recv_step mx B s s' \<Longrightarrow> recv_reach mx B s'"

section \<open>The invariant\<close>

text \<open>What a thread has reserved in the counter, and how many receives it may still post.\<close>

fun reserved :: "nat \<Rightarrow> recv_phase \<Rightarrow> nat" where
  "reserved B (Ph_reserved pos) = B"
| "reserved B (Ph_holding n) = B"
| "reserved B (Ph_posted n) = B - n"
| "reserved B _ = 0"

fun may_post :: "nat \<Rightarrow> nat \<Rightarrow> recv_phase \<Rightarrow> nat" where
  "may_post mx B (Ph_reserved pos) = (if pos < mx then min (mx - pos) B else 0)"
| "may_post mx B (Ph_holding n) = n"
| "may_post mx B _ = 0"

definition phase_ok :: "nat \<Rightarrow> recv_phase \<Rightarrow> bool" where
  "phase_ok B p \<longleftrightarrow> (case p of Ph_holding n \<Rightarrow> n \<le> B | Ph_posted n \<Rightarrow> n \<le> B | _ \<Rightarrow> True)"

definition recv_inv :: "nat \<Rightarrow> nat \<Rightarrow> recv_state \<Rightarrow> bool" where
  "recv_inv mx B s \<longleftrightarrow> (\<forall>p\<in>set (phases s). phase_ok B p)
     \<and> nrecvs_posted s = on_nic s + completed s + sum_list (map (reserved B) (phases s))
     \<and> on_nic s + sum_list (map (may_post mx B) (phases s)) \<le> mx"

lemma may_post_le_reserved: "phase_ok B p \<Longrightarrow> may_post mx B p \<le> reserved B p"
  by (cases p) (auto simp: phase_ok_def)

lemma sum_may_post_le:
  "\<forall>p\<in>set ps. phase_ok B p \<Longrightarrow> sum_list (map (may_post mx B) ps) \<le> sum_list (map (reserved B) ps)"
  by (induction ps) (auto intro: add_mono may_post_le_reserved)

lemma phases_ok_update:
  "\<forall>p\<in>set ps. phase_ok B p \<Longrightarrow> phase_ok B x \<Longrightarrow> \<forall>p\<in>set (ps[i := x]). phase_ok B p"
  by (auto dest!: subsetD [OF set_update_subset_insert])

lemma recv_inv_step:
  assumes "recv_step mx B s s'" "recv_inv mx B s"
  shows "recv_inv mx B s'"
proof -
  have ok: "\<forall>p\<in>set (phases s). phase_ok B p"
    and cnt: "nrecvs_posted s = on_nic s + completed s + sum_list (map (reserved B) (phases s))"
    and bd: "on_nic s + sum_list (map (may_post mx B) (phases s)) \<le> mx"
    using assms(2) by (simp_all add: recv_inv_def)
  have le: "sum_list (map (may_post mx B) (phases s)) \<le> sum_list (map (reserved B) (phases s))"
    using ok by (rule sum_may_post_le)
  have held: "reserved B (phases s ! i) \<le> nrecvs_posted s" if "i < length (phases s)" for i
    using cnt member_le_sum_list [of "reserved B (phases s ! i)" "map (reserved B) (phases s)"] that by auto
  have upd: "recv_inv mx B (s\<lparr>nrecvs_posted := c, on_nic := o', phases := (phases s)[i := p]\<rparr>)"
    if i: "i < length (phases s)" and p: "phase_ok B p"
      and c: "c + reserved B (phases s ! i) + on_nic s = nrecvs_posted s + reserved B p + o'"
      and o': "o' + sum_list (map (may_post mx B) (phases s)) + may_post mx B p \<le> mx + may_post mx B (phases s ! i)"
    for i p c o'
  proof -
    note r = sum_list_update_nat [OF i, of "reserved B" p]
    note m = sum_list_update_nat [OF i, of "may_post mx B" p]
    have "o' + sum_list (map (may_post mx B) ((phases s)[i := p])) \<le> mx"
      using o' m by linarith
    moreover have "c = o' + completed s + sum_list (map (reserved B) ((phases s)[i := p]))"
      using c r cnt by linarith
    ultimately show ?thesis
      using phases_ok_update [OF ok p, of i] by (simp add: recv_inv_def)
  qed
  from assms(1) show ?thesis
  proof cases
    case (check i)
    then show ?thesis using upd [of i Ph_checked "nrecvs_posted s" "on_nic s"] bd by (simp add: phase_ok_def)
  next
    case (reserve i)
    have "on_nic s + sum_list (map (may_post mx B) (phases s)) + may_post mx B (Ph_reserved (nrecvs_posted s)) \<le> mx"
      using cnt le bd by auto
    with reserve show ?thesis
      using upd [of i "Ph_reserved (nrecvs_posted s)" "nrecvs_posted s + B" "on_nic s"]
      by (simp add: phase_ok_def del: may_post.simps(1))
  next
    case (full i pos)
    with held [of i] show ?thesis
      using upd [of i Ph_idle "nrecvs_posted s - B" "on_nic s"] bd by (simp add: phase_ok_def)
  next
    case (no_packet i pos)
    with held [of i] show ?thesis
      using upd [of i Ph_idle "nrecvs_posted s - B" "on_nic s"] bd by (simp add: phase_ok_def)
  next
    case (get_packets i pos n)
    then have "n \<le> min (mx - pos) B" by simp
    then have "on_nic s + sum_list (map (may_post mx B) (phases s)) + n \<le> mx + min (mx - pos) B"
      using bd by linarith
    with get_packets show ?thesis
      using upd [of i "Ph_holding n" "nrecvs_posted s" "on_nic s"] by (simp add: phase_ok_def)
  next
    case (post i n m)
    have "phase_ok B (Ph_holding n)" using ok post by (metis nth_mem)
    with post show ?thesis
      using upd [of i "Ph_posted m" "nrecvs_posted s" "on_nic s + m"] bd by (simp add: phase_ok_def)
  next
    case (return_rest i n)
    with held [of i] show ?thesis
      using upd [of i Ph_idle "nrecvs_posted s - (B - n)" "on_nic s"] bd by (simp add: phase_ok_def)
  next
    case complete
    with ok cnt bd show ?thesis by (simp add: recv_inv_def)
  next
    case consume
    with ok cnt bd show ?thesis by (simp add: recv_inv_def)
  qed
qed

lemma recv_reach_inv: "recv_reach mx B s \<Longrightarrow> recv_inv mx B s"
proof (induction rule: recv_reach.induct)
  case (init n)
  then show ?case by (simp add: recv_inv_def recv_init_def phase_ok_def sum_list_replicate)
next
  case (step s s')
  then show ?case by (blast intro: recv_inv_step)
qed

section \<open>Properties\<close>

text \<open>C15.  In every interleaving of any number of threads that refill a device, the receives posted
  to the network never exceed \<^verbatim>\<open>net_max_recvs\<close>, although the counter may overshoot; and the counter
  is the number of receives that are posted or not yet accounted for, plus what threads in flight
  have reserved.  No decrement of the unsigned counter wraps.\<close>

theorem posted_recvs_bounded:
  assumes "recv_reach mx B s"
  shows "on_nic s \<le> mx
       \<and> nrecvs_posted s = on_nic s + completed s + sum_list (map (reserved B) (phases s))
       \<and> (\<forall>i<length (phases s). reserved B (phases s ! i) \<le> nrecvs_posted s)
       \<and> completed s \<le> nrecvs_posted s"
proof -
  note inv = recv_reach_inv [OF assms, unfolded recv_inv_def]
  have "reserved B (phases s ! i) \<le> sum_list (map (reserved B) (phases s))" if "i < length (phases s)" for i
    using that by (intro member_le_sum_list) auto
  with inv show ?thesis by (auto intro: trans_le_add2)
qed

theorem posted_recvs_bounded_witness:
  "\<exists>s. recv_reach 10 8 s \<and> phases s = [Ph_reserved 0, Ph_reserved 8] \<and> nrecvs_posted s = 16
     \<and> on_nic s \<le> 10"
proof -
  let ?s0 = "recv_init 2"
  let ?s1 = "?s0\<lparr>phases := [Ph_checked, Ph_idle]\<rparr>"
  let ?s2 = "?s0\<lparr>phases := [Ph_checked, Ph_checked]\<rparr>"
  let ?s3 = "?s0\<lparr>nrecvs_posted := 8, phases := [Ph_reserved 0, Ph_checked]\<rparr>"
  let ?s4 = "?s0\<lparr>nrecvs_posted := 16, phases := [Ph_reserved 0, Ph_reserved 8]\<rparr>"
  have "recv_reach 10 8 ?s0" by (rule recv_reach.init)
  moreover have "recv_step 10 8 ?s0 ?s1" "recv_step 10 8 ?s1 ?s2" "recv_step 10 8 ?s2 ?s3" "recv_step 10 8 ?s3 ?s4"
    using check [of 0 ?s0 10 8] check [of 1 ?s1 10 8] reserve [of 0 ?s2 10 8] reserve [of 1 ?s3 10 8]
    by (simp_all add: recv_init_def numeral_2_eq_2)
  ultimately have "recv_reach 10 8 ?s4" by (meson recv_reach.step)
  from posted_recvs_bounded [OF this] this show ?thesis by (intro exI [of _ ?s4]) simp
qed

end
