(* ===== verification/LCI_Registry.thy ===== *)
theory LCI_Registry
  imports LCI_Bits
begin

text \<open>
  The tables that turn small integers into objects: the growable array \<^verbatim>\<open>mpmc_array_t\<close>, the registry of
  remote handlers \<^verbatim>\<open>rhandler_registry_t\<close> on top of it with the four handlers a matching engine
  registers, and the archive of immediate-data tags \<^verbatim>\<open>imm_tag_archive_t\<close>.  A second section on the
  array has its lock-free readers as a step relation.
\<close>

section \<open>The growable array\<close>

text \<open>Arrays are allocated and never freed; a pointer is the position in the list of allocations.\<close>

record 'a mpmc_array_t =
  ma_arrays :: "'a list list"
  ma_ptr :: nat
  ma_length :: nat

definition array_new :: "'a \<Rightarrow> nat \<Rightarrow> 'a mpmc_array_t" where
  "array_new d n = \<lparr>ma_arrays = [replicate n d], ma_ptr = 0, ma_length = n\<rparr>"

definition resize_nolock :: "'a \<Rightarrow> nat \<Rightarrow> 'a mpmc_array_t \<Rightarrow> 'a mpmc_array_t res" where
  "resize_nolock d new_length a =
     bindR (lci_assert (new_length > ma_length a)) (\<lambda>_.
     let new_ptr = take (ma_length a) (ma_arrays a ! ma_ptr a) @ replicate (new_length - ma_length a) d
     in Inr (a\<lparr>ma_arrays := ma_arrays a @ [new_ptr], ma_ptr := length (ma_arrays a), ma_length := new_length\<rparr>))"

definition array_put :: "'a \<Rightarrow> nat \<Rightarrow> 'a \<Rightarrow> 'a mpmc_array_t \<Rightarrow> 'a mpmc_array_t res" where
  "array_put d idx val a =
     bindR (if idx \<ge> ma_length a then resize_nolock d ((idx + 1) * 2) a else Inr a) (\<lambda>a.
     Inr (a\<lparr>ma_arrays := (ma_arrays a)[ma_ptr a := (ma_arrays a ! ma_ptr a)[idx := val]]\<rparr>))"

definition array_get :: "'a \<Rightarrow> nat \<Rightarrow> 'a mpmc_array_t \<Rightarrow> 'a" where
  "array_get d idx a = (if idx \<ge> ma_length a then d else ma_arrays a ! ma_ptr a ! idx)"

definition array_inv :: "'a mpmc_array_t \<Rightarrow> bool" where
  "array_inv a \<longleftrightarrow> ma_ptr a < length (ma_arrays a) \<and> ma_length a = length (ma_arrays a ! ma_ptr a)"

text \<open>The contract of an array that is unbounded for its clients: it reads as the default where
  nothing was written.\<close>

locale array_contract =
  fixes inv :: "'s \<Rightarrow> bool"
    and new :: 's
    and get :: "nat \<Rightarrow> 's \<Rightarrow> 'v"
    and put :: "nat \<Rightarrow> 'v \<Rightarrow> 's \<Rightarrow> 's res"
    and d :: 'v
  assumes new_inv: "inv new" and get_new: "get i new = d"
    and put_ok: "inv s \<Longrightarrow> \<exists>s'. put i v s = Inr s' \<and> inv s' \<and> (\<forall>j. get j s' = (if j = i then v else get j s))"
begin

primrec put_all :: "(nat \<times> 'v) list \<Rightarrow> 's \<Rightarrow> 's res" where
  "put_all [] s = Inr s"
| "put_all (x # xs) s = bindR (put (fst x) (snd x) s) (put_all xs)"

lemma put_all_ok:
  "inv s \<Longrightarrow> \<exists>s'. put_all xs s = Inr s' \<and> inv s' \<and>
     (\<forall>j. get j s' = (case map_of (rev xs) j of Some v \<Rightarrow> v | None \<Rightarrow> get j s))"
proof (induction xs arbitrary: s)
  case (Cons x xs)
  obtain s1 where s1: "put (fst x) (snd x) s = Inr s1" "inv s1"
      "\<forall>j. get j s1 = (if j = fst x then snd x else get j s)"
    using put_ok [OF Cons.prems] by blast
  from Cons.IH [OF s1(2)] obtain s2 where s2: "put_all xs s1 = Inr s2" "inv s2"
      "\<forall>j. get j s2 = (case map_of (rev xs) j of Some v \<Rightarrow> v | None \<Rightarrow> get j s1)" by blast
  have "get j s2 = (case map_of (rev (x # xs)) j of Some v \<Rightarrow> v | None \<Rightarrow> get j s)" for j
    using s2(3) s1(3) by (cases x) (auto simp: map_add_def split: option.splits)
  with s1(1) s2(1,2) show ?case by simp
qed simp

end

lemma array_put_spec:
  assumes "array_inv a"
  shows "\<exists>a'. array_put d i v a = Inr a' \<and> array_inv a'
       \<and> (\<forall>j. array_get d j a' = (if j = i then v else array_get d j a))"
proof (cases "i < ma_length a")
  case True
  with assms show ?thesis
    by (auto simp: array_put_def array_inv_def array_get_def nth_list_update)
next
  case False
  let ?n = "(i + 1) * 2" and ?cells = "ma_arrays a ! ma_ptr a"
  let ?new = "ma_arrays a @ [?cells @ replicate (?n - ma_length a) d]"
  have "resize_nolock d ?n a = Inr (a\<lparr>ma_arrays := ?new, ma_ptr := length (ma_arrays a), ma_length := ?n\<rparr>)"
    using False assms by (simp add: resize_nolock_def array_inv_def Let_def)
  with False assms show ?thesis
    by (auto simp: array_put_def array_inv_def array_get_def nth_append nth_list_update)
qed

section \<open>Lock-free readers of the array\<close>

text \<open>One writer at a time holds the lock; \<^verbatim>\<open>resize_nolock\<close> publishes the new pointer first and the new
  length second.  Readers load the length, then the pointer, then the element, with no lock.  Only
  the sizes of the arrays matter here.\<close>

datatype reader = Rd_idle | Rd_in_range nat | Rd_element nat nat

datatype writer = Wr_idle | Wr_published nat

record array_sys =
  sizes :: "nat list"
  cur_ptr :: nat
  cur_length :: nat
  wr :: writer
  readers :: "reader list"

inductive array_step :: "array_sys \<Rightarrow> array_sys \<Rightarrow> bool" where
  publish_ptr: "wr s = Wr_idle \<Longrightarrow> cur_length s < n \<Longrightarrow>
    array_step s (s\<lparr>sizes := sizes s @ [n], cur_ptr := length (sizes s), wr := Wr_published n\<rparr>)"
| publish_length: "wr s = Wr_published n \<Longrightarrow> array_step s (s\<lparr>cur_length := n, wr := Wr_idle\<rparr>)"
| load_length: "r < length (readers s) \<Longrightarrow> readers s ! r = Rd_idle \<Longrightarrow> idx < cur_length s \<Longrightarrow>
    array_step s (s\<lparr>readers := (readers s)[r := Rd_in_range idx]\<rparr>)"
| load_ptr: "r < length (readers s) \<Longrightarrow> readers s ! r = Rd_in_range idx \<Longrightarrow>
    array_step s (s\<lparr>readers := (readers s)[r := Rd_element (cur_ptr s) idx]\<rparr>)"
| read_element: "r < length (readers s) \<Longrightarrow> readers s ! r = Rd_element p idx \<Longrightarrow>
    array_step s (s\<lparr>readers := (readers s)[r := Rd_idle]\<rparr>)"

definition array_sys_init :: "nat \<Rightarrow> nat \<Rightarrow> array_sys" where
  "array_sys_init n nreaders = \<lparr>sizes = [n], cur_ptr = 0, cur_length = n, wr = Wr_idle,
                                readers = replicate nreaders Rd_idle\<rparr>"

inductive array_reach :: "nat \<Rightarrow> nat \<Rightarrow> array_sys \<Rightarrow> bool" for n k where
  init: "array_reach n k (array_sys_init n k)"
| step: "array_reach n k s \<Longrightarrow> array_step s s' \<Longrightarrow> array_reach n k s'"

fun reader_ok :: "array_sys \<Rightarrow> reader \<Rightarrow> bool" where
  "reader_ok s Rd_idle = True"
| "reader_ok s (Rd_in_range idx) = (idx < cur_length s)"
| "reader_ok s (Rd_element p idx) = (p < length (sizes s) \<and> idx < sizes s ! p)"

definition sys_inv :: "array_sys \<Rightarrow> bool" where
  "sys_inv s \<longleftrightarrow> cur_ptr s < length (sizes s) \<and> cur_length s \<le> sizes s ! cur_ptr s
     \<and> (\<forall>n. wr s = Wr_published n \<longrightarrow> cur_length s \<le> n \<and> sizes s ! cur_ptr s = n)
     \<and> (\<forall>r\<in>set (readers s). reader_ok s r)"

lemma readers_update:
  "\<forall>r\<in>set rs. P r \<Longrightarrow> P x \<Longrightarrow> \<forall>r\<in>set (rs[i := x]). P r"
  by (auto dest!: subsetD [OF set_update_subset_insert])

lemma reader_ok_mono:
  assumes "reader_ok s r" "cur_length s \<le> cur_length s'" "sizes s' = sizes s @ zs"
  shows "reader_ok s' r"
  using assms by (cases r) (auto simp: nth_append)

lemma sys_inv_step:
  assumes "array_step s s'" "sys_inv s"
  shows "sys_inv s'"
  using assms(1)
proof cases
  case (publish_ptr n)
  have "reader_ok s' r" if "r \<in> set (readers s)" for r
    using reader_ok_mono [of s r s' "[n]"] that assms(2) publish_ptr by (simp add: sys_inv_def)
  with publish_ptr assms(2) show ?thesis by (auto simp: sys_inv_def)
next
  case (publish_length n)
  have "reader_ok s' r" if "r \<in> set (readers s)" for r
    using reader_ok_mono [of s r s' "[]"] that assms(2) publish_length by (simp add: sys_inv_def)
  with publish_length assms(2) show ?thesis by (auto simp: sys_inv_def)
next
  case (load_length r idx)
  then have "reader_ok s x \<longrightarrow> reader_ok s' x" for x by (cases x) auto
  with load_length assms(2) show ?thesis
    using readers_update [of "readers s" "reader_ok s'" "Rd_in_range idx" r] by (simp add: sys_inv_def)
next
  case (load_ptr r idx)
  then have eq: "reader_ok s x \<longrightarrow> reader_ok s' x" for x by (cases x) auto
  have "reader_ok s (Rd_in_range idx)" using load_ptr assms(2) by (metis nth_mem sys_inv_def)
  with assms(2) have "reader_ok s' (Rd_element (cur_ptr s) idx)" using load_ptr(1) by (auto simp: sys_inv_def)
  with load_ptr assms(2) eq show ?thesis
    using readers_update [of "readers s" "reader_ok s'" "Rd_element (cur_ptr s) idx" r] by (simp add: sys_inv_def)
next
  case (read_element r p idx)
  then have "reader_ok s x \<longrightarrow> reader_ok s' x" for x by (cases x) auto
  with read_element assms(2) show ?thesis
    using readers_update [of "readers s" "reader_ok s'" Rd_idle r] by (simp add: sys_inv_def)
qed

lemma sys_reach_inv: "array_reach n k s \<Longrightarrow> sys_inv s"
proof (induction rule: array_reach.induct)
  case init
  then show ?case by (simp add: sys_inv_def array_sys_init_def)
next
  case (step s s')
  then show ?case by (blast intro: sys_inv_step)
qed

section \<open>The registry of remote handlers\<close>

datatype rh_type = rh_none | rh_comp | rh_matching_engine

record rh_entry =
  re_type :: rh_type
  re_value :: addr
  re_metadata :: u64

definition rh_entry_default :: rh_entry where
  "rh_entry_default = \<lparr>re_type = rh_none, re_value = 0, re_metadata = 0\<rparr>"

record rhandler_registry_t =
  rr_size :: u32
  rr_entries :: "rh_entry mpmc_array_t"

definition registry_new :: rhandler_registry_t where
  "registry_new = \<lparr>rr_size = 0, rr_entries = array_new rh_entry_default 32\<rparr>"

definition encode_idx :: "u32 \<Rightarrow> u32" where "encode_idx idx = idx + 1"
definition decode_idx :: "u32 \<Rightarrow> u32" where "decode_idx idx = idx - 1"

definition rr_reserve :: "u32 \<Rightarrow> rhandler_registry_t \<Rightarrow> u32 \<times> rhandler_registry_t" where
  "rr_reserve n r = (encode_idx (rr_size r), r\<lparr>rr_size := rr_size r + n\<rparr>)"

definition rr_put :: "nat \<Rightarrow> rh_entry \<Rightarrow> rhandler_registry_t \<Rightarrow> rhandler_registry_t res" where
  "rr_put idx entry r =
     bindR (array_put rh_entry_default idx entry (rr_entries r)) (\<lambda>a. Inr (r\<lparr>rr_entries := a\<rparr>))"

definition register_rhandler_at :: "u32 \<Rightarrow> rh_entry \<Rightarrow> rhandler_registry_t \<Rightarrow> rhandler_registry_t res" where
  "register_rhandler_at idx entry r =
     (let idx = decode_idx idx in
      bindR (lci_assert (idx < rr_size r)) (\<lambda>_. rr_put (unat idx) entry r))"

definition register_rhandler :: "rh_entry \<Rightarrow> rhandler_registry_t \<Rightarrow> (u32 \<times> rhandler_registry_t) res" where
  "register_rhandler entry r =
     (let idx = rr_size r in
      bindR (rr_put (unat idx) entry (r\<lparr>rr_size := rr_size r + 1\<rparr>)) (\<lambda>r. Inr (encode_idx idx, r)))"

definition deregister_rhandler :: "u32 \<Rightarrow> rhandler_registry_t \<Rightarrow> rhandler_registry_t res" where
  "deregister_rhandler idx r =
     (let idx = decode_idx idx in
      bindR (lci_assert (idx < rr_size r)) (\<lambda>_. rr_put (unat idx) rh_entry_default r))"

definition rr_get :: "u32 \<Rightarrow> rhandler_registry_t \<Rightarrow> rh_entry res" where
  "rr_get idx r =
     (let idx = decode_idx idx in
      bindR (lci_assert (idx < rr_size r)) (\<lambda>_.
      Inr (array_get rh_entry_default (unat idx) (rr_entries r))))"

text \<open>\<^verbatim>\<open>matching_engine_impl_t::register_rhandler\<close> registers one handler per policy, with the policy in
  the metadata; \<^verbatim>\<open>get_rhandler\<close> computes the handler of a policy.\<close>

fun register_policies :: "addr \<Rightarrow> u32 \<Rightarrow> nat \<Rightarrow> nat \<Rightarrow> rhandler_registry_t \<Rightarrow> rhandler_registry_t res" where
  "register_policies eng base i 0 r = Inr r"
| "register_policies eng base i (Suc k) r =
     bindR (register_rhandler_at (base + of_nat i)
              \<lparr>re_type = rh_matching_engine, re_value = eng, re_metadata = of_nat i\<rparr> r)
       (register_policies eng base (Suc i) k)"

definition register_matching_engine :: "addr \<Rightarrow> rhandler_registry_t \<Rightarrow> (u32 \<times> rhandler_registry_t) res" where
  "register_matching_engine eng r =
     (let (rcomp_base, r) = rr_reserve (policy_val mp_max) r in
      bindR (register_policies eng rcomp_base 0 (unat (policy_val mp_max)) r) (\<lambda>r. Inr (rcomp_base, r)))"

definition get_rhandler :: "u32 \<Rightarrow> matching_policy_t \<Rightarrow> rcomp_t" where
  "get_rhandler rcomp_base policy = rcomp_base + policy_val policy"

definition rr_inv :: "rhandler_registry_t \<Rightarrow> bool" where
  "rr_inv r \<longleftrightarrow> array_inv (rr_entries r)"

interpretation rh_arr: array_contract array_inv "array_new rh_entry_default 32"
  "array_get rh_entry_default" "array_put rh_entry_default" rh_entry_default
proof (standard, goal_cases)
  case 1 show ?case by (simp add: array_inv_def array_new_def)
next
  case (2 i) show ?case by (simp add: array_get_def array_new_def)
next
  case (3 s i v) then show ?case by (rule array_put_spec)
qed

lemma decode_encode [simp]: "decode_idx (encode_idx i) = i" "decode_idx (encode_idx i + j) = i + j"
  by (simp_all add: decode_idx_def encode_idx_def)

lemma rr_put_spec:
  assumes "rr_inv r"
  shows "\<exists>r'. rr_put i e r = Inr r' \<and> rr_inv r' \<and> rr_size r' = rr_size r
       \<and> (\<forall>h. rr_get h r' = (if unat (decode_idx h) = i \<and> decode_idx h < rr_size r then Inr e else rr_get h r))"
proof -
  obtain a where a: "array_put rh_entry_default i e (rr_entries r) = Inr a" "array_inv a"
      "\<forall>j. array_get rh_entry_default j a = (if j = i then e else array_get rh_entry_default j (rr_entries r))"
    using rh_arr.put_ok [of "rr_entries r" i e] assms unfolding rr_inv_def by blast
  then show ?thesis
    by (auto simp: rr_put_def rr_inv_def rr_get_def Let_def bind_assert)
qed

lemma rr_get_grow:
  assumes "rr_get h r = Inr e" "rr_size r \<le> n"
  shows "rr_get h (r\<lparr>rr_size := n\<rparr>) = Inr e"
  using assms by (auto simp: rr_get_def Let_def bind_assert split: if_splits)

lemma register_policies_spec:
  assumes "rr_inv r" "i + k \<le> 4" "\<forall>j<i + k. rr_size r > b + of_nat j" "unat b + 4 < 2 ^ 32"
  shows "\<exists>r'. register_policies eng (encode_idx b) i k r = Inr r' \<and> rr_inv r' \<and> rr_size r' = rr_size r
       \<and> (\<forall>h. rr_get h r' =
            (if \<exists>j\<in>{i..<i + k}. h = encode_idx b + of_nat j
             then Inr \<lparr>re_type = rh_matching_engine, re_value = eng, re_metadata = ucast (decode_idx h - b)\<rparr>
             else rr_get h r))"
  using assms
proof (induction k arbitrary: i r)
  case 0
  then show ?case by auto
next
  case (Suc k)
  let ?h = "encode_idx b + of_nat i"
  let ?e = "\<lparr>re_type = rh_matching_engine, re_value = eng, re_metadata = of_nat i\<rparr>"
  have lt: "b + of_nat i < rr_size r" using Suc.prems(3) by simp
  obtain r1 where r1: "rr_put (unat (b + of_nat i)) ?e r = Inr r1" "rr_inv r1" "rr_size r1 = rr_size r"
      "\<forall>h. rr_get h r1 = (if unat (decode_idx h) = unat (b + of_nat i) \<and> decode_idx h < rr_size r then Inr ?e
                          else rr_get h r)"
    using rr_put_spec [OF Suc.prems(1), of "unat (b + of_nat i)" ?e] by blast
  have reg: "register_rhandler_at ?h ?e r = Inr r1"
    using lt r1(1) by (simp add: register_rhandler_at_def Let_def)
  have pre: "\<forall>j<Suc i + k. rr_size r1 > b + of_nat j" "Suc i + k \<le> 4"
    using Suc.prems(2,3) r1(3) by auto
  from Suc.IH [OF r1(2) pre(2,1) Suc.prems(4)] obtain r2 where
      r2: "register_policies eng (encode_idx b) (Suc i) k r1 = Inr r2" "rr_inv r2" "rr_size r2 = rr_size r1"
      "\<forall>h. rr_get h r2 =
            (if \<exists>j\<in>{Suc i..<Suc i + k}. h = encode_idx b + of_nat j
             then Inr \<lparr>re_type = rh_matching_engine, re_value = eng, re_metadata = ucast (decode_idx h - b)\<rparr>
             else rr_get h r1)" by blast
  have get1: "rr_get h r1 = (if h = ?h then Inr ?e else rr_get h r)" for h
  proof -
    have "unat (decode_idx h) = unat (b + of_nat i) \<longleftrightarrow> h = ?h"
      by (auto simp: decode_idx_def encode_idx_def word_unat_eq_iff [symmetric] algebra_simps)
    then show ?thesis using r1(4) lt by auto
  qed
  have meta: "of_nat i = (ucast (decode_idx ?h - b) :: u64)"
    using Suc.prems(2) by (simp add: unsigned_of_nat take_bit_nat_eq_self)
  have "rr_get h r2 =
            (if \<exists>j\<in>{i..<i + Suc k}. h = encode_idx b + of_nat j
             then Inr \<lparr>re_type = rh_matching_engine, re_value = eng, re_metadata = ucast (decode_idx h - b)\<rparr>
             else rr_get h r)" for h
  proof -
    have "{i..<i + Suc k} = insert i {Suc i..<Suc i + k}" by auto
    then show ?thesis using r2(4) get1 meta by auto
  qed
  with reg r2(1-3) r1(3) show ?case by auto
qed

section \<open>The archive of immediate-data tags\<close>

text \<open>A slot is claimed by one compare-and-swap and released by one exchange, each of which is a
  single atomic action on one slot; \<^verbatim>\<open>insert\<close> probes the slots round robin.\<close>

record imm_tag_archive_t =
  ar_tag_bits :: nat
  ar_size :: u32
  ar_mask :: u32
  ar_slots :: "u64 list"
  ar_next_slot :: u32

definition empty_value :: u64 where "empty_value = -1"

definition archive_new :: "nat \<Rightarrow> imm_tag_archive_t res" where
  "archive_new tag_bits =
     bindR (lci_assert (tag_bits > 0 \<and> tag_bits \<le> 16)) (\<lambda>_.
     let sz = push_bit tag_bits (1::u32) in
     Inr \<lparr>ar_tag_bits = tag_bits, ar_size = sz, ar_mask = sz - 1,
          ar_slots = replicate (unat sz) empty_value, ar_next_slot = 0\<rparr>)"

fun archive_probe :: "u32 \<Rightarrow> u32 \<Rightarrow> u64 \<Rightarrow> u64 list \<Rightarrow> nat \<Rightarrow> nat \<Rightarrow> (u32 \<times> u64 list) option" where
  "archive_probe start msk value slots i 0 = None"
| "archive_probe start msk value slots i (Suc k) =
     (let idx = (start + of_nat i) AND msk in
      if slots ! unat idx = empty_value then Some (idx, slots[unat idx := value])
      else archive_probe start msk value slots (Suc i) k)"

definition archive_insert :: "u64 \<Rightarrow> imm_tag_archive_t \<Rightarrow> (u32 \<times> imm_tag_archive_t) res" where
  "archive_insert value ar =
     bindR (lci_assert (value \<noteq> empty_value)) (\<lambda>_.
     let start = ar_next_slot ar AND ar_mask ar;
         ar = ar\<lparr>ar_next_slot := ar_next_slot ar + 1\<rparr>
     in case archive_probe start (ar_mask ar) value (ar_slots ar) 0 (unat (ar_size ar)) of
          Some (idx, slots) \<Rightarrow> Inr (idx, ar\<lparr>ar_slots := slots\<rparr>)
        | None \<Rightarrow> Inl Assert_failed)"

definition archive_remove :: "u32 \<Rightarrow> imm_tag_archive_t \<Rightarrow> (u64 \<times> imm_tag_archive_t) res" where
  "archive_remove tag ar =
     bindR (lci_assert (tag < ar_size ar)) (\<lambda>_.
     let value = ar_slots ar ! unat tag in
     bindR (lci_assert (value \<noteq> empty_value)) (\<lambda>_.
     Inr (value, ar\<lparr>ar_slots := (ar_slots ar)[unat tag := empty_value]\<rparr>)))"

definition archive_peek :: "u32 \<Rightarrow> imm_tag_archive_t \<Rightarrow> u64 res" where
  "archive_peek tag ar =
     bindR (lci_assert (tag < ar_size ar)) (\<lambda>_. Inr (ar_slots ar ! unat tag))"

definition archive_clear :: "imm_tag_archive_t \<Rightarrow> imm_tag_archive_t" where
  "archive_clear ar = ar\<lparr>ar_slots := replicate (unat (ar_size ar)) empty_value, ar_next_slot := 0\<rparr>"

definition archive_inv :: "imm_tag_archive_t \<Rightarrow> bool" where
  "archive_inv ar \<longleftrightarrow> 0 < ar_tag_bits ar \<and> ar_tag_bits ar \<le> 16 \<and> ar_size ar = 2 ^ ar_tag_bits ar
     \<and> ar_mask ar = mask (ar_tag_bits ar) \<and> length (ar_slots ar) = 2 ^ ar_tag_bits ar"

lemma unat_pow2: "n < 32 \<Longrightarrow> unat (2 ^ n :: u32) = 2 ^ n"
proof -
  assume n: "n < 32"
  then have "(2::nat) ^ n < 2 ^ 32" by (rule power_strict_increasing) simp
  then have "unat (of_nat (2 ^ n) :: u32) = 2 ^ n"
    unfolding unsigned_of_nat using n by (simp add: take_bit_nat_eq_self)
  then show ?thesis by simp
qed

lemma unat_and_mask:
  "n < 32 \<Longrightarrow> unat (w AND mask n :: u32) = unat w mod 2 ^ n"
  unfolding take_bit_eq_mask [symmetric] unsigned_take_bit_eq by (simp add: take_bit_eq_mod)

lemma archive_probe_some:
  "archive_probe start msk v slots i k = Some (idx, slots') \<Longrightarrow>
     slots ! unat idx = empty_value \<and> slots' = slots[unat idx := v] \<and> (\<exists>w. idx = w AND msk)"
  by (induction start msk v slots i k rule: archive_probe.induct)
    (auto simp: Let_def split: if_splits)

lemma archive_probe_none:
  "archive_probe start msk v slots i k = None \<Longrightarrow>
     \<forall>j. i \<le> j \<and> j < i + k \<longrightarrow> slots ! unat ((start + of_nat j) AND msk) \<noteq> empty_value"
proof (induction start msk v slots i k rule: archive_probe.induct)
  case (2 start msk v slots i k)
  then show ?case
    by (auto simp: Let_def split: if_splits) (metis Suc_leI add_Suc_shift le_neq_implies_less)
qed auto

lemma probe_covers:
  assumes "n \<le> 16" "x < 2 ^ n"
  shows "\<exists>j<2 ^ n. unat ((start + of_nat j) AND mask n :: u32) = x"
proof -
  let ?N = "2 ^ n :: nat"
  let ?j = "(x + (?N - unat start mod ?N)) mod ?N"
  have j: "?j < ?N" by simp
  have "2 ^ n \<le> (2 ^ 16 :: nat)" using assms(1) by (rule power_increasing) simp
  then have small: "?j < 2 ^ 32" by (intro less_le_trans [OF j]) simp
  have dv: "?N dvd 2 ^ 32" using assms(1) by (intro le_imp_power_dvd) simp
  have "unat ((start + of_nat ?j) AND mask n :: u32) = unat (start + of_nat ?j) mod ?N"
    using assms(1) by (intro unat_and_mask) simp
  also have "\<dots> = ((unat start + ?j) mod 2 ^ 32) mod ?N"
    using small by (simp add: unat_word_ariths unsigned_of_nat take_bit_nat_eq_self)
  also have "\<dots> = (unat start + ?j) mod ?N"
    using dv by (rule mod_mod_cancel)
  also have "\<dots> = (unat start mod ?N + (x + (?N - unat start mod ?N))) mod ?N"
    by (simp add: mod_simps)
  also have "\<dots> = (x + ?N) mod ?N"
    using mod_less_divisor [of ?N "unat start"] by (simp del: mod_less_divisor)
  also have "\<dots> = x" using assms(2) by simp
  finally show ?thesis using j by blast
qed

lemma archive_insert_spec:
  assumes "archive_inv ar" "v \<noteq> empty_value"
  shows "(empty_value \<in> set (ar_slots ar) \<longrightarrow>
           (\<exists>tag ar'. archive_insert v ar = Inr (tag, ar') \<and> tag < ar_size ar \<and> unat tag < length (ar_slots ar)
              \<and> ar_slots ar ! unat tag = empty_value \<and> ar_slots ar' = (ar_slots ar)[unat tag := v]
              \<and> archive_inv ar' \<and> ar_size ar' = ar_size ar))
       \<and> (empty_value \<notin> set (ar_slots ar) \<longrightarrow> archive_insert v ar = Inl Assert_failed)"
proof -
  let ?n = "ar_tag_bits ar" and ?start = "ar_next_slot ar AND ar_mask ar"
  have n: "?n \<le> 16" "?n < 32" and len: "length (ar_slots ar) = 2 ^ ?n" and m: "ar_mask ar = mask ?n"
      and sz: "ar_size ar = 2 ^ ?n" "unat (ar_size ar) = 2 ^ ?n"
    using assms(1) by (auto simp: archive_inv_def unat_pow2)
  show ?thesis
  proof (cases "archive_probe ?start (ar_mask ar) v (ar_slots ar) 0 (unat (ar_size ar))")
    case None
    have "ar_slots ar ! x \<noteq> empty_value" if "x < 2 ^ ?n" for x
      using probe_covers [OF n(1) that, of ?start] archive_probe_none [OF None] sz(2) m by auto
    then have "empty_value \<notin> set (ar_slots ar)" using len by (auto simp: in_set_conv_nth)
    with None assms(2) show ?thesis by (simp add: archive_insert_def Let_def)
  next
    case (Some p)
    obtain idx slots where p: "p = (idx, slots)" by fastforce
    from archive_probe_some [OF Some [unfolded p]] obtain w where
        a: "ar_slots ar ! unat idx = empty_value" "slots = (ar_slots ar)[unat idx := v]" "idx = w AND mask ?n"
      using m by auto
    have lt: "unat idx < 2 ^ ?n" using a(3) n(2) by (simp add: unat_and_mask)
    then have "idx < ar_size ar" using sz by (simp add: word_less_nat_alt)
    with lt a Some p assms len show ?thesis
      by (auto simp: archive_insert_def Let_def archive_inv_def in_set_conv_nth)
  qed
qed

section \<open>Properties\<close>

lemma registry_new_inv: "rr_inv registry_new"
  using rh_arr.new_inv by (simp add: rr_inv_def registry_new_def)

lemma unat_Suc_less: "unat w + 1 < 2 ^ 32 \<Longrightarrow> unat (w + 1 :: u32) = unat w + 1"
  by (simp add: unat_word_ariths)

text \<open>C32.  A registered remote handler is never the null handler, resolves to its entry, and its
  registration changes no other valid handler, until the 32-bit index space is exhausted.\<close>

theorem register_then_get:
  assumes "rr_inv r" "unat (rr_size r) + 1 < 2 ^ 32"
  shows "\<exists>h r'. register_rhandler e r = Inr (h, r') \<and> h \<noteq> 0 \<and> rr_inv r' \<and> rr_get h r' = Inr e
       \<and> (\<forall>h' e'. rr_get h' r = Inr e' \<longrightarrow> h' \<noteq> h \<and> rr_get h' r' = Inr e')"
proof -
  let ?n = "rr_size r" and ?g = "r\<lparr>rr_size := rr_size r + 1\<rparr>"
  have un: "unat (?n + 1) = unat ?n + 1" using unat_Suc_less [OF assms(2)] .
  have lt: "?n < ?n + 1" using un by (simp add: word_less_nat_alt)
  have h: "encode_idx ?n \<noteq> 0" using un by (auto simp: encode_idx_def)
  have "rr_inv ?g" using assms(1) by (simp add: rr_inv_def)
  from rr_put_spec [OF this, of "unat ?n" e] obtain r' where r': "rr_put (unat ?n) e ?g = Inr r'" "rr_inv r'"
      "\<forall>h. rr_get h r' = (if unat (decode_idx h) = unat ?n \<and> decode_idx h < ?n + 1 then Inr e else rr_get h ?g)"
    by auto
  have reg: "register_rhandler e r = Inr (encode_idx ?n, r')"
    using r'(1) by (simp add: register_rhandler_def Let_def)
  have old: "h' \<noteq> encode_idx ?n \<and> rr_get h' r' = Inr e'" if "rr_get h' r = Inr e'" for h' e'
  proof -
    have d: "decode_idx h' < ?n" using that by (auto simp: rr_get_def Let_def bind_assert split: if_splits)
    then have "unat (decode_idx h') \<noteq> unat ?n" by (auto simp: word_less_nat_alt)
    moreover have "rr_get h' ?g = Inr e'" using rr_get_grow [OF that] lt by simp
    moreover have "h' \<noteq> encode_idx ?n" using d by auto
    ultimately show ?thesis using r'(3) by simp
  qed
  have "rr_get (encode_idx ?n) r' = Inr e" using r'(3) lt by simp
  with reg h r'(2) old show ?thesis by blast
qed

theorem register_then_get_witness:
  "\<exists>h r'. register_rhandler \<lparr>re_type = rh_comp, re_value = 7, re_metadata = 0\<rparr> registry_new = Inr (h, r')
     \<and> h \<noteq> 0 \<and> rr_get h r' = Inr \<lparr>re_type = rh_comp, re_value = 7, re_metadata = 0\<rparr>"
proof -
  have "unat (rr_size registry_new) + 1 < 2 ^ 32" by (simp add: registry_new_def)
  from register_then_get [OF registry_new_inv this, of "\<lparr>re_type = rh_comp, re_value = 7, re_metadata = 0\<rparr>"]
  show ?thesis by blast
qed

text \<open>C31.  A matching engine's handler for a policy, computed by \<^verbatim>\<open>get_rhandler\<close> as an offset from the
  reserved block, resolves on the receiver to this engine with that policy in its metadata.\<close>

theorem matching_engine_handlers:
  assumes "rr_inv r" "unat (rr_size r) + 4 < 2 ^ 32" "policy \<noteq> mp_max"
  shows "\<exists>base r'. register_matching_engine eng r = Inr (base, r') \<and> rr_inv r'
       \<and> rr_get (get_rhandler base policy) r'
           = Inr \<lparr>re_type = rh_matching_engine, re_value = eng, re_metadata = ucast (policy_val policy)\<rparr>"
proof -
  let ?b = "rr_size r" and ?g = "r\<lparr>rr_size := rr_size r + 4\<rparr>"
  have u: "unat (?b + of_nat j) = unat ?b + j" if "j \<le> 4" for j
    using assms(2) that by (simp add: unat_word_ariths unsigned_of_nat take_bit_nat_eq_self)
  have u4: "unat (?b + 4) = unat ?b + 4" using u [of 4] by simp
  have lt: "\<forall>j<0 + 4. rr_size ?g > ?b + of_nat j"
    using u u4 by (auto simp: word_less_nat_alt)
  have "rr_inv ?g" using assms(1) by (simp add: rr_inv_def)
  from register_policies_spec [OF this _ lt assms(2), of eng] obtain r' where
      r': "register_policies eng (encode_idx ?b) 0 4 ?g = Inr r'" "rr_inv r'"
        "\<forall>h. rr_get h r' = (if \<exists>j\<in>{0..<0 + 4}. h = encode_idx ?b + of_nat j
           then Inr \<lparr>re_type = rh_matching_engine, re_value = eng, re_metadata = ucast (decode_idx h - ?b)\<rparr>
           else rr_get h ?g)" by auto
  have "\<exists>j\<in>{0..<0 + 4}. encode_idx ?b + policy_val policy = encode_idx ?b + of_nat j"
    using assms(3) by (cases policy) (auto simp: atLeastLessThan_nat_numeral atLeast0_lessThan_Suc numeral_eq_Suc)
  with r' show ?thesis
    by (auto simp: register_matching_engine_def rr_reserve_def get_rhandler_def)
qed

theorem matching_engine_handlers_witness:
  "\<exists>base r'. register_matching_engine 42 registry_new = Inr (base, r')
     \<and> rr_get (get_rhandler base mp_tag_only) r'
         = Inr \<lparr>re_type = rh_matching_engine, re_value = 42, re_metadata = 2\<rparr>"
proof -
  have "unat (rr_size registry_new) + 4 < 2 ^ 32" by (simp add: registry_new_def)
  from matching_engine_handlers [OF registry_new_inv this, of mp_tag_only 42] show ?thesis by auto
qed

text \<open>C33.  The archive of immediate-data tags hands out a tag whose slot was free, and fails only
  when no slot is free; removing the tag returns the value it was inserted with, exactly once, and
  leaves every other slot as it was.\<close>

theorem archive_roundtrip:
  assumes "archive_inv ar" "v \<noteq> empty_value" "empty_value \<in> set (ar_slots ar)"
  shows "\<exists>tag ar' ar''. archive_insert v ar = Inr (tag, ar') \<and> tag < ar_size ar
       \<and> ar_slots ar ! unat tag = empty_value \<and> archive_remove tag ar' = Inr (v, ar'')
       \<and> ar_slots ar'' = ar_slots ar \<and> archive_remove tag ar'' = Inl Assert_failed
       \<and> (\<forall>t. t \<noteq> tag \<longrightarrow> archive_peek t ar' = archive_peek t ar)"
proof -
  obtain tag ar' where i: "archive_insert v ar = Inr (tag, ar')" "tag < ar_size ar" "unat tag < length (ar_slots ar)"
      "ar_slots ar ! unat tag = empty_value" "ar_slots ar' = (ar_slots ar)[unat tag := v]"
      "archive_inv ar'" "ar_size ar' = ar_size ar"
    using archive_insert_spec [OF assms(1,2)] assms(3) by blast
  let ?ar = "ar'\<lparr>ar_slots := ar_slots ar\<rparr>"
  have "(ar_slots ar)[unat tag := empty_value] = ar_slots ar"
    using i(4) by (metis list_update_id)
  then have "archive_remove tag ar' = Inr (v, ?ar)"
    using i(2,3,5,7) assms(2) by (simp add: archive_remove_def Let_def)
  moreover have "archive_remove tag ?ar = Inl Assert_failed"
    using i(2,4,7) by (simp add: archive_remove_def Let_def)
  moreover have "archive_peek t ar' = archive_peek t ar" if "t \<noteq> tag" for t
  proof -
    have "unat t \<noteq> unat tag" using that by (simp add: word_unat_eq_iff)
    then show ?thesis by (simp add: archive_peek_def i(5,7))
  qed
  ultimately show ?thesis using i(1,2,4) by force
qed

theorem archive_roundtrip_witness:
  "\<exists>ar tag ar' ar''. archive_new 2 = Inr ar \<and> archive_insert 99 ar = Inr (tag, ar')
     \<and> archive_remove tag ar' = Inr (99, ar'')"
proof -
  let ?ar = "\<lparr>ar_tag_bits = 2, ar_size = 4, ar_mask = 3, ar_slots = replicate 4 empty_value, ar_next_slot = 0\<rparr>"
  have n: "archive_new 2 = Inr ?ar" by (simp add: archive_new_def Let_def)
  have "archive_inv ?ar" by (simp add: archive_inv_def mask_eq_exp_minus_1)
  moreover have "(99::u64) \<noteq> empty_value" by (simp add: empty_value_def)
  ultimately show ?thesis
    using archive_roundtrip [of ?ar 99] n by auto
qed

text \<open>C16.  A reader of the growable array takes no lock, and yet never reads past the end of the
  array whose pointer it loaded, in every interleaving with a writer that grows the array: the
  pointer is published before the length.\<close>

theorem readers_in_bounds:
  assumes "array_reach n k s" "r < length (readers s)" "readers s ! r = Rd_element p idx"
  shows "p < length (sizes s) \<and> idx < sizes s ! p"
proof -
  have "reader_ok s (Rd_element p idx)"
    using sys_reach_inv [OF assms(1)] assms(2,3) by (metis nth_mem sys_inv_def)
  then show ?thesis by simp
qed

theorem readers_in_bounds_witness:
  "\<exists>s. array_reach 4 1 s \<and> readers s ! 0 = Rd_element 1 3 \<and> 3 < sizes s ! 1"
proof -
  let ?s0 = "array_sys_init 4 1"
  let ?s1 = "?s0\<lparr>readers := [Rd_in_range 3]\<rparr>"
  let ?s2 = "?s1\<lparr>sizes := [4, 10], cur_ptr := 1, wr := Wr_published 10\<rparr>"
  let ?s3 = "?s2\<lparr>readers := [Rd_element 1 3]\<rparr>"
  have "array_step ?s0 ?s1" "array_step ?s1 ?s2" "array_step ?s2 ?s3"
    using load_length [of 0 ?s0 3] publish_ptr [of ?s1 10] load_ptr [of 0 ?s2 3]
    by (simp_all add: array_sys_init_def)
  then have "array_reach 4 1 ?s3" by (meson array_reach.init array_reach.step)
  from readers_in_bounds [OF this, of 0 1 3] this show ?thesis
    by (intro exI [of _ ?s3]) simp
qed

end
