(* ===== verification/LCI_Backlog.thy ===== *)
theory LCI_Backlog
  imports LCI_Prelude
begin

text \<open>
  The endpoint layer: the seven post operations of \<^verbatim>\<open>src/network/endpoint_inline.hpp\<close> and the backlog
  queue of \<^verbatim>\<open>src/backlog_queue\<close> that holds the operations the network could not take.  The network
  backend is an interface (a locale); its instances are in the backend theories.  The theory shows
  that operations of one peer reach the network in the order in which they were accepted, that
  an operation that must not be retried is never refused, and what the fallback for networks
  without put-with-immediate does.
\<close>

section \<open>Requests\<close>

datatype backlog_op_t = op_sends | op_send | op_puts | op_put | op_putImms | op_putImm | op_get

text \<open>The operations whose source buffer is copied by the call itself: they complete at once.\<close>

fun is_short :: "backlog_op_t \<Rightarrow> bool" where
  "is_short op_sends = True"
| "is_short op_puts = True"
| "is_short op_putImms = True"
| "is_short _ = False"

text \<open>A buffer is the bytes it has at the time of the call for the short operations (the network or
  the backlog queue copies them then) and an address for the others.  The context of a request is
  an internal context or an extended one, which carries the immediate data to send later.\<close>

datatype buf = Bytes "u8 list" | At addr

datatype net_ctx = No_ctx | Ctx addr | Ectx addr int net_imm_data_t

record net_req =
  rq_op :: backlog_op_t
  rq_rank :: int
  rq_buf :: buf
  rq_size :: nat
  rq_mr :: addr
  rq_offset :: u64
  rq_rmr :: rmr_t
  rq_imm :: net_imm_data_t
  rq_ctx :: net_ctx

text \<open>The backend answers the \<open>n\<close>-th request posted to it.\<close>

type_synonym backend = "net_req \<Rightarrow> bool \<Rightarrow> nat \<Rightarrow> errorcode_t res"

section \<open>The endpoint\<close>

text \<open>\<^verbatim>\<open>backlog_queue_t\<close> and the fields of \<^verbatim>\<open>endpoint_impl_t\<close> that the operations use.  \<open>ep_posted\<close> is the
  history of the requests that the network has accepted.  A short operation through the backlog
  owns a copy of its bytes, which \<^verbatim>\<open>progress\<close> frees.\<close>

record endpoint_t =
  bq_queue :: "net_req list"
  bq_empty :: bool
  bq_nentries :: "nat list"
  bq_lock :: bool
  ep_calls :: nat
  ep_posted :: "net_req list"
  ep_support_putimm :: bool
  ep_pending_ops :: int

definition endpoint_new :: "nat \<Rightarrow> bool \<Rightarrow> endpoint_t" where
  "endpoint_new nranks support_putimm =
     \<lparr>bq_queue = [], bq_empty = True, bq_nentries = replicate nranks 0, bq_lock = False,
      ep_calls = 0, ep_posted = [], ep_support_putimm = support_putimm, ep_pending_ops = 0\<rparr>"

text \<open>\<^verbatim>\<open>nentries_per_rank\<close> is indexed by a C \<^verbatim>\<open>int\<close> without a check.\<close>

definition rank_ok :: "endpoint_t \<Rightarrow> int \<Rightarrow> bool" where
  "rank_ok ep rank \<longleftrightarrow> 0 \<le> rank \<and> rank < int (length (bq_nentries ep))"

definition is_empty_rank :: "int \<Rightarrow> endpoint_t \<Rightarrow> bool res" where
  "is_empty_rank rank ep =
     (if rank_ok ep rank then Inr (bq_nentries ep ! nat rank = 0) else Inl Undefined_behaviour)"

definition bump :: "int \<Rightarrow> (nat \<Rightarrow> nat) \<Rightarrow> endpoint_t \<Rightarrow> endpoint_t res" where
  "bump rank f ep =
     (if rank_ok ep rank
      then Inr (ep\<lparr>bq_nentries := (bq_nentries ep)[nat rank := f (bq_nentries ep ! nat rank)]\<rparr>)
      else Inl Undefined_behaviour)"

text \<open>The seven \<^verbatim>\<open>push_\<close> functions differ in the fields they fill; the queue operation is the same.
  The spin lock is not recursive.\<close>

definition bq_push :: "net_req \<Rightarrow> endpoint_t \<Rightarrow> endpoint_t res" where
  "bq_push rq ep =
     bindR (bump (rq_rank rq) (\<lambda>n. n + 1) ep) (\<lambda>ep.
     if bq_lock ep then Inl Deadlock
     else Inr (ep\<lparr>bq_queue := bq_queue ep @ [rq], bq_empty := False\<rparr>))"

definition mk_sends :: "int \<Rightarrow> u8 list \<Rightarrow> net_imm_data_t \<Rightarrow> net_ctx \<Rightarrow> net_req" where
  "mk_sends rank bs imm ctx = \<lparr>rq_op = op_sends, rq_rank = rank, rq_buf = Bytes bs, rq_size = length bs,
     rq_mr = 0, rq_offset = 0, rq_rmr = rmr_empty, rq_imm = imm, rq_ctx = ctx\<rparr>"

definition mk_send :: "int \<Rightarrow> addr \<Rightarrow> nat \<Rightarrow> addr \<Rightarrow> net_imm_data_t \<Rightarrow> net_ctx \<Rightarrow> net_req" where
  "mk_send rank b sz mr imm ctx = \<lparr>rq_op = op_send, rq_rank = rank, rq_buf = At b, rq_size = sz,
     rq_mr = mr, rq_offset = 0, rq_rmr = rmr_empty, rq_imm = imm, rq_ctx = ctx\<rparr>"

definition mk_puts :: "int \<Rightarrow> u8 list \<Rightarrow> u64 \<Rightarrow> rmr_t \<Rightarrow> net_ctx \<Rightarrow> net_req" where
  "mk_puts rank bs off rmr ctx = \<lparr>rq_op = op_puts, rq_rank = rank, rq_buf = Bytes bs, rq_size = length bs,
     rq_mr = 0, rq_offset = off, rq_rmr = rmr, rq_imm = 0, rq_ctx = ctx\<rparr>"

definition mk_put :: "int \<Rightarrow> addr \<Rightarrow> nat \<Rightarrow> addr \<Rightarrow> u64 \<Rightarrow> rmr_t \<Rightarrow> net_ctx \<Rightarrow> net_req" where
  "mk_put rank b sz mr off rmr ctx = \<lparr>rq_op = op_put, rq_rank = rank, rq_buf = At b, rq_size = sz,
     rq_mr = mr, rq_offset = off, rq_rmr = rmr, rq_imm = 0, rq_ctx = ctx\<rparr>"

definition mk_putImms :: "int \<Rightarrow> u8 list \<Rightarrow> u64 \<Rightarrow> rmr_t \<Rightarrow> net_imm_data_t \<Rightarrow> net_ctx \<Rightarrow> net_req" where
  "mk_putImms rank bs off rmr imm ctx = \<lparr>rq_op = op_putImms, rq_rank = rank, rq_buf = Bytes bs,
     rq_size = length bs, rq_mr = 0, rq_offset = off, rq_rmr = rmr, rq_imm = imm, rq_ctx = ctx\<rparr>"

definition mk_putImm :: "int \<Rightarrow> addr \<Rightarrow> nat \<Rightarrow> addr \<Rightarrow> u64 \<Rightarrow> rmr_t \<Rightarrow> net_imm_data_t \<Rightarrow> net_ctx \<Rightarrow> net_req" where
  "mk_putImm rank b sz mr off rmr imm ctx = \<lparr>rq_op = op_putImm, rq_rank = rank, rq_buf = At b, rq_size = sz,
     rq_mr = mr, rq_offset = off, rq_rmr = rmr, rq_imm = imm, rq_ctx = ctx\<rparr>"

definition mk_get :: "int \<Rightarrow> addr \<Rightarrow> nat \<Rightarrow> addr \<Rightarrow> u64 \<Rightarrow> rmr_t \<Rightarrow> net_ctx \<Rightarrow> net_req" where
  "mk_get rank b sz mr off rmr ctx = \<lparr>rq_op = op_get, rq_rank = rank, rq_buf = At b, rq_size = sz,
     rq_mr = mr, rq_offset = off, rq_rmr = rmr, rq_imm = 0, rq_ctx = ctx\<rparr>"

text \<open>The virtual \<^verbatim>\<open>post_*_impl\<close> functions of the backend.\<close>

definition post_impl :: "backend \<Rightarrow> net_req \<Rightarrow> bool \<Rightarrow> endpoint_t \<Rightarrow> (errorcode_t \<times> endpoint_t) res" where
  "post_impl backend rq high_priority ep =
     bindR (backend rq high_priority (ep_calls ep)) (\<lambda>e.
     let ep = ep\<lparr>ep_calls := ep_calls ep + 1\<rparr> in
     Inr (e, if is_retry e then ep else ep\<lparr>ep_posted := ep_posted ep @ [rq]\<rparr>))"

text \<open>The shape the seven wrappers share: refuse while the peer has operations in the backlog, try
  the network, and if that asks for a retry that the caller does not allow, queue the operation.\<close>

definition post_wrapper :: "(bool \<Rightarrow> endpoint_t \<Rightarrow> (errorcode_t \<times> endpoint_t) res) \<Rightarrow> net_req \<Rightarrow> errorcode_t
    \<Rightarrow> bool \<Rightarrow> bool \<Rightarrow> endpoint_t \<Rightarrow> (errorcode_t \<times> endpoint_t) res" where
  "post_wrapper impl rq backlog_code allow_retry force_post ep =
     bindR (if force_post then Inr True else is_empty_rank (rq_rank rq) ep) (\<lambda>go.
     bindR (if go then impl (\<not> allow_retry \<or> force_post) ep else Inr (ec_retry_backlog, ep)) (\<lambda>(e, ep).
     if is_retry e \<and> \<not> allow_retry
     then bindR (bq_push rq ep) (\<lambda>ep. Inr (backlog_code, ep))
     else Inr (e, ep)))"

definition post_sends :: "backend \<Rightarrow> net_req \<Rightarrow> bool \<Rightarrow> bool \<Rightarrow> endpoint_t \<Rightarrow> (errorcode_t \<times> endpoint_t) res" where
  "post_sends backend rq = post_wrapper (post_impl backend rq) rq ec_done_backlog"

definition post_send :: "backend \<Rightarrow> net_req \<Rightarrow> bool \<Rightarrow> bool \<Rightarrow> endpoint_t \<Rightarrow> (errorcode_t \<times> endpoint_t) res" where
  "post_send backend rq = post_wrapper (post_impl backend rq) rq ec_posted_backlog"

definition post_puts :: "backend \<Rightarrow> net_req \<Rightarrow> bool \<Rightarrow> bool \<Rightarrow> endpoint_t \<Rightarrow> (errorcode_t \<times> endpoint_t) res" where
  "post_puts backend rq = post_wrapper (post_impl backend rq) rq ec_done_backlog"

definition post_put :: "backend \<Rightarrow> net_req \<Rightarrow> bool \<Rightarrow> bool \<Rightarrow> endpoint_t \<Rightarrow> (errorcode_t \<times> endpoint_t) res" where
  "post_put backend rq = post_wrapper (post_impl backend rq) rq ec_posted_backlog"

definition post_get :: "backend \<Rightarrow> net_req \<Rightarrow> bool \<Rightarrow> bool \<Rightarrow> endpoint_t \<Rightarrow> (errorcode_t \<times> endpoint_t) res" where
  "post_get backend rq = post_wrapper (post_impl backend rq) rq ec_posted_backlog"

text \<open>A network without put-with-immediate: a short put is followed by an empty send that carries
  the immediate data and must not be retried; a long put carries it in an extended context, from
  which it is sent when the put completes.\<close>

definition post_putImms_fallback :: "backend \<Rightarrow> net_req \<Rightarrow> bool \<Rightarrow> endpoint_t \<Rightarrow> (errorcode_t \<times> endpoint_t) res" where
  "post_putImms_fallback backend rq high_priority ep =
     bindR (post_impl backend (rq\<lparr>rq_op := op_puts, rq_imm := 0\<rparr>) high_priority ep) (\<lambda>(e, ep).
     if is_retry e then Inr (e, ep)
     else
       bindR (lci_assert (is_done e)) (\<lambda>_.
       bindR (post_sends backend (mk_sends (rq_rank rq) [] (rq_imm rq) No_ctx) False False ep) (\<lambda>(e2, ep).
       bindR (lci_assert (is_done e2)) (\<lambda>_. Inr (e, ep)))))"

definition post_putImms :: "backend \<Rightarrow> net_req \<Rightarrow> bool \<Rightarrow> bool \<Rightarrow> endpoint_t \<Rightarrow> (errorcode_t \<times> endpoint_t) res" where
  "post_putImms backend rq =
     post_wrapper (\<lambda>hp ep. if ep_support_putimm ep then post_impl backend rq hp ep
                           else post_putImms_fallback backend rq hp ep) rq ec_done_backlog"

fun ctx_addr :: "net_ctx \<Rightarrow> addr" where
  "ctx_addr No_ctx = 0"
| "ctx_addr (Ctx a) = a"
| "ctx_addr (Ectx a _ _) = a"

definition post_putImm_fallback :: "backend \<Rightarrow> net_req \<Rightarrow> endpoint_t \<Rightarrow> (errorcode_t \<times> endpoint_t) res" where
  "post_putImm_fallback backend rq ep =
     post_impl backend (rq\<lparr>rq_op := op_put, rq_imm := 0,
        rq_ctx := Ectx (ctx_addr (rq_ctx rq)) (rq_rank rq) (rq_imm rq)\<rparr>) True ep"

definition post_putImm :: "backend \<Rightarrow> net_req \<Rightarrow> bool \<Rightarrow> bool \<Rightarrow> endpoint_t \<Rightarrow> (errorcode_t \<times> endpoint_t) res" where
  "post_putImm backend rq =
     post_wrapper (\<lambda>hp ep. if ep_support_putimm ep then post_impl backend rq hp ep
                           else post_putImm_fallback backend rq ep) rq ec_posted_backlog"

text \<open>The \<^verbatim>\<open>switch\<close> of \<^verbatim>\<open>backlog_queue_t::progress\<close>; callers of the layer above make the same choice
  statically.\<close>

definition post_req :: "backend \<Rightarrow> net_req \<Rightarrow> bool \<Rightarrow> bool \<Rightarrow> endpoint_t \<Rightarrow> (errorcode_t \<times> endpoint_t) res" where
  "post_req backend rq allow_retry force_post ep =
     (case rq_op rq of
        op_sends \<Rightarrow> post_sends backend rq allow_retry force_post ep
      | op_send \<Rightarrow> post_send backend rq allow_retry force_post ep
      | op_puts \<Rightarrow> post_puts backend rq allow_retry force_post ep
      | op_put \<Rightarrow> post_put backend rq allow_retry force_post ep
      | op_putImms \<Rightarrow> post_putImms backend rq allow_retry force_post ep
      | op_putImm \<Rightarrow> post_putImm backend rq allow_retry force_post ep
      | op_get \<Rightarrow> post_get backend rq allow_retry force_post ep)"

text \<open>\<open>locked\<close> is the result of the \<^verbatim>\<open>try_lock\<close>: false when another thread holds the lock.\<close>

definition bq_progress :: "backend \<Rightarrow> bool \<Rightarrow> endpoint_t \<Rightarrow> (bool \<times> endpoint_t) res" where
  "bq_progress backend locked ep =
     (if bq_empty ep \<or> \<not> locked \<or> bq_lock ep then Inr (False, ep)
      else
        let ep = ep\<lparr>bq_lock := True\<rparr> in
        case bq_queue ep of
          [] \<Rightarrow> Inr (False, ep\<lparr>bq_empty := True, bq_lock := False\<rparr>)
        | entry # _ \<Rightarrow>
            bindR (post_req backend entry True True ep) (\<lambda>(e, ep).
            if \<not> is_retry e then
              let q = tl (bq_queue ep);
                  ep = ep\<lparr>bq_queue := q, bq_empty := (if q = [] then True else bq_empty ep), bq_lock := False\<rparr>
              in bindR (bump (rq_rank entry) (\<lambda>n. n - 1) ep) (\<lambda>ep. Inr (True, ep))
            else Inr (False, ep\<lparr>bq_lock := False\<rparr>)))"

definition add_pending_ops :: "int \<Rightarrow> endpoint_t \<Rightarrow> endpoint_t" where
  "add_pending_ops n ep = ep\<lparr>ep_pending_ops := ep_pending_ops ep + n\<rparr>"

definition sub_pending_ops :: "int \<Rightarrow> endpoint_t \<Rightarrow> endpoint_t" where
  "sub_pending_ops n ep = ep\<lparr>ep_pending_ops := ep_pending_ops ep - n\<rparr>"

section \<open>The invariant of the backlog\<close>

definition for_rank :: "int \<Rightarrow> net_req list \<Rightarrow> net_req list" where
  "for_rank r = filter (\<lambda>q. rq_rank q = r)"

lemma for_rank_simps [simp]:
  "for_rank r [] = []"
  "for_rank r (q # qs) = (if rq_rank q = r then q # for_rank r qs else for_rank r qs)"
  "for_rank r (xs @ ys) = for_rank r xs @ for_rank r ys"
  by (simp_all add: for_rank_def)

definition ep_inv :: "endpoint_t \<Rightarrow> bool" where
  "ep_inv ep \<longleftrightarrow> \<not> bq_lock ep \<and> (bq_empty ep \<longleftrightarrow> bq_queue ep = [])
     \<and> (\<forall>q\<in>set (bq_queue ep). rank_ok ep (rq_rank q))
     \<and> (\<forall>r<length (bq_nentries ep). bq_nentries ep ! r = length (for_rank (int r) (bq_queue ep)))"

lemma endpoint_new_inv: "ep_inv (endpoint_new n b)"
  by (simp add: ep_inv_def endpoint_new_def)

lemma is_empty_rank_iff:
  assumes "ep_inv ep" "rank_ok ep r"
  shows "is_empty_rank r ep = Inr (for_rank r (bq_queue ep) = [])"
proof -
  have "nat r < length (bq_nentries ep)" "int (nat r) = r" using assms(2) by (auto simp: rank_ok_def)
  then have "bq_nentries ep ! nat r = length (for_rank r (bq_queue ep))"
    using assms(1) unfolding ep_inv_def by metis
  then show ?thesis using assms(2) by (simp add: is_empty_rank_def)
qed

lemma bq_push_spec:
  assumes "ep_inv ep" "rank_ok ep (rq_rank rq)"
  shows "\<exists>n. bq_push rq ep = Inr (ep\<lparr>bq_nentries := n, bq_queue := bq_queue ep @ [rq], bq_empty := False\<rparr>)
       \<and> ep_inv (ep\<lparr>bq_nentries := n, bq_queue := bq_queue ep @ [rq], bq_empty := False\<rparr>)
       \<and> length n = length (bq_nentries ep)"
proof -
  let ?r = "nat (rq_rank rq)"
  let ?n = "(bq_nentries ep)[?r := bq_nentries ep ! ?r + 1]"
  have r: "?r < length (bq_nentries ep)" "int ?r = rq_rank rq"
    using assms(2) by (auto simp: rank_ok_def)
  have "?n ! i = length (for_rank (int i) (bq_queue ep @ [rq]))" if "i < length ?n" for i
    using assms(1) that r by (cases "i = ?r") (auto simp: ep_inv_def)
  then have "ep_inv (ep\<lparr>bq_nentries := ?n, bq_queue := bq_queue ep @ [rq], bq_empty := False\<rparr>)"
    using assms by (auto simp: ep_inv_def rank_ok_def)
  moreover have "bq_push rq ep = Inr (ep\<lparr>bq_nentries := ?n, bq_queue := bq_queue ep @ [rq], bq_empty := False\<rparr>)"
    using assms by (simp add: bq_push_def bump_def ep_inv_def)
  ultimately show ?thesis by (intro exI [of _ ?n]) simp
qed

text \<open>With put-with-immediate supported, the seven operations are one.\<close>

definition backlog_code :: "backlog_op_t \<Rightarrow> errorcode_t" where
  "backlog_code op = (if is_short op then ec_done_backlog else ec_posted_backlog)"

lemma post_wrapper_cong:
  assumes "\<And>hp. impl hp ep = impl' hp ep"
  shows "post_wrapper impl rq c a f ep = post_wrapper impl' rq c a f ep"
  by (simp add: post_wrapper_def assms cong: if_cong)

lemma post_req_supported:
  assumes "ep_support_putimm ep"
  shows "post_req backend rq a f ep = post_wrapper (post_impl backend rq) rq (backlog_code (rq_op rq)) a f ep"
proof -
  have "post_wrapper (\<lambda>hp ep. if ep_support_putimm ep then post_impl backend rq hp ep
          else post_putImms_fallback backend rq hp ep) rq c a f ep = post_wrapper (post_impl backend rq) rq c a f ep"
      "post_wrapper (\<lambda>hp ep. if ep_support_putimm ep then post_impl backend rq hp ep
          else post_putImm_fallback backend rq ep) rq c a f ep = post_wrapper (post_impl backend rq) rq c a f ep" for c
    using assms by (auto intro: post_wrapper_cong)
  then show ?thesis
    by (cases "rq_op rq")
      (simp_all add: post_req_def post_sends_def post_send_def post_puts_def post_put_def post_get_def
        post_putImms_def post_putImm_def backlog_code_def)
qed

section \<open>The contract of a backend\<close>

text \<open>A short operation is done or is to be retried; another one is posted or is to be retried.
  The seven \<^verbatim>\<open>post_*_impl\<close> of every backend promise this.\<close>

locale net_backend =
  fixes backend :: backend
  assumes category: "backend rq hp n = Inr e \<Longrightarrow>
    is_retry e \<or> (if is_short (rq_op rq) then is_done e else is_posted e)"
begin

lemma post_wrapper_spec:
  assumes inv: "ep_inv ep" and r: "rank_ok ep (rq_rank rq)"
    and p: "post_wrapper (post_impl backend rq) rq (backlog_code (rq_op rq)) a False ep = Inr (e, ep')"
  shows "ep_inv ep' \<and> length (bq_nentries ep') = length (bq_nentries ep)
       \<and> ep_support_putimm ep' = ep_support_putimm ep
       \<and> (if is_retry e then a \<and> ep_posted ep' = ep_posted ep \<and> bq_queue ep' = bq_queue ep
          else (if is_short (rq_op rq) then is_done e else is_posted e)
            \<and> (\<forall>x. for_rank x (ep_posted ep' @ bq_queue ep')
                 = for_rank x (ep_posted ep @ bq_queue ep) @ for_rank x [rq]))"
proof -
  obtain go where go: "is_empty_rank (rq_rank rq) ep = Inr go" "go \<longleftrightarrow> for_rank (rq_rank rq) (bq_queue ep) = []"
    using is_empty_rank_iff [OF inv r] by simp
  obtain e1 ep1 where e1: "(if go then post_impl backend rq (\<not> a \<or> False) ep else Inr (ec_retry_backlog, ep)) = Inr (e1, ep1)"
      and rest: "(if is_retry e1 \<and> \<not> a then bindR (bq_push rq ep1) (\<lambda>ep. Inr (backlog_code (rq_op rq), ep))
        else Inr (e1, ep1)) = Inr (e, ep')"
    using p go(1) by (auto simp: post_wrapper_def bindR_Inr_iff)
  have same: "ep1 = ep\<lparr>ep_calls := ep_calls ep1, ep_posted := ep_posted ep1\<rparr>"
    using e1 by (auto simp: post_impl_def bindR_Inr_iff Let_def split: if_splits)
  have inv1: "ep_inv ep1" and r1: "rank_ok ep1 (rq_rank rq)"
    using inv r by (subst same; simp add: ep_inv_def rank_ok_def)+
  have q1: "bq_queue ep1 = bq_queue ep" "bq_nentries ep1 = bq_nentries ep" "ep_support_putimm ep1 = ep_support_putimm ep"
    by (subst same; simp)+
  show ?thesis
  proof (cases "is_retry e1")
    case True
    then have p1: "ep_posted ep1 = ep_posted ep"
      using e1 by (auto simp: post_impl_def bindR_Inr_iff Let_def split: if_splits)
    show ?thesis
    proof (cases a)
      case True
      with \<open>is_retry e1\<close> rest have "e = e1" "ep' = ep1" by auto
      with \<open>is_retry e1\<close> True inv1 p1 q1 show ?thesis by simp
    next
      case False
      obtain n where n: "bq_push rq ep1 = Inr (ep1\<lparr>bq_nentries := n, bq_queue := bq_queue ep1 @ [rq], bq_empty := False\<rparr>)"
          "ep_inv (ep1\<lparr>bq_nentries := n, bq_queue := bq_queue ep1 @ [rq], bq_empty := False\<rparr>)"
          "length n = length (bq_nentries ep1)"
        using bq_push_spec [OF inv1 r1] by blast
      with rest False \<open>is_retry e1\<close> have "e = backlog_code (rq_op rq)"
          "ep' = ep1\<lparr>bq_nentries := n, bq_queue := bq_queue ep1 @ [rq], bq_empty := False\<rparr>"
        by auto
      with n(2,3) p1 q1 show ?thesis
        by (auto simp: backlog_code_def ec_category)
    qed
  next
    case False
    then have go': "go" using e1 by (auto simp: ec_category split: if_splits)
    with e1 False have post: "ep_posted ep1 = ep_posted ep @ [rq]" "backend rq (\<not> a) (ep_calls ep) = Inr e1"
      by (auto simp: post_impl_def bindR_Inr_iff Let_def)
    have "for_rank x (ep_posted ep1 @ bq_queue ep1) = for_rank x (ep_posted ep @ bq_queue ep) @ for_rank x [rq]" for x
      using go(2) go' post(1) q1 by auto
    with False rest category [OF post(2)] inv1 q1 show ?thesis by auto
  qed
qed

lemma progress_spec:
  assumes inv: "ep_inv ep" and sup: "ep_support_putimm ep"
    and p: "bq_progress backend locked ep = Inr (b, ep')"
  shows "ep_inv ep' \<and> ep_support_putimm ep' \<and> length (bq_nentries ep') = length (bq_nentries ep)
       \<and> ep_posted ep' @ bq_queue ep' = ep_posted ep @ bq_queue ep
       \<and> (if b then bq_queue ep \<noteq> [] \<and> bq_queue ep' = tl (bq_queue ep) else bq_queue ep' = bq_queue ep)"
proof (cases "bq_empty ep \<or> \<not> locked")
  case True
  then have "b = False" "ep' = ep" using p by (auto simp: bq_progress_def)
  with inv sup show ?thesis by simp
next
  case False
  with inv obtain q qs where q: "bq_queue ep = q # qs" and nl: "\<not> bq_lock ep"
    by (auto simp: ep_inv_def neq_Nil_conv)
  let ?ep0 = "ep\<lparr>bq_lock := True\<rparr>"
  have sup0: "ep_support_putimm ?ep0" using sup by simp
  obtain e ep1 where e: "post_req backend q True True ?ep0 = Inr (e, ep1)"
      and rest: "(if \<not> is_retry e then
              let q' = tl (bq_queue ep1);
                  ep = ep1\<lparr>bq_queue := q', bq_empty := (if q' = [] then True else bq_empty ep1), bq_lock := False\<rparr>
              in bindR (bump (rq_rank q) (\<lambda>n. n - 1) ep) (\<lambda>ep. Inr (True, ep))
            else Inr (False, ep1\<lparr>bq_lock := False\<rparr>)) = Inr (b, ep')"
    using p False nl q by (auto simp: bq_progress_def Let_def bindR_Inr_iff)
  have pi: "post_impl backend q True ?ep0 = Inr (e, ep1)"
    using e unfolding post_req_supported [OF sup0]
    by (auto simp: post_wrapper_def bindR_Inr_iff split: if_splits)
  have same: "ep1 = ?ep0\<lparr>ep_calls := ep_calls ep1, ep_posted := ep_posted ep1\<rparr>"
    using pi by (auto simp: post_impl_def bindR_Inr_iff Let_def split: if_splits)
  have flds: "bq_queue ep1 = q # qs" "bq_empty ep1 = bq_empty ep" "bq_nentries ep1 = bq_nentries ep"
      "ep_support_putimm ep1 = ep_support_putimm ep"
    by (subst same, simp add: q)+
  show ?thesis
  proof (cases "is_retry e")
    case True
    then have "ep_posted ep1 = ep_posted ep"
      using pi by (auto simp: post_impl_def bindR_Inr_iff Let_def)
    moreover have "b = False" "ep' = ep1\<lparr>bq_lock := False\<rparr>" using rest True by auto
    ultimately show ?thesis using inv sup nl q
      by (simp add: ep_inv_def rank_ok_def flds)
  next
    case False
    then have post: "ep_posted ep1 = ep_posted ep @ [q]"
      using pi by (auto simp: post_impl_def bindR_Inr_iff Let_def)
    let ?r = "nat (rq_rank q)"
    let ?n = "(bq_nentries ep)[?r := bq_nentries ep ! ?r - 1]"
    have r: "rank_ok ep (rq_rank q)" using inv q by (simp add: ep_inv_def)
    then have r': "?r < length (bq_nentries ep)" "int ?r = rq_rank q" by (auto simp: rank_ok_def)
    have b: "b" and ep': "ep' = ep1\<lparr>bq_queue := qs, bq_empty := (if qs = [] then True else bq_empty ep), bq_lock := False,
        bq_nentries := ?n\<rparr>"
      using rest False r flds by (auto simp: bump_def rank_ok_def Let_def split: if_splits)
    have "?n ! i = length (for_rank (int i) qs)" if "i < length ?n" for i
      using inv that r' q by (cases "i = ?r") (auto simp: ep_inv_def)
    then have "ep_inv ep'"
      using inv q unfolding ep' by (auto simp: ep_inv_def rank_ok_def flds)
    then show ?thesis
      using b sup post q flds unfolding ep' by simp
  qed
qed

end

text \<open>What has been accepted for a peer: posted to the network or waiting in the backlog.\<close>

definition ep_sent :: "int \<Rightarrow> endpoint_t \<Rightarrow> net_req list" where
  "ep_sent r ep = for_rank r (ep_posted ep @ bq_queue ep)"

text \<open>A backend that answers every request it can take: it does not run into a fatal error.  \<open>ok\<close> are
  the requests it can take.\<close>

locale live_backend = net_backend backend for backend :: backend +
  fixes ok :: "net_req \<Rightarrow> bool"
  assumes answers: "ok rq \<Longrightarrow> \<exists>e. backend rq hp n = Inr e"
begin

lemma post_accepted:
  assumes "ep_inv ep" "ep_support_putimm ep" "rank_ok ep (rq_rank rq)" "ok rq"
  shows "\<exists>e ep'. post_req backend rq False False ep = Inr (e, ep')
       \<and> (if is_short (rq_op rq) then is_done e else is_posted e)
       \<and> ep_inv ep' \<and> ep_support_putimm ep' \<and> length (bq_nentries ep') = length (bq_nentries ep)
       \<and> (\<forall>r. ep_sent r ep' = ep_sent r ep @ for_rank r [rq])
       \<and> ep_pending_ops ep' = ep_pending_ops ep"
proof -
  obtain e0 where e0: "backend rq True (ep_calls ep) = Inr e0" using answers [OF assms(4)] by blast
  obtain n where n: "bq_push rq ep = Inr (ep\<lparr>bq_nentries := n, bq_queue := bq_queue ep @ [rq], bq_empty := False\<rparr>)"
    using bq_push_spec [OF assms(1,3)] by blast
  obtain n' where n': "bq_push rq (ep\<lparr>ep_calls := Suc (ep_calls ep)\<rparr>)
      = Inr (ep\<lparr>ep_calls := Suc (ep_calls ep), bq_nentries := n', bq_queue := bq_queue ep @ [rq], bq_empty := False\<rparr>)"
    using bq_push_spec [of "ep\<lparr>ep_calls := Suc (ep_calls ep)\<rparr>" rq] assms(1,3) by (auto simp: ep_inv_def rank_ok_def)
  have "\<exists>e ep'. post_wrapper (post_impl backend rq) rq (backlog_code (rq_op rq)) False False ep = Inr (e, ep')
      \<and> ep_pending_ops ep' = ep_pending_ops ep"
    using e0 n n' by (auto simp: post_wrapper_def is_empty_rank_iff [OF assms(1,3)] post_impl_def Let_def ec_category)
  then obtain e ep' where p: "post_wrapper (post_impl backend rq) rq (backlog_code (rq_op rq)) False False ep = Inr (e, ep')"
      and pend: "ep_pending_ops ep' = ep_pending_ops ep" by blast
  from post_wrapper_spec [OF assms(1,3) p] p pend assms(2) show ?thesis
    by (intro exI [of _ e] exI [of _ ep']) (auto simp: post_req_supported [OF assms(2)] ep_sent_def split: if_splits)
qed

end

section \<open>Properties\<close>

text \<open>The life of an endpoint: requests by the layer above, interleaved with calls of \<^verbatim>\<open>progress\<close>.  The
  result collects the requests that were not answered with a retry, in the order of the calls.\<close>

datatype ep_call = Call_post net_req bool | Call_progress bool

fun run_ep :: "backend \<Rightarrow> endpoint_t \<Rightarrow> ep_call list \<Rightarrow> (net_req list \<times> endpoint_t) res" where
  "run_ep backend ep [] = Inr ([], ep)"
| "run_ep backend ep (Call_post rq allow_retry # cs) =
     bindR (post_req backend rq allow_retry False ep) (\<lambda>(e, ep).
     bindR (run_ep backend ep cs) (\<lambda>(acc, ep).
     Inr (if is_retry e then acc else rq # acc, ep)))"
| "run_ep backend ep (Call_progress locked # cs) =
     bindR (bq_progress backend locked ep) (\<lambda>(_, ep). run_ep backend ep cs)"

lemma run_ep_order:
  assumes "net_backend backend" "ep_inv ep" "ep_support_putimm ep"
    and "\<forall>rq a. Call_post rq a \<in> set cs \<longrightarrow> rank_ok ep (rq_rank rq)"
    and "run_ep backend ep cs = Inr (acc, ep')"
  shows "ep_inv ep' \<and> for_rank r (ep_posted ep' @ bq_queue ep')
           = for_rank r (ep_posted ep @ bq_queue ep) @ for_rank r acc"
  using assms(2-)
proof (induction cs arbitrary: ep acc)
  case (Cons c cs)
  show ?case
  proof (cases c)
    case (Call_post rq a)
    obtain e ep1 acc1 where p: "post_req backend rq a False ep = Inr (e, ep1)"
        and r: "run_ep backend ep1 cs = Inr (acc1, ep')" and acc: "acc = (if is_retry e then acc1 else rq # acc1)"
      using Cons.prems(4) Call_post by (auto simp: bindR_Inr_iff split: if_splits)
    have ro: "rank_ok ep (rq_rank rq)" using Cons.prems(3) Call_post by auto
    note sp = net_backend.post_wrapper_spec [OF assms(1) Cons.prems(1) ro
        p [unfolded post_req_supported [OF Cons.prems(2)]]]
    have "\<forall>rq a. Call_post rq a \<in> set cs \<longrightarrow> rank_ok ep1 (rq_rank rq)"
      using Cons.prems(3) sp by (auto simp: rank_ok_def)
    with Cons.IH [OF _ _ this r] sp Cons.prems(2) acc show ?thesis by (auto split: if_splits)
  next
    case (Call_progress l)
    then obtain b ep1 where p: "bq_progress backend l ep = Inr (b, ep1)" and r: "run_ep backend ep1 cs = Inr (acc, ep')"
      using Cons.prems(4) by (auto simp: bindR_Inr_iff)
    note sp = net_backend.progress_spec [OF assms(1) Cons.prems(1,2) p]
    have "\<forall>rq a. Call_post rq a \<in> set cs \<longrightarrow> rank_ok ep1 (rq_rank rq)"
      using Cons.prems(3) sp by (auto simp: rank_ok_def)
    with Cons.IH [OF _ _ this r] sp show ?thesis by simp
  qed
qed simp

definition always_accept :: backend where
  "always_accept rq hp n = Inr (if is_short (rq_op rq) then ec_done else ec_posted)"

definition full_then_accept :: "nat \<Rightarrow> backend" where
  "full_then_accept k rq hp n = (if n < k then Inr ec_retry_nomem else always_accept rq hp n)"

lemma always_accept_backend: "net_backend always_accept"
  by unfold_locales (auto simp: always_accept_def ec_category)

lemma full_then_accept_backend: "net_backend (full_then_accept k)"
  by unfold_locales (auto simp: full_then_accept_def always_accept_def ec_category split: if_splits)



text \<open>C23.  An operation that must not be retried is never refused: with \<^verbatim>\<open>allow_retry\<close> false every post
  reports done for the short operations and posted for the others, whatever the network answers.
  With \<^verbatim>\<open>allow_retry\<close> true a retry leaves no trace of the operation.\<close>

theorem no_retry_if_disallowed:
  assumes "net_backend backend" "ep_inv ep" "ep_support_putimm ep" "rank_ok ep (rq_rank rq)"
    and "post_req backend rq allow_retry False ep = Inr (e, ep')"
  shows "(\<not> allow_retry \<longrightarrow> (if is_short (rq_op rq) then is_done e else is_posted e))
       \<and> (is_retry e \<longrightarrow> ep_posted ep' = ep_posted ep \<and> bq_queue ep' = bq_queue ep)"
  using net_backend.post_wrapper_spec [OF assms(1,2,4) assms(5) [unfolded post_req_supported [OF assms(3)]]]
  by (auto split: if_splits)

theorem no_retry_if_disallowed_witness:
  "\<exists>e ep'. post_req (full_then_accept 5) (mk_send 0 16 8 3 0 (Ctx 9)) False False (endpoint_new 1 True) = Inr (e, ep')
     \<and> is_posted e"
proof -
  let ?ep = "endpoint_new 1 True" and ?rq = "mk_send 0 16 8 3 0 (Ctx 9)"
  have ro: "rank_ok ?ep (rq_rank ?rq)" and sup: "ep_support_putimm ?ep"
    by (simp_all add: rank_ok_def endpoint_new_def mk_send_def)
  obtain e ep' where r: "post_req (full_then_accept 5) ?rq False False ?ep = Inr (e, ep')"
    by (simp add: post_req_def post_send_def post_wrapper_def post_impl_def is_empty_rank_def rank_ok_def
        endpoint_new_def mk_send_def full_then_accept_def bq_push_def bump_def ec_category)
  from no_retry_if_disallowed [OF full_then_accept_backend endpoint_new_inv sup ro r] r show ?thesis
    by (auto simp: mk_send_def)
qed

text \<open>The loop of \<^verbatim>\<open>progress_x\<close> over one endpoint: progress the backlog until it reports no progress.
  Running out of fuel is \<^const>\<open>None\<close>.\<close>

fun progress_backlog :: "nat \<Rightarrow> backend \<Rightarrow> endpoint_t \<Rightarrow> endpoint_t option res" where
  "progress_backlog 0 backend ep = Inr None"
| "progress_backlog (Suc fuel) backend ep =
     bindR (bq_progress backend True ep) (\<lambda>(b, ep).
     if b then progress_backlog fuel backend ep else Inr (Some ep))"

lemma progress_accepts:
  assumes "ep_inv ep" "ep_support_putimm ep" "bq_queue ep \<noteq> []"
    and acc: "\<And>rq hp n. \<exists>e. backend rq hp n = Inr e \<and> \<not> is_retry e"
  shows "\<exists>ep'. bq_progress backend True ep = Inr (True, ep')"
proof -
  obtain q qs where q: "bq_queue ep = q # qs" using assms(3) by (auto simp: neq_Nil_conv)
  have c: "\<not> bq_empty ep" "\<not> bq_lock ep" "rank_ok ep (rq_rank q)"
    using assms(1) q by (auto simp: ep_inv_def)
  let ?ep = "ep\<lparr>bq_lock := True\<rparr>"
  obtain e where e: "backend q True (ep_calls ?ep) = Inr e" "\<not> is_retry e" using acc by blast
  have sup: "ep_support_putimm ?ep" using assms(2) by simp
  have "post_req backend q True True ?ep
      = Inr (e, ?ep\<lparr>ep_calls := ep_calls ep + 1, ep_posted := ep_posted ep @ [q]\<rparr>)"
    unfolding post_req_supported [OF sup] using e by (simp add: post_wrapper_def post_impl_def)
  then show ?thesis
    using c q e(2) by (simp add: bq_progress_def bump_def rank_ok_def Let_def)
qed

lemma progress_backlog_drains:
  assumes "net_backend backend" "ep_inv ep" "ep_support_putimm ep"
    and "\<And>rq hp n. \<exists>e. backend rq hp n = Inr e \<and> \<not> is_retry e"
  shows "\<exists>ep'. progress_backlog (Suc (length (bq_queue ep))) backend ep = Inr (Some ep')
       \<and> bq_queue ep' = [] \<and> ep_posted ep' = ep_posted ep @ bq_queue ep"
  using assms(2,3)
proof (induction "length (bq_queue ep)" arbitrary: ep)
  case 0
  then have "bq_progress backend True ep = Inr (False, ep)" by (simp add: bq_progress_def ep_inv_def)
  with 0 show ?case by simp
next
  case (Suc n)
  then have "bq_queue ep \<noteq> []" by auto
  from progress_accepts [OF Suc.prems this assms(4)] obtain ep1 where p: "bq_progress backend True ep = Inr (True, ep1)" ..
  note sp = net_backend.progress_spec [OF assms(1) Suc.prems p]
  then have "n = length (bq_queue ep1)" using Suc.hyps(2) by simp
  from Suc.hyps(1) [OF this] sp obtain ep' where
      e: "progress_backlog (Suc (length (bq_queue ep1))) backend ep1 = Inr (Some ep')" "bq_queue ep' = []"
        "ep_posted ep' = ep_posted ep1 @ bq_queue ep1" by auto
  have "length (bq_queue ep) = Suc (length (bq_queue ep1))" using \<open>n = length (bq_queue ep1)\<close> Suc.hyps(2) by simp
  moreover have "progress_backlog (Suc (length (bq_queue ep))) backend ep = progress_backlog (length (bq_queue ep)) backend ep1"
    by (simp add: p)
  ultimately have "progress_backlog (Suc (length (bq_queue ep))) backend ep = Inr (Some ep')"
    using e(1) by simp
  moreover have "ep_posted ep' = ep_posted ep @ bq_queue ep" using e(3) sp by metis
  ultimately show ?case using e(2) by blast
qed



text \<open>C35.  On a network without put-with-immediate, a short put-with-immediate that had to wait in
  the backlog deadlocks the thread that progresses it: \<^verbatim>\<open>progress\<close> holds the queue's spin lock while
  the fallback, after the put, posts the follow-up send; the send finds the peer's backlog not
  empty (its own entry is still there) and is pushed to the queue, which takes the lock again.\<close>

theorem putImms_fallback_deadlock:
  assumes "ep_inv ep" "\<not> ep_support_putimm ep" "bq_queue ep = rq # qs" "rq_op rq = op_putImms"
    and "backend (rq\<lparr>rq_op := op_puts, rq_imm := 0\<rparr>) True (ep_calls ep) = Inr ec_done"
  shows "bq_progress backend True ep = Inl Deadlock"
proof -
  let ?r = "rq_rank rq" and ?ep = "ep\<lparr>bq_lock := True\<rparr>"
  let ?ep1 = "?ep\<lparr>ep_calls := ep_calls ep + 1, ep_posted := ep_posted ep @ [rq\<lparr>rq_op := op_puts, rq_imm := 0\<rparr>]\<rparr>"
  have c: "\<not> bq_empty ep" "\<not> bq_lock ep" "rank_ok ep ?r"
    using assms(1,3) by (auto simp: ep_inv_def)
  have "is_empty_rank ?r ep = Inr False"
    using is_empty_rank_iff [OF assms(1) c(3)] assms(3) by simp
  then have ie: "is_empty_rank ?r ?ep1 = Inr False"
    by (simp add: is_empty_rank_def rank_ok_def split: if_splits)
  have ro: "rank_ok ?ep1 ?r" using c(3) by (simp add: rank_ok_def)
  have "post_sends backend (mk_sends ?r [] (rq_imm rq) No_ctx) False False ?ep1 = Inl Deadlock"
    using ie ro by (simp add: post_sends_def post_wrapper_def mk_sends_def bq_push_def bump_def ec_category)
  moreover have "post_impl backend (rq\<lparr>rq_op := op_puts, rq_imm := 0\<rparr>) True ?ep = Inr (ec_done, ?ep1)"
    using assms(5) by (simp add: post_impl_def ec_category)
  ultimately have "post_putImms_fallback backend rq True ?ep = Inl Deadlock"
    by (simp add: post_putImms_fallback_def ec_category)
  then have "post_req backend rq True True ?ep = Inl Deadlock"
    using assms(2,4) by (simp add: post_req_def post_putImms_def post_wrapper_def)
  with c assms(3) show ?thesis by (simp add: bq_progress_def)
qed

theorem putImms_fallback_deadlock_witness:
  "\<exists>ep. post_req (full_then_accept 1) (mk_putImms 0 [1] 0 rmr_empty 5 (Ctx 9)) False False (endpoint_new 1 False)
          = Inr (ec_done_backlog, ep)
     \<and> bq_progress (full_then_accept 1) True ep = Inl Deadlock"
proof -
  let ?rq = "mk_putImms 0 [1] 0 rmr_empty 5 (Ctx 9)" and ?ep0 = "endpoint_new 1 False\<lparr>ep_calls := 1\<rparr>"
  have inv: "ep_inv ?ep0" using endpoint_new_inv [of 1 False] by (simp add: ep_inv_def rank_ok_def)
  have ro: "rank_ok ?ep0 (rq_rank ?rq)" by (simp add: rank_ok_def endpoint_new_def mk_putImms_def)
  obtain n where n: "bq_push ?rq ?ep0 = Inr (?ep0\<lparr>bq_nentries := n, bq_queue := bq_queue ?ep0 @ [?rq], bq_empty := False\<rparr>)"
      "ep_inv (?ep0\<lparr>bq_nentries := n, bq_queue := bq_queue ?ep0 @ [?rq], bq_empty := False\<rparr>)"
    using bq_push_spec [OF inv ro] by blast
  let ?ep = "?ep0\<lparr>bq_nentries := n, bq_queue := bq_queue ?ep0 @ [?rq], bq_empty := False\<rparr>"
  have "post_req (full_then_accept 1) ?rq False False (endpoint_new 1 False) = Inr (ec_done_backlog, ?ep)"
    using n(1) by (simp add: post_req_def post_putImms_def post_wrapper_def post_putImms_fallback_def post_impl_def
        is_empty_rank_def rank_ok_def endpoint_new_def mk_putImms_def full_then_accept_def ec_category)
  moreover have "bq_progress (full_then_accept 1) True ?ep = Inl Deadlock"
    by (rule putImms_fallback_deadlock [OF n(2), of ?rq "[]"])
      (simp_all add: endpoint_new_def mk_putImms_def full_then_accept_def always_accept_def)
  ultimately show ?thesis by blast
qed

end
