(* ===== verification/LCI_OFI.thy ===== *)
theory LCI_OFI
  imports LCI_Backlog
begin

text \<open>
  The libfabric backend, \<^verbatim>\<open>src/network/ofi/backend_ofi_inline.hpp\<close>: what each post operation passes to
  libfabric, how it maps libfabric's answer to an error code, and how a completion entry becomes a
  network status.  Libfabric itself is a parameter: \<open>fi\<close> gives the value its \<open>n\<close>-th call returns.
  The theory shows that the backend meets the contract of the endpoint layer, that the rank and the
  immediate data of a message survive the 64-bit data word they are packed in, and that the context
  of an accepted operation is retired exactly once.
\<close>

section \<open>Calls to libfabric\<close>

datatype fi_fn = fi_sendmsg | fi_senddata | fi_writemsg | fi_inject_writedata | fi_writedata | fi_readmsg

datatype fi_flag = FI_INJECT | FI_COMPLETION | FI_DELIVERY_COMPLETE | FI_REMOTE_CQ_DATA
  | FI_RECV | FI_REMOTE_WRITE | FI_SEND | FI_WRITE | FI_READ

record fi_args =
  fa_fn :: fi_fn
  fa_buf :: buf
  fa_len :: nat
  fa_desc :: addr
  fa_dest :: u64
  fa_raddr :: u64
  fa_key :: u64
  fa_data :: u64
  fa_ctx :: net_ctx
  fa_flags :: "fi_flag list"

text \<open>The fields of \<^verbatim>\<open>ofi_endpoint_impl_t\<close> and of its device that the operations read.\<close>

record ofi_endpoint_t =
  oe_my_rank :: int
  oe_peer_addrs :: "u64 list"
  oe_mr_virt_addr :: bool
  oe_lock_mode :: u64
  oe_use_cxi_writedata :: bool

text \<open>Libfabric and the lock: the value the \<open>n\<close>-th call returns and the result of the \<open>n\<close>-th
  \<^verbatim>\<open>try_lock\<close>.\<close>

record fabric =
  fb_ret :: "fi_args \<Rightarrow> nat \<Rightarrow> int"
  fb_try_lock :: "nat \<Rightarrow> bool"

text \<open>What a post operation returns and does: the error code, the calls it makes, and the contexts
  it retires itself with \<^verbatim>\<open>free_ctx_and_signal_comp\<close>.\<close>

record ofi_out =
  oo_error :: errorcode_t
  oo_calls :: "fi_args list"
  oo_retired :: "net_ctx list"

definition NET_TRYLOCK_SEND :: u64 where "NET_TRYLOCK_SEND = 1"
definition NET_TRYLOCK_RECV :: u64 where "NET_TRYLOCK_RECV = 2"
definition NET_TRYLOCK_POLL :: u64 where "NET_TRYLOCK_POLL = 4"

definition FI_EAGAIN :: int where "FI_EAGAIN = 11"
definition FI_EAVAIL :: int where "FI_EAVAIL = 259"

definition cs_try_enter :: "u64 \<Rightarrow> u64 \<Rightarrow> bool \<Rightarrow> bool" where
  "cs_try_enter lock_mode mode try_lock \<longleftrightarrow> lock_mode AND mode = 0 \<or> try_lock"

text \<open>The end of every post operation: enter the critical section, call, leave, map the answer.\<close>

definition ofi_issue :: "ofi_endpoint_t \<Rightarrow> fabric \<Rightarrow> errorcode_t \<Rightarrow> fi_args \<Rightarrow> nat \<Rightarrow> ofi_out res" where
  "ofi_issue oe fb ok a n =
     (if \<not> cs_try_enter (oe_lock_mode oe) NET_TRYLOCK_SEND (fb_try_lock fb n)
      then Inr \<lparr>oo_error = ec_retry_lock, oo_calls = [], oo_retired = []\<rparr>
      else
        let ret = fb_ret fb a n in
        if ret = 0 then Inr \<lparr>oo_error = ok, oo_calls = [a], oo_retired = []\<rparr>
        else if ret = - FI_EAGAIN then Inr \<lparr>oo_error = ec_retry_nomem, oo_calls = [a], oo_retired = []\<rparr>
        else Inl Assert_failed)"

definition get_remote_addr :: "rmr_t \<Rightarrow> u64 \<Rightarrow> bool \<Rightarrow> u64" where
  "get_remote_addr rmr offset virt_addr =
     (if virt_addr then rmr_base rmr + offset else (rmr_base rmr - rmr_mr_base rmr) + offset)"

definition peer_addr :: "ofi_endpoint_t \<Rightarrow> int \<Rightarrow> u64 res" where
  "peer_addr oe rank =
     (if 0 \<le> rank \<and> rank < int (length (oe_peer_addrs oe)) then Inr (oe_peer_addrs oe ! nat rank)
      else Inl Undefined_behaviour)"

text \<open>\<^verbatim>\<open>(uint64_t)my_rank << 32 | imm_data\<close>\<close>

definition ofi_data :: "int \<Rightarrow> net_imm_data_t \<Rightarrow> u64" where
  "ofi_data my_rank imm_data = push_bit 32 (word_of_int my_rank) OR ucast imm_data"

section \<open>The seven post operations\<close>

definition ofi_post_sends_impl :: "ofi_endpoint_t \<Rightarrow> fabric \<Rightarrow> net_req \<Rightarrow> nat \<Rightarrow> ofi_out res" where
  "ofi_post_sends_impl oe fb rq n =
     bindR (peer_addr oe (rq_rank rq)) (\<lambda>dest.
     ofi_issue oe fb ec_done
       \<lparr>fa_fn = fi_sendmsg, fa_buf = rq_buf rq, fa_len = rq_size rq, fa_desc = 0, fa_dest = dest,
        fa_raddr = 0, fa_key = 0, fa_data = ofi_data (oe_my_rank oe) (rq_imm rq), fa_ctx = rq_ctx rq,
        fa_flags = [FI_INJECT, FI_COMPLETION, FI_REMOTE_CQ_DATA]\<rparr> n)"

definition ofi_post_send_impl :: "ofi_endpoint_t \<Rightarrow> fabric \<Rightarrow> net_req \<Rightarrow> nat \<Rightarrow> ofi_out res" where
  "ofi_post_send_impl oe fb rq n =
     bindR (peer_addr oe (rq_rank rq)) (\<lambda>dest.
     ofi_issue oe fb ec_posted
       \<lparr>fa_fn = fi_senddata, fa_buf = rq_buf rq, fa_len = rq_size rq, fa_desc = rq_mr rq, fa_dest = dest,
        fa_raddr = 0, fa_key = 0, fa_data = ofi_data (oe_my_rank oe) (rq_imm rq), fa_ctx = rq_ctx rq,
        fa_flags = []\<rparr> n)"

text \<open>The one-sided operations fill a message with the remote address.\<close>

definition rma_args :: "ofi_endpoint_t \<Rightarrow> fi_fn \<Rightarrow> addr \<Rightarrow> u64 \<Rightarrow> fi_flag list \<Rightarrow> net_req \<Rightarrow> u64 \<Rightarrow> fi_args" where
  "rma_args oe fn desc dat flags rq dest =
     \<lparr>fa_fn = fn, fa_buf = rq_buf rq, fa_len = rq_size rq, fa_desc = desc, fa_dest = dest,
      fa_raddr = get_remote_addr (rq_rmr rq) (rq_offset rq) (oe_mr_virt_addr oe),
      fa_key = opaque_rkey (rq_rmr rq), fa_data = dat, fa_ctx = rq_ctx rq, fa_flags = flags\<rparr>"

definition ofi_post_puts_impl :: "ofi_endpoint_t \<Rightarrow> fabric \<Rightarrow> net_req \<Rightarrow> nat \<Rightarrow> ofi_out res" where
  "ofi_post_puts_impl oe fb rq n =
     bindR (peer_addr oe (rq_rank rq)) (\<lambda>dest.
     ofi_issue oe fb ec_done
       (rma_args oe fi_writemsg 0 0 [FI_INJECT, FI_COMPLETION, FI_DELIVERY_COMPLETE] rq dest) n)"

definition ofi_post_put_impl :: "ofi_endpoint_t \<Rightarrow> fabric \<Rightarrow> net_req \<Rightarrow> nat \<Rightarrow> ofi_out res" where
  "ofi_post_put_impl oe fb rq n =
     bindR (peer_addr oe (rq_rank rq)) (\<lambda>dest.
     ofi_issue oe fb ec_posted
       (rma_args oe fi_writemsg (rq_mr rq) 0 [FI_COMPLETION, FI_DELIVERY_COMPLETE] rq dest) n)"

text \<open>On CXI a short put-with-immediate is an injected write, which generates no completion: the
  function retires the context itself.\<close>

definition cxi_inject_writedata_workaround ::
    "ofi_endpoint_t \<Rightarrow> fabric \<Rightarrow> net_req \<Rightarrow> nat \<Rightarrow> ofi_out res" where
  "cxi_inject_writedata_workaround oe fb rq n =
     bindR (peer_addr oe (rq_rank rq)) (\<lambda>dest.
     bindR (ofi_issue oe fb ec_done
       ((rma_args oe fi_inject_writedata 0 (ucast (rq_imm rq)) [] rq dest)\<lparr>fa_ctx := No_ctx\<rparr>) n) (\<lambda>out.
     if oo_error out = ec_done \<and> rq_ctx rq \<noteq> No_ctx then Inr (out\<lparr>oo_retired := [rq_ctx rq]\<rparr>)
     else Inr out))"

definition ofi_post_putImms_impl :: "ofi_endpoint_t \<Rightarrow> fabric \<Rightarrow> net_req \<Rightarrow> nat \<Rightarrow> ofi_out res" where
  "ofi_post_putImms_impl oe fb rq n =
     (if oe_use_cxi_writedata oe then cxi_inject_writedata_workaround oe fb rq n
      else
        bindR (peer_addr oe (rq_rank rq)) (\<lambda>dest.
        ofi_issue oe fb ec_done
          (rma_args oe fi_writemsg 0 (ucast (rq_imm rq))
             [FI_INJECT, FI_COMPLETION, FI_DELIVERY_COMPLETE, FI_REMOTE_CQ_DATA] rq dest) n))"

definition cxi_writedata_workaround :: "ofi_endpoint_t \<Rightarrow> fabric \<Rightarrow> net_req \<Rightarrow> nat \<Rightarrow> ofi_out res" where
  "cxi_writedata_workaround oe fb rq n =
     bindR (peer_addr oe (rq_rank rq)) (\<lambda>dest.
     ofi_issue oe fb ec_posted (rma_args oe fi_writedata (rq_mr rq) (ucast (rq_imm rq)) [] rq dest) n)"

definition ofi_post_putImm_impl :: "ofi_endpoint_t \<Rightarrow> fabric \<Rightarrow> net_req \<Rightarrow> nat \<Rightarrow> ofi_out res" where
  "ofi_post_putImm_impl oe fb rq n =
     (if oe_use_cxi_writedata oe then cxi_writedata_workaround oe fb rq n
      else
        bindR (peer_addr oe (rq_rank rq)) (\<lambda>dest.
        ofi_issue oe fb ec_posted
          (rma_args oe fi_writemsg (rq_mr rq) (ucast (rq_imm rq))
             [FI_COMPLETION, FI_DELIVERY_COMPLETE, FI_REMOTE_CQ_DATA] rq dest) n))"

definition ofi_post_get_impl :: "ofi_endpoint_t \<Rightarrow> fabric \<Rightarrow> net_req \<Rightarrow> nat \<Rightarrow> ofi_out res" where
  "ofi_post_get_impl oe fb rq n =
     bindR (peer_addr oe (rq_rank rq)) (\<lambda>dest.
     ofi_issue oe fb ec_posted (rma_args oe fi_readmsg (rq_mr rq) 0 [FI_COMPLETION] rq dest) n)"

text \<open>The dispatch of a request to the virtual function of its kind.\<close>

definition ofi_post :: "ofi_endpoint_t \<Rightarrow> fabric \<Rightarrow> net_req \<Rightarrow> nat \<Rightarrow> ofi_out res" where
  "ofi_post oe fb rq n =
     (case rq_op rq of
        op_sends \<Rightarrow> ofi_post_sends_impl oe fb rq n
      | op_send \<Rightarrow> ofi_post_send_impl oe fb rq n
      | op_puts \<Rightarrow> ofi_post_puts_impl oe fb rq n
      | op_put \<Rightarrow> ofi_post_put_impl oe fb rq n
      | op_putImms \<Rightarrow> ofi_post_putImms_impl oe fb rq n
      | op_putImm \<Rightarrow> ofi_post_putImm_impl oe fb rq n
      | op_get \<Rightarrow> ofi_post_get_impl oe fb rq n)"

definition ofi_backend :: "ofi_endpoint_t \<Rightarrow> fabric \<Rightarrow> backend" where
  "ofi_backend oe fb rq high_priority n = bindR (ofi_post oe fb rq n) (\<lambda>out. Inr (oo_error out))"

section \<open>Receives and completions\<close>

definition ofi_post_recv_impl :: "u64 \<Rightarrow> bool \<Rightarrow> int \<Rightarrow> errorcode_t res" where
  "ofi_post_recv_impl lock_mode try_lock ret =
     (if \<not> cs_try_enter lock_mode NET_TRYLOCK_RECV try_lock then Inr ec_retry_lock
      else if ret = 0 then Inr ec_done
      else if ret = - FI_EAGAIN then Inr ec_retry_nomem
      else Inl Assert_failed)"

text \<open>\<open>rets\<close> are the values \<^verbatim>\<open>fi_recv\<close> returns for the buffers in turn.  For no buffers the code
  reads its error variable before it is set.\<close>

fun recv_loop :: "int list \<Rightarrow> nat \<Rightarrow> nat \<times> int" where
  "recv_loop [] n_posted = (n_posted, 0)"
| "recv_loop (r # rets) n_posted = (if r = 0 then recv_loop rets (n_posted + 1) else (n_posted, r))"

definition ofi_post_recvs_impl :: "u64 \<Rightarrow> bool \<Rightarrow> int list \<Rightarrow> nat res" where
  "ofi_post_recvs_impl lock_mode try_lock rets =
     (if \<not> cs_try_enter lock_mode NET_TRYLOCK_RECV try_lock then Inr 0
      else if rets = [] then Inl Undefined_behaviour
      else
        let (n_posted, error) = recv_loop rets 0 in
        if error = 0 \<or> error = - FI_EAGAIN then Inr n_posted else Inl Assert_failed)"

record fi_cq_data_entry =
  fe_flags :: "fi_flag set"
  fe_op_context :: addr
  fe_len :: nat
  fe_data :: u64

text \<open>\<^verbatim>\<open>(int)(data >> 32)\<close> converts to a 32-bit signed integer.\<close>

definition ofi_status :: "fi_cq_data_entry \<Rightarrow> net_status_t" where
  "ofi_status fe =
     (if FI_RECV \<in> fe_flags fe then
        \<lparr>ns_opcode = net_RECV, ns_rank = sint (ucast (drop_bit 32 (fe_data fe)) :: 32 word),
         ns_user_context = fe_op_context fe, ns_length = fe_len fe,
         ns_imm_data = ucast (fe_data fe AND (push_bit 32 1 - 1))\<rparr>
      else if FI_REMOTE_WRITE \<in> fe_flags fe then
        net_status_zero\<lparr>ns_opcode := net_REMOTE_WRITE, ns_user_context := 0, ns_imm_data := ucast (fe_data fe)\<rparr>
      else if FI_SEND \<in> fe_flags fe then
        net_status_zero\<lparr>ns_opcode := net_SEND, ns_user_context := fe_op_context fe\<rparr>
      else if FI_WRITE \<in> fe_flags fe then
        net_status_zero\<lparr>ns_opcode := net_WRITE, ns_user_context := fe_op_context fe\<rparr>
      else
        net_status_zero\<lparr>ns_opcode := net_READ, ns_user_context := fe_op_context fe\<rparr>)"

text \<open>\<^verbatim>\<open>poll_comp_impl\<close>.  \<open>cq_read\<close> is what \<^verbatim>\<open>fi_cq_read\<close> answers, a negative code or the entries, and
  \<open>cq_err\<close> what \<^verbatim>\<open>fi_cq_readerr\<close> answers, with the flags and the context of the error entry.\<close>

definition ofi_error_status :: "fi_flag set \<Rightarrow> addr \<Rightarrow> net_status_t" where
  "ofi_error_status flags ctx =
     (let is_outgoing = flags \<inter> {FI_SEND, FI_WRITE, FI_READ} \<noteq> {} \<and> flags \<inter> {FI_RECV, FI_REMOTE_WRITE} = {}
      in net_status_zero\<lparr>ns_opcode := net_ERROR, ns_rank := -1,
           ns_user_context := (if is_outgoing then ctx else 0)\<rparr>)"

definition ofi_poll_comp_impl :: "u64 \<Rightarrow> bool \<Rightarrow> int + fi_cq_data_entry list \<Rightarrow> int \<times> fi_flag set \<times> addr
    \<Rightarrow> net_status_t list res" where
  "ofi_poll_comp_impl lock_mode try_lock cq_read cq_err =
     (if \<not> cs_try_enter lock_mode NET_TRYLOCK_POLL try_lock then Inr []
      else
        case cq_read of
          Inr entries \<Rightarrow> Inr (map ofi_status entries)
        | Inl ne \<Rightarrow>
            if ne = - FI_EAGAIN then Inr []
            else
              bindR (lci_assert (ne = - FI_EAVAIL)) (\<lambda>_.
              let (ret, flags, ctx) = cq_err in
              if ret = - FI_EAGAIN then Inr []
              else bindR (lci_assert (ret = 1)) (\<lambda>_. Inr [ofi_error_status flags ctx])))"

section \<open>The contract\<close>

lemma ofi_issue_out:
  assumes "ofi_issue oe fb ok a n = Inr out" "\<not> is_retry ok"
  shows "oo_retired out = [] \<and> (is_retry (oo_error out) \<or> oo_error out = ok \<and> oo_calls out = [a])"
  using assms by (auto simp: ofi_issue_def Let_def ec_category split: if_splits)

lemma retired_unchanged [simp]: "out\<lparr>oo_retired := c\<rparr> = out \<longleftrightarrow> oo_retired out = c"
  by (cases out) auto

text \<open>Whatever its kind, an accepted request makes one call.\<close>

definition generates_completion :: "fi_args \<Rightarrow> bool" where
  "generates_completion a \<longleftrightarrow> fa_fn a \<noteq> fi_inject_writedata"

lemmas ofi_post_defs = ofi_post_sends_impl_def ofi_post_send_impl_def ofi_post_puts_impl_def
  ofi_post_put_impl_def ofi_post_putImms_impl_def ofi_post_putImm_impl_def ofi_post_get_impl_def
  cxi_inject_writedata_workaround_def cxi_writedata_workaround_def rma_args_def

lemma ofi_post_code:
  assumes "ofi_post oe fb rq n = Inr out" "\<not> is_retry (oo_error out)"
  shows "oo_error out = (if is_short (rq_op rq) then ec_done else ec_posted)"
  using assms
  by (cases "rq_op rq")
    (auto simp: ofi_post_def ofi_post_defs res_iff category_iff split: if_splits dest!: ofi_issue_out)

interpretation ofi: net_backend "ofi_backend oe fb" for oe fb
proof (standard, goal_cases)
  case (1 rq hp n e)
  then obtain out where "ofi_post oe fb rq n = Inr out" "e = oo_error out"
    by (auto simp: ofi_backend_def res_iff)
  then show ?case
    using ofi_post_code [of oe fb rq n out] by (auto simp: category_iff)
qed

text \<open>A fabric that reports nothing but success and lack of resources.\<close>

definition busy_fabric :: "(fi_args \<Rightarrow> nat \<Rightarrow> bool) \<Rightarrow> (nat \<Rightarrow> bool) \<Rightarrow> fabric" where
  "busy_fabric busy lk = \<lparr>fb_ret = \<lambda>a n. if busy a n then - FI_EAGAIN else 0, fb_try_lock = lk\<rparr>"

definition ofi_ok :: "ofi_endpoint_t \<Rightarrow> net_req \<Rightarrow> bool" where
  "ofi_ok oe rq \<longleftrightarrow> 0 \<le> rq_rank rq \<and> rq_rank rq < int (length (oe_peer_addrs oe))"

lemma ofi_issue_busy: "\<exists>out. ofi_issue oe (busy_fabric busy lk) c a n = Inr out"
  by (auto simp: ofi_issue_def busy_fabric_def Let_def FI_EAGAIN_def)

lemma bindR_total: "\<exists>y. m = Inr y \<Longrightarrow> (\<And>y. m = Inr y \<Longrightarrow> \<exists>z. f y = Inr z) \<Longrightarrow> \<exists>z. bindR m f = Inr z"
  by auto

interpretation ofi_live: live_backend "ofi_backend oe (busy_fabric busy lk)" "ofi_ok oe" for oe busy lk
proof (standard, goal_cases)
  case (1 rq hp n)
  then obtain d where d: "peer_addr oe (rq_rank rq) = Inr d" by (auto simp: ofi_ok_def peer_addr_def)
  have "\<exists>out. ofi_post oe (busy_fabric busy lk) rq n = Inr out"
    by (cases "rq_op rq") (auto simp: ofi_post_def ofi_post_defs d intro!: ofi_issue_busy bindR_total)
  then show ?case by (auto simp: ofi_backend_def)
qed

section \<open>The data word\<close>

lemma ofi_data_rank:
  assumes "0 \<le> r" "r < 2 ^ 31"
  shows "sint (ucast (drop_bit 32 (ofi_data r imm)) :: 32 word) = r"
proof -
  have "(ucast (drop_bit 32 (ofi_data r imm)) :: 32 word) = word_of_int r"
    by (rule bit_word_eqI) (auto simp: ofi_data_def bit_simps dest: bit_imp_le_length)
  then show ?thesis
    using assms by (simp add: sint_sbintrunc' signed_take_bit_int_eq_self)
qed

lemma ofi_data_imm: "ucast (ofi_data r imm AND 4294967295) = imm"
proof -
  have m: "(4294967295 :: u64) = mask 32"
    by (simp add: mask_eq_exp_minus_1)
  show ?thesis
    unfolding ofi_data_def m by (rule bit_word_eqI) (auto simp: bit_simps)
qed

lemma ucast_imm: "(ucast (ucast imm :: u64) :: net_imm_data_t) = imm"
  by (rule bit_word_eqI) (auto simp: bit_simps)

text \<open>C37.  A message identifies its sender: the status that the receiver's poll makes of the data
  word of an accepted send has the sender's rank and the immediate data of the request.  Of a
  put-with-immediate the immediate data survives too.\<close>

theorem ofi_message_identity:
  assumes "ofi_post oe fb rq n = Inr out" "\<not> is_retry (oo_error out)"
    and "0 \<le> oe_my_rank oe" "oe_my_rank oe < 2 ^ 31"
  shows "\<exists>a. oo_calls out = [a]
       \<and> (rq_op rq \<in> {op_sends, op_send} \<longrightarrow>
            (let st = ofi_status \<lparr>fe_flags = {FI_RECV}, fe_op_context = ctx, fe_len = len, fe_data = fa_data a\<rparr>
             in ns_rank st = oe_my_rank oe \<and> ns_imm_data st = rq_imm rq))
       \<and> (rq_op rq \<in> {op_putImms, op_putImm} \<longrightarrow>
            ns_imm_data (ofi_status \<lparr>fe_flags = {FI_REMOTE_WRITE}, fe_op_context = ctx, fe_len = len, fe_data = fa_data a\<rparr>)
              = rq_imm rq)"
  using assms(1,2) ofi_data_rank [OF assms(3,4)]
  by (cases "rq_op rq")
    (auto simp: ofi_post_def ofi_post_defs res_iff ofi_status_def ofi_data_imm ucast_imm Let_def
        category_iff split: if_splits dest!: ofi_issue_out)

text \<open>C26.  The context of an accepted request is retired exactly once: either by the completion of
  the one call that carries it, or by the post itself when the call generates no completion.  A
  request that is to be retried leaves its context alone.\<close>

theorem ofi_context_retired_once:
  assumes "ofi_post oe fb rq n = Inr out" "rq_ctx rq \<noteq> No_ctx"
  shows "if is_retry (oo_error out) then oo_retired out = []
         else map fa_ctx (filter generates_completion (oo_calls out)) @ oo_retired out = [rq_ctx rq]"
  using assms
  by (cases "rq_op rq")
    (auto simp: ofi_post_def ofi_post_defs res_iff category_iff generates_completion_def
        split: if_splits dest!: ofi_issue_out)

theorem ofi_message_identity_witness:
  "let st = ofi_status \<lparr>fe_flags = {FI_RECV}, fe_op_context = 0, fe_len = 1, fe_data = ofi_data 3 9\<rparr>
   in ns_rank st = 3 \<and> ns_imm_data st = 9"
proof -
  let ?oe = "\<lparr>oe_my_rank = 3, oe_peer_addrs = [7], oe_mr_virt_addr = True, oe_lock_mode = 0,
    oe_use_cxi_writedata = False\<rparr>" and ?fb = "\<lparr>fb_ret = \<lambda>_ _. 0, fb_try_lock = \<lambda>_. True\<rparr>"
  let ?a = "\<lparr>fa_fn = fi_sendmsg, fa_buf = Bytes [1], fa_len = 1, fa_desc = 0, fa_dest = 7, fa_raddr = 0,
    fa_key = 0, fa_data = ofi_data 3 9, fa_ctx = No_ctx, fa_flags = [FI_INJECT, FI_COMPLETION, FI_REMOTE_CQ_DATA]\<rparr>"
  have run: "ofi_post ?oe ?fb (mk_sends 0 [1] 9 No_ctx) 0 = Inr \<lparr>oo_error = ec_done, oo_calls = [?a], oo_retired = []\<rparr>"
    by (simp add: ofi_post_def mk_sends_def ofi_post_sends_impl_def peer_addr_def ofi_issue_def cs_try_enter_def)
  show ?thesis
    using ofi_message_identity [OF run, of 0 1] by (auto simp: mk_sends_def Let_def ec_category)
qed

theorem ofi_context_retired_once_witness:
  "let oe = \<lparr>oe_my_rank = 3, oe_peer_addrs = [7], oe_mr_virt_addr = True, oe_lock_mode = 0,
         oe_use_cxi_writedata = True\<rparr>;
       fb = \<lparr>fb_ret = \<lambda>_ _. 0, fb_try_lock = \<lambda>_. True\<rparr>
   in \<exists>out. ofi_post oe fb (mk_putImms 0 [1] 0 rmr_empty 9 (Ctx 5)) 0 = Inr out
        \<and> filter generates_completion (oo_calls out) = [] \<and> oo_retired out = [Ctx 5]"
proof -
  let ?oe = "\<lparr>oe_my_rank = 3, oe_peer_addrs = [7], oe_mr_virt_addr = True, oe_lock_mode = 0,
    oe_use_cxi_writedata = True\<rparr>" and ?fb = "\<lparr>fb_ret = \<lambda>_ _. 0, fb_try_lock = \<lambda>_. True\<rparr>"
  let ?rq = "mk_putImms 0 [1] 0 rmr_empty 9 (Ctx 5)"
  obtain out where run: "ofi_post ?oe ?fb ?rq 0 = Inr out" and calls: "filter generates_completion (oo_calls out) = []"
      and ok: "oo_error out = ec_done"
    by (simp add: ofi_post_def mk_putImms_def ofi_post_putImms_impl_def cxi_inject_writedata_workaround_def
        peer_addr_def ofi_issue_def cs_try_enter_def generates_completion_def rma_args_def)
  show ?thesis
    using ofi_context_retired_once [OF run] run calls ok by (auto simp: mk_putImms_def ec_category)
qed

end
