(* ===== verification/LCI_IBV.thy ===== *)
theory LCI_IBV
  imports LCI_Backlog
begin

text \<open>
  The InfiniBand verbs backend, \<^verbatim>\<open>src/network/ibv/backend_ibv_inline.hpp\<close>: the perfect-hash table from
  queue pair numbers to ranks, the send-queue slots of a queue pair, the post operations and the
  completion poll.  The verbs library is a parameter.  The theory shows that the table finds every
  registered queue pair and that building it terminates with a table, that sends in flight stay
  within the send queue in every interleaving, that no path of a post operation leaks a slot, and
  that the backend meets the contract of the endpoint layer.
\<close>

section \<open>From queue pair numbers to ranks\<close>

record qp_entry_t =
  qe_rank :: int
  qe_slots :: addr

definition qp_entry_default :: qp_entry_t where
  "qp_entry_default = \<lparr>qe_rank = -1, qe_slots = 0\<rparr>"

record snapshot_t =
  sn_mod :: nat
  sn_table :: "qp_entry_t list"

record qp2rank_map_t =
  qp_entries :: "(u32 \<times> qp_entry_t) list"
  current_snapshot :: "snapshot_t option"

definition qp2rank_empty :: qp2rank_map_t where
  "qp2rank_empty = \<lparr>qp_entries = [], current_snapshot = None\<rparr>"

definition INT32_MAX :: nat where "INT32_MAX = 2147483647"

text \<open>One attempt to place all entries; \<open>None\<close> when two fall on one position.\<close>

fun fill_table :: "nat \<Rightarrow> (u32 \<times> qp_entry_t) list \<Rightarrow> qp_entry_t list \<Rightarrow> qp_entry_t list option" where
  "fill_table md [] table = Some table"
| "fill_table md ((qp_num, e) # es) table =
     (let k = unat qp_num mod md in
      if qe_slots (table ! k) \<noteq> 0 then None else fill_table md es (table[k := e]))"

function find_mod :: "(u32 \<times> qp_entry_t) list \<Rightarrow> nat \<Rightarrow> (nat \<times> qp_entry_t list) option" where
  "find_mod es md =
     (if INT32_MAX \<le> md then None
      else case fill_table md es (replicate md qp_entry_default) of
             Some table \<Rightarrow> Some (md, table)
           | None \<Rightarrow> find_mod es (md + 1))"
  by pat_completeness auto
termination by (relation "measure (\<lambda>(_, md). INT32_MAX - md)") auto

declare find_mod.simps [simp del]

definition rebuild_locked :: "nat \<Rightarrow> qp2rank_map_t \<Rightarrow> qp2rank_map_t res" where
  "rebuild_locked nranks m =
     (if qp_entries m = [] then
        Inr (m\<lparr>current_snapshot := Some \<lparr>sn_mod = 1, sn_table = [qp_entry_default]\<rparr>\<rparr>)
      else
        case find_mod (qp_entries m) (max nranks 1) of
          None \<Rightarrow> Inl Assert_failed
        | Some (md, table) \<Rightarrow> Inr (m\<lparr>current_snapshot := Some \<lparr>sn_mod = md, sn_table = table\<rparr>\<rparr>))"

text \<open>\<open>slots\<close> are the addresses of the slot counters of the queue pairs; no list for a null pointer.\<close>

definition add_qps :: "nat \<Rightarrow> u32 list \<Rightarrow> addr list option \<Rightarrow> qp2rank_map_t \<Rightarrow> qp2rank_map_t res" where
  "add_qps nranks qps slots m =
     (case slots of
        None \<Rightarrow> Inr m
      | Some sl \<Rightarrow>
          if qps = [] then Inr m
          else rebuild_locked nranks (m\<lparr>qp_entries := qp_entries m @
                 map (\<lambda>i. (qps ! i, \<lparr>qe_rank = int i, qe_slots = sl ! i\<rparr>)) [0..<length qps]\<rparr>))"

definition remove_qps :: "nat \<Rightarrow> u32 list \<Rightarrow> qp2rank_map_t \<Rightarrow> qp2rank_map_t res" where
  "remove_qps nranks qps m =
     (if qps = [] \<or> qp_entries m = [] then Inr m
      else rebuild_locked nranks (m\<lparr>qp_entries := filter (\<lambda>(q, _). q \<notin> set qps) (qp_entries m)\<rparr>))"

definition get_entry :: "snapshot_t \<Rightarrow> u32 \<Rightarrow> qp_entry_t" where
  "get_entry sn qp_num =
     (if sn_table sn = [] then qp_entry_default
      else
        let idx = unat qp_num mod sn_mod sn in
        if length (sn_table sn) \<le> idx then qp_entry_default else sn_table sn ! idx)"

text \<open>Every registered queue pair has its own counter.\<close>

definition slots_set :: "(u32 \<times> qp_entry_t) list \<Rightarrow> bool" where
  "slots_set es \<longleftrightarrow> (\<forall>(q, e)\<in>set es. qe_slots e \<noteq> 0)"

lemma slots_set_simps [simp]:
  "slots_set []"
  "slots_set ((q, e) # es) \<longleftrightarrow> qe_slots e \<noteq> 0 \<and> slots_set es"
  by (auto simp: slots_set_def)

lemma fill_table_length: "fill_table md es t = Some t' \<Longrightarrow> length t' = length t"
  by (induction md es t rule: fill_table.induct) (auto simp: Let_def split: if_splits)

lemma fill_table_keeps:
  assumes "fill_table md es t = Some t'" "qe_slots (t ! k) \<noteq> 0"
  shows "t' ! k = t ! k"
  using assms
proof (induction md es t rule: fill_table.induct)
  case (2 md q e es t)
  then have free: "qe_slots (t ! (unat q mod md)) = 0" and rest: "fill_table md es (t[unat q mod md := e]) = Some t'"
    by (auto simp: Let_def split: if_splits)
  with "2.prems"(2) have "t[unat q mod md := e] ! k = t ! k" by (metis nth_list_update_neq)
  with "2.IH" [OF refl _ rest] free "2.prems"(2) show ?case by simp
qed simp

lemma fill_table_finds:
  assumes "fill_table md es t = Some t'" "length t = md" "0 < md" "slots_set es" "(q, e) \<in> set es"
  shows "t' ! (unat q mod md) = e"
  using assms
proof (induction md es t rule: fill_table.induct)
  case (2 md q' e' es t)
  let ?k = "unat q' mod md"
  have free: "\<not> qe_slots (t ! ?k) \<noteq> 0" and rest: "fill_table md es (t[?k := e']) = Some t'"
    using "2.prems"(1) by (auto simp: Let_def split: if_splits)
  have at: "t[?k := e'] ! ?k = e'" using "2.prems"(2,3) by simp
  show ?case
  proof (cases "(q, e) = (q', e')")
    case True
    then show ?thesis using fill_table_keeps [OF rest, of ?k] at "2.prems"(4) by simp
  next
    case False
    then have "(q, e) \<in> set es" using "2.prems"(5) by auto
    then show ?thesis using "2.IH" [OF refl free rest] "2.prems"(2-4) by simp
  qed
qed simp

text \<open>An attempt succeeds when the residues of the numbers are distinct.\<close>

lemma fill_table_succeeds:
  assumes "distinct (map (\<lambda>(q, _). unat q mod md) es)" "length t = md" "0 < md"
    and "\<forall>(q, _)\<in>set es. qe_slots (t ! (unat q mod md)) = 0"
  shows "\<exists>t'. fill_table md es t = Some t'"
  using assms
proof (induction md es t rule: fill_table.induct)
  case (2 md q e es t)
  let ?k = "unat q mod md"
  have "qe_slots (t[?k := e] ! (unat q' mod md)) = 0" if "(q', e') \<in> set es" for q' e'
  proof -
    have "unat q' mod md \<noteq> ?k" using "2.prems"(1) that by force
    then show ?thesis using "2.prems"(4) that by force
  qed
  then have "\<exists>t'. fill_table md es (t[?k := e]) = Some t'"
    using "2.prems" by (intro "2.IH" [OF refl]) auto
  then show ?case using "2.prems"(4) by simp
qed simp

lemma find_mod_result:
  "find_mod es md = Some (m, t) \<Longrightarrow>
   fill_table m es (replicate m qp_entry_default) = Some t \<and> md \<le> m \<and> m < INT32_MAX"
proof (induction es md rule: find_mod.induct)
  case (1 es md)
  then show ?case by (subst (asm) (2) find_mod.simps) (force split: if_splits option.splits)
qed

lemma find_mod_exists:
  assumes "fill_table m es (replicate m qp_entry_default) \<noteq> None" "md \<le> m" "m < INT32_MAX"
  shows "find_mod es md \<noteq> None"
  using assms
proof (induction es md rule: find_mod.induct)
  case (1 es md)
  show ?case
  proof (cases "fill_table md es (replicate md qp_entry_default)")
    case None
    then have "md \<noteq> m" using "1.prems"(1) by blast
    then show ?thesis using "1.IH" [OF _ None] "1.prems" None by (subst find_mod.simps) simp
  next
    case (Some t)
    then show ?thesis using "1.prems" by (subst find_mod.simps) simp
  qed
qed

lemma rebuild_finds:
  assumes "rebuild_locked nranks m = Inr m'" "slots_set (qp_entries m)"
  shows "qp_entries m' = qp_entries m
     \<and> (\<exists>sn. current_snapshot m' = Some sn \<and> (\<forall>q e. (q, e) \<in> set (qp_entries m) \<longrightarrow> get_entry sn q = e))"
proof (cases "qp_entries m = []")
  case False
  then obtain md t where f: "find_mod (qp_entries m) (max nranks 1) = Some (md, t)"
      and m': "m' = m\<lparr>current_snapshot := Some \<lparr>sn_mod = md, sn_table = t\<rparr>\<rparr>"
    using assms(1) by (auto simp: rebuild_locked_def split: option.splits)
  from find_mod_result [OF f] have fill: "fill_table md (qp_entries m) (replicate md qp_entry_default) = Some t"
    and pos: "0 < md" by auto
  have len: "length t = md" using fill_table_length [OF fill] by simp
  have "get_entry \<lparr>sn_mod = md, sn_table = t\<rparr> q = e" if "(q, e) \<in> set (qp_entries m)" for q e
    using fill_table_finds [OF fill _ pos assms(2) that] pos len
      mod_less_divisor [OF pos, of "unat q"] by (auto simp: get_entry_def Let_def)
  then show ?thesis by (auto simp: m')
qed (use assms(1) in \<open>auto simp: rebuild_locked_def\<close>)

text \<open>Queue pair numbers have 24 bits, so the number itself is a residue that works.\<close>

lemma rebuild_succeeds:
  assumes "distinct (map fst (qp_entries m))" "\<forall>q\<in>set (map fst (qp_entries m)). unat q < 2 ^ 24" "nranks \<le> 2 ^ 24"
  shows "\<exists>m'. rebuild_locked nranks m = Inr m'"
proof -
  define md :: nat where "md = 2 ^ 24"
  have bd: "0 < md" "md < INT32_MAX" "nranks \<le> md" "1 \<le> md"
    using assms(3) by (auto simp: md_def INT32_MAX_def)
  have "map (\<lambda>(q, _). unat q mod md) (qp_entries m) = map unat (map fst (qp_entries m))"
    using assms(2) by (auto simp: md_def)
  then have "distinct (map (\<lambda>(q, _). unat q mod md) (qp_entries m))"
    using assms(1) by (metis distinct_map inj_on_def word_unat_eq_iff)
  moreover have "\<forall>(q, _)\<in>set (qp_entries m). qe_slots (replicate md qp_entry_default ! (unat q mod md)) = 0"
    using bd(1) by (auto simp: qp_entry_default_def)
  ultimately have "fill_table md (qp_entries m) (replicate md qp_entry_default) \<noteq> None"
    using fill_table_succeeds [of md "qp_entries m" "replicate md qp_entry_default"] bd(1) by simp
  then have "find_mod (qp_entries m) (max nranks 1) \<noteq> None"
    using bd by (intro find_mod_exists [of md]) simp_all
  then show ?thesis by (auto simp: rebuild_locked_def)
qed

section \<open>Send-queue slots and the post operations\<close>

datatype ibv_wr_opcode = IBV_WR_SEND_WITH_IMM | IBV_WR_RDMA_WRITE | IBV_WR_RDMA_WRITE_WITH_IMM | IBV_WR_RDMA_READ

datatype ibv_send_flag = IBV_SEND_SIGNALED | IBV_SEND_INLINE

text \<open>A work request; it has no scatter-gather entry when the size is 0.  The key of the memory
  region is 0 for inlined data.\<close>

record ibv_send_wr =
  wr_opcode :: ibv_wr_opcode
  wr_sge :: "(buf \<times> nat \<times> u32) option"
  wr_id :: net_ctx
  wr_flags :: "ibv_send_flag list"
  wr_imm_data :: net_imm_data_t
  wr_remote_addr :: u64
  wr_rkey :: u64

text \<open>The verbs library and the lock of a queue pair: what the \<open>n\<close>-th call returns, the result of
  the \<open>n\<close>-th \<^verbatim>\<open>try_lock\<close>, and the key of a registered region.\<close>

record verbs =
  vb_post_send :: "ibv_send_wr \<Rightarrow> nat \<Rightarrow> int"
  vb_try_lock :: "nat \<Rightarrow> bool"
  vb_lkey :: "addr \<Rightarrow> u32"

text \<open>The fields of \<^verbatim>\<open>ibv_endpoint_impl_t\<close> that the operations use.  \<open>ie_threshold\<close> is the part of the
  send queue that is kept for high-priority requests, \<^verbatim>\<open>net_max_sends * net_send_reserved_pct\<close>
  rounded down.\<close>

record ibv_endpoint_t =
  ie_max_inject_size :: nat
  ie_threshold :: int
  qp_remaining_slots :: "int list"

definition ENOMEM :: int where "ENOMEM = 12"

definition try_acquire_slot :: "int \<Rightarrow> bool \<Rightarrow> int \<Rightarrow> bool \<times> int" where
  "try_acquire_slot threshold high_priority counter =
     (if \<not> high_priority \<and> counter \<le> threshold then (False, counter)
      else
        let prev = counter; counter = counter - 1 in
        if prev \<le> 0 then (False, counter + 1) else (True, counter))"

definition release_slot :: "int \<Rightarrow> int" where
  "release_slot counter = counter + 1"

definition make_sge :: "buf \<Rightarrow> nat \<Rightarrow> u32 \<Rightarrow> (buf \<times> nat \<times> u32) option" where
  "make_sge b sz lkey = (if 0 < sz then Some (b, sz, lkey) else None)"

text \<open>The end of every post operation: take a slot, lock the queue pair, post, unlock, map the answer;
  every path but success gives the slot back.\<close>

definition ibv_issue :: "verbs \<Rightarrow> errorcode_t \<Rightarrow> ibv_send_wr \<Rightarrow> int \<Rightarrow> bool \<Rightarrow> nat \<Rightarrow> ibv_endpoint_t
    \<Rightarrow> (errorcode_t \<times> ibv_endpoint_t) res" where
  "ibv_issue vb ok wr rank high_priority n ie =
     (if \<not> (0 \<le> rank \<and> rank < int (length (qp_remaining_slots ie))) then Inl Undefined_behaviour
      else
        let r = nat rank;
            upd = \<lambda>c. ie\<lparr>qp_remaining_slots := (qp_remaining_slots ie)[r := c]\<rparr>;
            (got, c) = try_acquire_slot (ie_threshold ie) high_priority (qp_remaining_slots ie ! r) in
        if \<not> got then Inr (ec_retry_nomem, upd c)
        else if \<not> vb_try_lock vb n then Inr (ec_retry_lock, upd (release_slot c))
        else
          let ret = vb_post_send vb wr n in
          if ret = 0 then Inr (ok, upd c)
          else if ret = ENOMEM then Inr (ec_retry_nomem, upd (release_slot c))
          else Inl Assert_failed)"

type_synonym ibv_post = "verbs \<Rightarrow> net_req \<Rightarrow> bool \<Rightarrow> nat \<Rightarrow> ibv_endpoint_t \<Rightarrow> (errorcode_t \<times> ibv_endpoint_t) res"

definition ibv_post_sends_impl :: ibv_post where
  "ibv_post_sends_impl vb rq high_priority n ie =
     bindR (lci_assert (rq_size rq \<le> ie_max_inject_size ie)) (\<lambda>_.
     ibv_issue vb ec_done
       \<lparr>wr_opcode = IBV_WR_SEND_WITH_IMM, wr_sge = make_sge (rq_buf rq) (rq_size rq) 0, wr_id = rq_ctx rq,
        wr_flags = [IBV_SEND_INLINE, IBV_SEND_SIGNALED], wr_imm_data = rq_imm rq,
        wr_remote_addr = 0, wr_rkey = 0\<rparr> (rq_rank rq) high_priority n ie)"

definition ibv_post_send_impl :: ibv_post where
  "ibv_post_send_impl vb rq high_priority n ie =
     ibv_issue vb ec_posted
       \<lparr>wr_opcode = IBV_WR_SEND_WITH_IMM, wr_sge = make_sge (rq_buf rq) (rq_size rq) (vb_lkey vb (rq_mr rq)),
        wr_id = rq_ctx rq, wr_flags = [IBV_SEND_SIGNALED], wr_imm_data = rq_imm rq,
        wr_remote_addr = 0, wr_rkey = 0\<rparr> (rq_rank rq) high_priority n ie"

text \<open>The one-sided operations name the remote address.\<close>

definition rdma_wr :: "ibv_wr_opcode \<Rightarrow> u32 \<Rightarrow> ibv_send_flag list \<Rightarrow> net_imm_data_t \<Rightarrow> net_req \<Rightarrow> ibv_send_wr" where
  "rdma_wr opcode lkey flags imm rq =
     \<lparr>wr_opcode = opcode, wr_sge = make_sge (rq_buf rq) (rq_size rq) lkey, wr_id = rq_ctx rq,
      wr_flags = flags, wr_imm_data = imm, wr_remote_addr = rmr_base (rq_rmr rq) + rq_offset rq,
      wr_rkey = opaque_rkey (rq_rmr rq)\<rparr>"

definition ibv_post_puts_impl :: ibv_post where
  "ibv_post_puts_impl vb rq high_priority n ie =
     bindR (lci_assert (rq_size rq \<le> ie_max_inject_size ie)) (\<lambda>_.
     ibv_issue vb ec_done (rdma_wr IBV_WR_RDMA_WRITE 0 [IBV_SEND_SIGNALED, IBV_SEND_INLINE] 0 rq)
       (rq_rank rq) high_priority n ie)"

definition ibv_post_put_impl :: ibv_post where
  "ibv_post_put_impl vb rq high_priority n ie =
     ibv_issue vb ec_posted (rdma_wr IBV_WR_RDMA_WRITE (vb_lkey vb (rq_mr rq)) [IBV_SEND_SIGNALED] 0 rq)
       (rq_rank rq) high_priority n ie"

definition ibv_post_putImms_impl :: ibv_post where
  "ibv_post_putImms_impl vb rq high_priority n ie =
     bindR (lci_assert (rq_size rq \<le> ie_max_inject_size ie)) (\<lambda>_.
     ibv_issue vb ec_done
       (rdma_wr IBV_WR_RDMA_WRITE_WITH_IMM 0 [IBV_SEND_SIGNALED, IBV_SEND_INLINE] (rq_imm rq) rq)
       (rq_rank rq) high_priority n ie)"

definition ibv_post_putImm_impl :: ibv_post where
  "ibv_post_putImm_impl vb rq high_priority n ie =
     ibv_issue vb ec_posted
       (rdma_wr IBV_WR_RDMA_WRITE_WITH_IMM (vb_lkey vb (rq_mr rq)) [IBV_SEND_SIGNALED] (rq_imm rq) rq)
       (rq_rank rq) high_priority n ie"

definition ibv_post_get_impl :: ibv_post where
  "ibv_post_get_impl vb rq high_priority n ie =
     ibv_issue vb ec_posted (rdma_wr IBV_WR_RDMA_READ (vb_lkey vb (rq_mr rq)) [IBV_SEND_SIGNALED] 0 rq)
       (rq_rank rq) high_priority n ie"

text \<open>The dispatch of a request to the virtual function of its kind.  The state of the endpoint at
  the \<open>n\<close>-th call, which other threads and completions change too, is a parameter of the backend.\<close>

definition ibv_post_req :: ibv_post where
  "ibv_post_req vb rq =
     (case rq_op rq of
        op_sends \<Rightarrow> ibv_post_sends_impl vb rq
      | op_send \<Rightarrow> ibv_post_send_impl vb rq
      | op_puts \<Rightarrow> ibv_post_puts_impl vb rq
      | op_put \<Rightarrow> ibv_post_put_impl vb rq
      | op_putImms \<Rightarrow> ibv_post_putImms_impl vb rq
      | op_putImm \<Rightarrow> ibv_post_putImm_impl vb rq
      | op_get \<Rightarrow> ibv_post_get_impl vb rq)"

definition ibv_backend :: "verbs \<Rightarrow> (nat \<Rightarrow> ibv_endpoint_t) \<Rightarrow> backend" where
  "ibv_backend vb st rq high_priority n = bindR (ibv_post_req vb rq high_priority n (st n)) (\<lambda>(e, _). Inr e)"

lemmas ibv_post_defs = ibv_post_sends_impl_def ibv_post_send_impl_def ibv_post_puts_impl_def
  ibv_post_put_impl_def ibv_post_putImms_impl_def ibv_post_putImm_impl_def ibv_post_get_impl_def

text \<open>What the shared end of the operations does to the counter.\<close>

lemma ibv_issue_spec:
  assumes "ibv_issue vb ok wr rank hp n ie = Inr (e, ie')" "\<not> is_retry ok"
  defines "c \<equiv> qp_remaining_slots ie ! nat rank"
  shows "if is_retry e then ie' = ie
         else e = ok \<and> 0 < c \<and> (hp \<or> ie_threshold ie < c)
            \<and> ie' = ie\<lparr>qp_remaining_slots := (qp_remaining_slots ie)[nat rank := c - 1]\<rparr>"
  using assms
  by (auto simp: ibv_issue_def try_acquire_slot_def release_slot_def Let_def category_iff
      split: if_splits)

lemma ibv_post_spec:
  assumes "ibv_post_req vb rq hp n ie = Inr (e, ie')"
  defines "c \<equiv> qp_remaining_slots ie ! nat (rq_rank rq)"
  shows "if is_retry e then ie' = ie
         else e = (if is_short (rq_op rq) then ec_done else ec_posted) \<and> 0 < c \<and> (hp \<or> ie_threshold ie < c)
            \<and> ie' = ie\<lparr>qp_remaining_slots := (qp_remaining_slots ie)[nat (rq_rank rq) := c - 1]\<rparr>"
  using assms
  by (cases "rq_op rq")
    (auto simp: ibv_post_req_def ibv_post_defs res_iff category_iff dest!: ibv_issue_spec split: if_splits)

interpretation ibv: net_backend "ibv_backend vb st" for vb st
proof (standard, goal_cases)
  case (1 rq hp n e)
  then obtain ie' where "ibv_post_req vb rq hp n (st n) = Inr (e, ie')"
    by (auto simp: ibv_backend_def res_iff)
  from ibv_post_spec [OF this] show ?case
    by (auto simp: category_iff split: if_splits)
qed

section \<open>Receives and completions\<close>

definition ibv_post_recv_impl :: "bool \<Rightarrow> int \<Rightarrow> errorcode_t res" where
  "ibv_post_recv_impl try_lock ret =
     (if \<not> try_lock then Inr ec_retry_lock
      else if ret = 0 then Inr ec_done
      else if ret = ENOMEM then Inr ec_retry_nomem
      else Inl Assert_failed)"

text \<open>\<open>rets\<close> are the values \<^verbatim>\<open>ibv_post_srq_recv\<close> returns for the buffers in turn.  For no buffers the
  code reads its error variable before it is set.\<close>

fun srq_recv_loop :: "int list \<Rightarrow> nat \<Rightarrow> nat \<times> int" where
  "srq_recv_loop [] n_posted = (n_posted, 0)"
| "srq_recv_loop (r # rets) n_posted = (if r = 0 then srq_recv_loop rets (n_posted + 1) else (n_posted, r))"

definition ibv_post_recvs_impl :: "bool \<Rightarrow> int list \<Rightarrow> nat res" where
  "ibv_post_recvs_impl try_lock rets =
     (if \<not> try_lock then Inr 0
      else if rets = [] then Inl Undefined_behaviour
      else
        let (n_posted, error) = srq_recv_loop rets 0 in
        if error = 0 \<or> error = ENOMEM then Inr n_posted else Inl Assert_failed)"

datatype ibv_wc_opcode = IBV_WC_RECV | IBV_WC_RECV_RDMA_WITH_IMM | IBV_WC_SEND | IBV_WC_RDMA_WRITE
  | IBV_WC_RDMA_READ | IBV_WC_OTHER

record ibv_wc =
  wc_success :: bool
  wc_opcode :: ibv_wc_opcode
  wc_qp_num :: u32
  wc_wr_id :: addr
  wc_byte_len :: nat
  wc_imm_data :: net_imm_data_t

definition is_receive :: "ibv_wc \<Rightarrow> bool" where
  "is_receive wc \<longleftrightarrow> wc_opcode wc = IBV_WC_RECV \<or> wc_opcode wc = IBV_WC_RECV_RDMA_WITH_IMM"

definition ibv_status :: "qp_entry_t \<Rightarrow> ibv_wc \<Rightarrow> net_status_t res" where
  "ibv_status entry wc =
     (if \<not> wc_success wc then
        Inr (net_status_zero\<lparr>ns_opcode := net_ERROR, ns_rank := (if is_receive wc then -1 else qe_rank entry),
               ns_user_context := (if is_receive wc then 0 else wc_wr_id wc)\<rparr>)
      else case wc_opcode wc of
        IBV_WC_RECV \<Rightarrow>
          Inr \<lparr>ns_opcode = net_RECV, ns_rank = qe_rank entry, ns_user_context = wc_wr_id wc,
               ns_length = wc_byte_len wc, ns_imm_data = wc_imm_data wc\<rparr>
      | IBV_WC_RECV_RDMA_WITH_IMM \<Rightarrow>
          Inr (net_status_zero\<lparr>ns_opcode := net_REMOTE_WRITE, ns_user_context := wc_wr_id wc,
                 ns_imm_data := wc_imm_data wc\<rparr>)
      | IBV_WC_SEND \<Rightarrow> Inr (net_status_zero\<lparr>ns_opcode := net_SEND, ns_user_context := wc_wr_id wc\<rparr>)
      | IBV_WC_RDMA_WRITE \<Rightarrow> Inr (net_status_zero\<lparr>ns_opcode := net_WRITE, ns_user_context := wc_wr_id wc\<rparr>)
      | IBV_WC_RDMA_READ \<Rightarrow> Inr (net_status_zero\<lparr>ns_opcode := net_READ, ns_user_context := wc_wr_id wc\<rparr>)
      | IBV_WC_OTHER \<Rightarrow> Inl Assert_failed)"

text \<open>The slot counters live at their addresses.  A send-side completion, failed or not, gives a slot
  back to the queue pair it is for.\<close>

definition credit_slot :: "nat \<Rightarrow> qp_entry_t \<Rightarrow> ibv_wc \<Rightarrow> (addr \<Rightarrow> int) \<Rightarrow> (addr \<Rightarrow> int)" where
  "credit_slot nranks entry wc slots =
     (if \<not> is_receive wc \<and> 0 \<le> qe_rank entry \<and> qe_rank entry < int nranks \<and> qe_slots entry \<noteq> 0
      then slots(qe_slots entry := slots (qe_slots entry) + 1) else slots)"

text \<open>The loop over the entries; it also counts the receives it consumes.\<close>

fun poll_loop :: "nat \<Rightarrow> snapshot_t \<Rightarrow> ibv_wc list \<Rightarrow> (addr \<Rightarrow> int) \<Rightarrow> nat
    \<Rightarrow> (net_status_t list \<times> (addr \<Rightarrow> int) \<times> nat) res" where
  "poll_loop nranks sn [] slots consumed = Inr ([], slots, consumed)"
| "poll_loop nranks sn (wc # wcs) slots consumed =
     (let entry = get_entry sn (wc_qp_num wc);
          slots = credit_slot nranks entry wc slots;
          consumed = (if wc_success wc \<and> wc_opcode wc = IBV_WC_RECV_RDMA_WITH_IMM then consumed + 1 else consumed) in
      bindR (ibv_status entry wc) (\<lambda>st.
      bindR (poll_loop nranks sn wcs slots consumed) (\<lambda>(sts, slots, consumed).
      Inr (st # sts, slots, consumed))))"

text \<open>\<^verbatim>\<open>poll_comp_impl\<close>; \<open>polled\<close> is what \<^verbatim>\<open>ibv_poll_cq\<close> answers, a negative code or the entries.  The
  snapshot of the table is null until the first queue pairs are added.\<close>

definition ibv_poll_comp_impl :: "nat \<Rightarrow> snapshot_t option \<Rightarrow> bool \<Rightarrow> int + ibv_wc list \<Rightarrow> (addr \<Rightarrow> int)
    \<Rightarrow> (net_status_t list \<times> (addr \<Rightarrow> int) \<times> nat) res" where
  "ibv_poll_comp_impl nranks snap try_lock polled slots =
     (if \<not> try_lock then Inr ([], slots, 0)
      else case polled of
        Inl ne \<Rightarrow> Inl Assert_failed
      | Inr [] \<Rightarrow> Inr ([], slots, 0)
      | Inr (wc # wcs) \<Rightarrow>
          (case snap of
             None \<Rightarrow> Inl Undefined_behaviour
           | Some sn \<Rightarrow> poll_loop nranks sn (wc # wcs) slots 0))"

lemma poll_loop_slots:
  assumes "poll_loop nranks sn wcs slots k = Inr (sts, slots', k')"
  shows "slots' = fold (\<lambda>wc. credit_slot nranks (get_entry sn (wc_qp_num wc)) wc) wcs slots"
  using assms
  by (induction nranks sn wcs slots k arbitrary: sts slots' k' rule: poll_loop.induct)
    (auto simp: res_iff Let_def split: prod.splits)

lemma fold_credit_slot:
  assumes "0 \<le> qe_rank e" "qe_rank e < int nranks" "qe_slots e \<noteq> 0"
    and "\<forall>wc\<in>set wcs. qe_slots (get_entry sn (wc_qp_num wc)) = qe_slots e \<longrightarrow> get_entry sn (wc_qp_num wc) = e"
  shows "fold (\<lambda>wc. credit_slot nranks (get_entry sn (wc_qp_num wc)) wc) wcs slots (qe_slots e)
       = slots (qe_slots e) + int (length (filter (\<lambda>wc. \<not> is_receive wc \<and> get_entry sn (wc_qp_num wc) = e) wcs))"
  using assms
proof (induction wcs arbitrary: slots)
  case (Cons wc wcs)
  then show ?case by (auto simp: credit_slot_def)
qed simp

section \<open>Slots under concurrency\<close>

text \<open>One queue pair, many threads.  The counter, the requests the queue pair has accepted and not yet
  completed, and where each thread is in \<^verbatim>\<open>try_acquire_slot\<close> and after it; \<open>Sl_sub prev\<close> is after the
  \<^verbatim>\<open>fetch_sub\<close>.\<close>

datatype slot_phase = Sl_idle | Sl_checked | Sl_sub int | Sl_acquired

record slot_state =
  sl_counter :: int
  sl_in_flight :: nat
  sl_phases :: "slot_phase list"

definition slot_init :: "nat \<Rightarrow> nat \<Rightarrow> slot_state" where
  "slot_init net_max_sends nthreads =
     \<lparr>sl_counter = int net_max_sends, sl_in_flight = 0, sl_phases = replicate nthreads Sl_idle\<rparr>"

inductive slot_step :: "int \<Rightarrow> slot_state \<Rightarrow> slot_state \<Rightarrow> bool" for threshold where
  load: "i < length (sl_phases s) \<Longrightarrow> sl_phases s ! i = Sl_idle \<Longrightarrow> high_priority \<or> threshold < sl_counter s \<Longrightarrow>
    slot_step threshold s (s\<lparr>sl_phases := (sl_phases s)[i := Sl_checked]\<rparr>)"
| fetch_sub: "i < length (sl_phases s) \<Longrightarrow> sl_phases s ! i = Sl_checked \<Longrightarrow>
    slot_step threshold s (s\<lparr>sl_counter := sl_counter s - 1,
                             sl_phases := (sl_phases s)[i := Sl_sub (sl_counter s)]\<rparr>)"
| refuse: "i < length (sl_phases s) \<Longrightarrow> sl_phases s ! i = Sl_sub prev \<Longrightarrow> prev \<le> 0 \<Longrightarrow>
    slot_step threshold s (s\<lparr>sl_counter := sl_counter s + 1, sl_phases := (sl_phases s)[i := Sl_idle]\<rparr>)"
| acquire: "i < length (sl_phases s) \<Longrightarrow> sl_phases s ! i = Sl_sub prev \<Longrightarrow> 0 < prev \<Longrightarrow>
    slot_step threshold s (s\<lparr>sl_phases := (sl_phases s)[i := Sl_acquired]\<rparr>)"
| post: "i < length (sl_phases s) \<Longrightarrow> sl_phases s ! i = Sl_acquired \<Longrightarrow>
    slot_step threshold s (s\<lparr>sl_in_flight := sl_in_flight s + 1, sl_phases := (sl_phases s)[i := Sl_idle]\<rparr>)"
| release: "i < length (sl_phases s) \<Longrightarrow> sl_phases s ! i = Sl_acquired \<Longrightarrow>
    slot_step threshold s (s\<lparr>sl_counter := sl_counter s + 1, sl_phases := (sl_phases s)[i := Sl_idle]\<rparr>)"
| complete: "0 < sl_in_flight s \<Longrightarrow>
    slot_step threshold s (s\<lparr>sl_counter := sl_counter s + 1, sl_in_flight := sl_in_flight s - 1\<rparr>)"

inductive slot_reach :: "nat \<Rightarrow> int \<Rightarrow> slot_state \<Rightarrow> bool" for mx threshold where
  init: "slot_reach mx threshold (slot_init mx n)"
| step: "slot_reach mx threshold s \<Longrightarrow> slot_step threshold s s' \<Longrightarrow> slot_reach mx threshold s'"

text \<open>What a thread has taken from the counter, and whether it holds a slot.\<close>

fun taken :: "slot_phase \<Rightarrow> nat" where
  "taken (Sl_sub prev) = 1"
| "taken Sl_acquired = 1"
| "taken _ = 0"

fun holds_slot :: "slot_phase \<Rightarrow> nat" where
  "holds_slot (Sl_sub prev) = (if 0 < prev then 1 else 0)"
| "holds_slot Sl_acquired = 1"
| "holds_slot _ = 0"

definition slot_inv :: "nat \<Rightarrow> slot_state \<Rightarrow> bool" where
  "slot_inv mx s \<longleftrightarrow>
     sl_counter s + int (sl_in_flight s) + int (sum_list (map taken (sl_phases s))) = int mx
     \<and> sl_in_flight s + sum_list (map holds_slot (sl_phases s)) \<le> mx"

lemma holds_slot_le_taken: "holds_slot p \<le> taken p"
  by (cases p) auto

lemma sum_holds_slot_le: "sum_list (map holds_slot ps) \<le> sum_list (map taken ps)"
  by (induction ps) (auto intro: add_mono holds_slot_le_taken)

lemma slot_inv_step:
  assumes "slot_step threshold s s'" "slot_inv mx s"
  shows "slot_inv mx s'"
proof -
  have upd: "slot_inv mx (s\<lparr>sl_counter := c, sl_in_flight := f, sl_phases := (sl_phases s)[i := p]\<rparr>)"
    if i: "i < length (sl_phases s)"
      and c: "c + int f + int (taken p) = sl_counter s + int (sl_in_flight s) + int (taken (sl_phases s ! i))"
      and f: "f + holds_slot p + sum_list (map holds_slot (sl_phases s)) \<le> mx + holds_slot (sl_phases s ! i)"
    for i p c f
    using sum_list_update_nat [OF i, of taken p] sum_list_update_nat [OF i, of holds_slot p] c f assms(2)
    by (auto simp: slot_inv_def)
  note inv = assms(2) [unfolded slot_inv_def] sum_holds_slot_le [of "sl_phases s"]
  from assms(1) show ?thesis
  proof cases
    case (load i)
    then show ?thesis using upd [of i "sl_counter s" "sl_in_flight s" Sl_checked] inv by simp
  next
    case (fetch_sub i)
    have "sl_in_flight s + holds_slot (Sl_sub (sl_counter s)) + sum_list (map holds_slot (sl_phases s)) \<le> mx"
      using inv by auto
    with fetch_sub show ?thesis
      using upd [of i "sl_counter s - 1" "sl_in_flight s" "Sl_sub (sl_counter s)"] by (simp del: holds_slot.simps(1))
  next
    case (refuse i prev)
    then show ?thesis using upd [of i "sl_counter s + 1" "sl_in_flight s" Sl_idle] inv by simp
  next
    case (acquire i prev)
    then show ?thesis using upd [of i "sl_counter s" "sl_in_flight s" Sl_acquired] inv by simp
  next
    case (post i)
    then show ?thesis using upd [of i "sl_counter s" "sl_in_flight s + 1" Sl_idle] inv by simp
  next
    case (release i)
    then show ?thesis using upd [of i "sl_counter s + 1" "sl_in_flight s" Sl_idle] inv by simp
  next
    case complete
    then show ?thesis using inv by (auto simp: slot_inv_def)
  qed
qed

lemma slot_init_inv: "slot_inv mx (slot_init mx n)"
  by (simp add: slot_inv_def slot_init_def sum_list_replicate)

lemma slot_reach_inv: "slot_reach mx threshold s \<Longrightarrow> slot_inv mx s"
  by (induction rule: slot_reach.induct) (auto intro: slot_init_inv slot_inv_step)

section \<open>Properties\<close>

text \<open>C29.  The table finds its queue pairs: adding queue pairs always finds a modulus (queue pair
  numbers are distinct and have 24 bits), after it every new queue pair maps to its rank and its
  slot counter, and every queue pair that was there before still maps to its own.\<close>

theorem qp2rank_lookup:
  assumes "slots_set (qp_entries m)" "distinct (map fst (qp_entries m) @ qps)"
    and "\<forall>q\<in>set (map fst (qp_entries m) @ qps). unat q < 2 ^ 24" "nranks \<le> 2 ^ 24"
    and "length sl = length qps" "0 \<notin> set sl" "qps \<noteq> []"
  shows "\<exists>m' sn. add_qps nranks qps (Some sl) m = Inr m' \<and> current_snapshot m' = Some sn
       \<and> slots_set (qp_entries m')
       \<and> (\<forall>i<length qps. get_entry sn (qps ! i) = \<lparr>qe_rank = int i, qe_slots = sl ! i\<rparr>)
       \<and> (\<forall>q e. (q, e) \<in> set (qp_entries m) \<longrightarrow> get_entry sn q = e)"
proof -
  let ?new = "map (\<lambda>i. (qps ! i, \<lparr>qe_rank = int i, qe_slots = sl ! i\<rparr>)) [0..<length qps]"
  let ?m = "m\<lparr>qp_entries := qp_entries m @ ?new\<rparr>"
  have set_m: "slots_set (qp_entries ?m)"
    using assms(1,5,6) by (auto simp: slots_set_def in_set_conv_nth)
  have fsts: "map fst (qp_entries ?m) = map fst (qp_entries m) @ qps"
    by (simp add: comp_def map_nth)
  obtain m' where m': "rebuild_locked nranks ?m = Inr m'"
    using rebuild_succeeds [of ?m nranks, unfolded fsts, OF assms(2-4)] by blast
  from rebuild_finds [OF m' set_m] obtain sn where "qp_entries m' = qp_entries m @ ?new"
      and sn: "current_snapshot m' = Some sn"
      and found: "\<forall>q e. (q, e) \<in> set (qp_entries m @ ?new) \<longrightarrow> get_entry sn q = e" by auto
  moreover have "add_qps nranks qps (Some sl) m = Inr m'"
    using m' assms(7) by (simp add: add_qps_def)
  moreover have "get_entry sn (qps ! i) = \<lparr>qe_rank = int i, qe_slots = sl ! i\<rparr>" if "i < length qps" for i
    using found that by auto
  ultimately show ?thesis using set_m by auto
qed

theorem qp2rank_lookup_witness:
  "\<exists>m' sn. add_qps 2 [5, 7] (Some [100, 108]) qp2rank_empty = Inr m' \<and> current_snapshot m' = Some sn
     \<and> get_entry sn 7 = \<lparr>qe_rank = 1, qe_slots = 108\<rparr>"
proof -
  from qp2rank_lookup [of qp2rank_empty "[5, 7]" 2 "[100, 108]"]
  obtain m' sn where r: "add_qps 2 [5, 7] (Some [100, 108]) qp2rank_empty = Inr m'" "current_snapshot m' = Some sn"
      and e: "\<forall>i<length [5, 7 :: u32]. get_entry sn ([5, 7] ! i) = \<lparr>qe_rank = int i, qe_slots = [100, 108] ! i\<rparr>"
    by (simp add: qp2rank_empty_def) blast
  from e have "get_entry sn ([5, 7] ! 1) = \<lparr>qe_rank = int 1, qe_slots = [100, 108] ! 1\<rparr>" by (elim allE [of _ 1]) simp
  with r show ?thesis by auto
qed

text \<open>C17.  The send queue never overflows: in every interleaving of threads that post to a queue pair
  and of completions, the requests in flight stay within \<^verbatim>\<open>net_max_sends\<close>, and the counter is below
  \<^verbatim>\<open>net_max_sends\<close> whenever a completion is about to increment it.\<close>

theorem qp_slots_bounded:
  assumes "slot_reach mx threshold s"
  shows "sl_in_flight s + sum_list (map holds_slot (sl_phases s)) \<le> mx
       \<and> sl_counter s = int mx - int (sl_in_flight s) - int (sum_list (map taken (sl_phases s)))
       \<and> (0 < sl_in_flight s \<longrightarrow> sl_counter s < int mx)"
  using slot_reach_inv [OF assms] by (auto simp: slot_inv_def)

theorem qp_slots_bounded_witness:
  "\<exists>s. slot_reach 1 0 s \<and> sl_counter s = -1 \<and> sl_phases s = [Sl_sub 1, Sl_sub 0]
     \<and> sl_in_flight s + sum_list (map holds_slot (sl_phases s)) \<le> 1"
proof -
  let ?s0 = "slot_init 1 2"
  let ?s1 = "?s0\<lparr>sl_phases := [Sl_checked, Sl_idle]\<rparr>"
  let ?s2 = "?s0\<lparr>sl_phases := [Sl_checked, Sl_checked]\<rparr>"
  let ?s3 = "?s0\<lparr>sl_counter := 0, sl_phases := [Sl_sub 1, Sl_checked]\<rparr>"
  let ?s4 = "?s0\<lparr>sl_counter := -1, sl_phases := [Sl_sub 1, Sl_sub 0]\<rparr>"
  have "slot_reach 1 0 ?s0" by (rule slot_reach.init)
  moreover have "slot_step 0 ?s0 ?s1" "slot_step 0 ?s1 ?s2" "slot_step 0 ?s2 ?s3" "slot_step 0 ?s3 ?s4"
    using slot_step.load [of 0 ?s0 _ 0] slot_step.load [of 1 ?s1 _ 0] fetch_sub [of 0 ?s2 0] fetch_sub [of 1 ?s3 0]
    by (simp_all add: slot_init_def numeral_2_eq_2)
  ultimately have "slot_reach 1 0 ?s4" by (meson slot_reach.step)
  from qp_slots_bounded [OF this] this show ?thesis by (intro exI [of _ ?s4]) simp
qed

text \<open>C27.  No path of a post leaks or invents a slot: an accepted post takes one slot of its queue
  pair, a low-priority one never from the reserve, and a post that asks for a retry leaves the
  endpoint as it was.\<close>

theorem ibv_post_takes_one_slot:
  assumes "ibv_post_req vb rq hp n ie = Inr (e, ie')"
  shows "if is_retry e then ie' = ie
         else qp_remaining_slots ie'
                = (qp_remaining_slots ie)[nat (rq_rank rq) := qp_remaining_slots ie ! nat (rq_rank rq) - 1]
            \<and> 0 \<le> qp_remaining_slots ie ! nat (rq_rank rq) - 1
            \<and> (hp \<or> ie_threshold ie < qp_remaining_slots ie ! nat (rq_rank rq))"
  using ibv_post_spec [OF assms] by auto

theorem ibv_post_takes_one_slot_witness:
  "let vb = \<lparr>vb_post_send = \<lambda>_ _. 0, vb_try_lock = \<lambda>_. True, vb_lkey = \<lambda>_. 0\<rparr>;
       ie = \<lparr>ie_max_inject_size = 8, ie_threshold = 2, qp_remaining_slots = [4, 3]\<rparr>
   in \<exists>ie'. ibv_post_req vb (mk_sends 1 [1] 9 No_ctx) False 0 ie = Inr (ec_done, ie')
        \<and> qp_remaining_slots ie' = [4, 2]"
proof -
  let ?vb = "\<lparr>vb_post_send = \<lambda>_ _. 0, vb_try_lock = \<lambda>_. True, vb_lkey = \<lambda>_. 0\<rparr>"
  let ?ie = "\<lparr>ie_max_inject_size = 8, ie_threshold = 2, qp_remaining_slots = [4, 3]\<rparr>"
  obtain ie' where r: "ibv_post_req ?vb (mk_sends 1 [1] 9 No_ctx) False 0 ?ie = Inr (ec_done, ie')"
    by (simp add: ibv_post_req_def mk_sends_def ibv_post_sends_impl_def ibv_issue_def try_acquire_slot_def)
  show ?thesis
    using ibv_post_takes_one_slot [OF r] r by (simp add: ec_category mk_sends_def)
qed

text \<open>C28.  A poll gives back to a registered queue pair exactly one slot for each of its send-side
  completions in the batch, failed ones included, and none for receives or for other queue pairs.\<close>

theorem ibv_poll_returns_slots:
  assumes "ibv_poll_comp_impl nranks (Some sn) True (Inr wcs) slots = Inr (sts, slots', k)"
    and qp: "get_entry sn q = en" "0 \<le> qe_rank en" "qe_rank en < int nranks" "qe_slots en \<noteq> 0"
    and own: "\<forall>wc\<in>set wcs. qe_slots (get_entry sn (wc_qp_num wc)) = qe_slots en \<longrightarrow> wc_qp_num wc = q"
  shows "slots' (qe_slots en)
       = slots (qe_slots en) + int (length (filter (\<lambda>wc. \<not> is_receive wc \<and> wc_qp_num wc = q) wcs))"
proof -
  have eq: "filter (\<lambda>wc. \<not> is_receive wc \<and> get_entry sn (wc_qp_num wc) = en) wcs
      = filter (\<lambda>wc. \<not> is_receive wc \<and> wc_qp_num wc = q) wcs"
    using own qp(1) by (intro filter_cong) auto
  have "poll_loop nranks sn wcs slots 0 = Inr (sts, slots', k)"
    using assms(1) by (cases wcs) (simp_all add: ibv_poll_comp_impl_def del: poll_loop.simps(2))
  from poll_loop_slots [OF this] show ?thesis
    using fold_credit_slot [OF qp(2-4), of wcs sn slots] own qp(1) unfolding eq by auto
qed

theorem ibv_poll_returns_slots_witness:
  "let sn = \<lparr>sn_mod = 3, sn_table = [qp_entry_default, \<lparr>qe_rank = 0, qe_slots = 100\<rparr>, \<lparr>qe_rank = 1, qe_slots = 108\<rparr>]\<rparr>;
       wc = \<lambda>q op ok. \<lparr>wc_success = ok, wc_opcode = op, wc_qp_num = q, wc_wr_id = 0, wc_byte_len = 0, wc_imm_data = 0\<rparr>
   in \<exists>sts slots' k. ibv_poll_comp_impl 2 (Some sn) True
          (Inr [wc 7 IBV_WC_SEND True, wc 5 IBV_WC_SEND True, wc 7 IBV_WC_RECV True, wc 7 IBV_WC_RDMA_READ False])
          (\<lambda>_. 4) = Inr (sts, slots', k) \<and> slots' 100 = 6"
proof -
  let ?sn = "\<lparr>sn_mod = 3, sn_table = [qp_entry_default, \<lparr>qe_rank = 0, qe_slots = 100\<rparr>, \<lparr>qe_rank = 1, qe_slots = 108\<rparr>]\<rparr>"
  let ?wc = "\<lambda>q op ok. \<lparr>wc_success = ok, wc_opcode = op, wc_qp_num = q, wc_wr_id = 0, wc_byte_len = 0, wc_imm_data = 0\<rparr>"
  let ?wcs = "[?wc 7 IBV_WC_SEND True, ?wc 5 IBV_WC_SEND True, ?wc 7 IBV_WC_RECV True, ?wc 7 IBV_WC_RDMA_READ False]"
  have en: "get_entry ?sn 7 = \<lparr>qe_rank = 0, qe_slots = 100\<rparr>" "get_entry ?sn 5 = \<lparr>qe_rank = 1, qe_slots = 108\<rparr>"
    by (simp_all add: get_entry_def)
  obtain sts slots' k where r: "ibv_poll_comp_impl 2 (Some ?sn) True (Inr ?wcs) (\<lambda>_. 4) = Inr (sts, slots', k)"
    using en by (simp add: ibv_poll_comp_impl_def ibv_status_def Let_def)
  have "slots' 100 = 6"
    using ibv_poll_returns_slots [OF r en(1)] en(2) by (simp add: is_receive_def)
  with r show ?thesis by (simp del: poll_loop.simps)
qed

text \<open>The table stores no queue pair numbers, so a queue pair that has been removed is not recognised
  as unknown: its late completions are credited to the queue pair whose position it shares.\<close>

theorem removed_qp_aliases:
  "\<exists>m. bindR (bindR (add_qps 1 [7] (Some [108]) qp2rank_empty) (add_qps 1 [5] (Some [100]))) (remove_qps 1 [5]) = Inr m
     \<and> fst ` set (qp_entries m) = {7}
     \<and> (\<exists>sn. current_snapshot m = Some sn \<and> get_entry sn 5 = \<lparr>qe_rank = 0, qe_slots = 108\<rparr>)"
proof -
  let ?e7 = "(7, \<lparr>qe_rank = 0, qe_slots = 108\<rparr>) :: u32 \<times> qp_entry_t"
  let ?e5 = "(5, \<lparr>qe_rank = 0, qe_slots = 100\<rparr>) :: u32 \<times> qp_entry_t"
  have one: "find_mod [?e7] (Suc 0) = Some (1, [snd ?e7])"
    by (subst find_mod.simps) (simp add: INT32_MAX_def qp_entry_default_def)
  have two: "\<exists>r. find_mod [?e7, ?e5] (Suc 0) = Some r"
    using rebuild_succeeds [of "\<lparr>qp_entries = [?e7, ?e5], current_snapshot = None\<rparr>" 1]
    by (auto simp: rebuild_locked_def split: option.splits)
  let ?m = "\<lparr>qp_entries = [?e7], current_snapshot = Some \<lparr>sn_mod = 1, sn_table = [snd ?e7]\<rparr>\<rparr>"
  have "bindR (bindR (add_qps 1 [7] (Some [108]) qp2rank_empty) (add_qps 1 [5] (Some [100]))) (remove_qps 1 [5]) = Inr ?m"
    using one two by (auto simp: add_qps_def remove_qps_def rebuild_locked_def qp2rank_empty_def)
  then show ?thesis by (intro exI [of _ ?m]) (simp add: get_entry_def)
qed

end
