(* ===== verification/LCI_Graph.thy ===== *)
theory LCI_Graph
  imports LCI_Prelude
begin

text \<open>
  The completion graph of \<^verbatim>\<open>src/comp/graph.hpp\<close>: nodes with a function to run, edges with a function to
  call, and the counters by which the completion of a node triggers its successors.

  \<^verbatim>\<open>mark_complete\<close> is a loop over the out-edges of a node that calls \<^verbatim>\<open>trigger_node\<close>, which calls
  \<^verbatim>\<open>mark_complete\<close> again if the node's function is done at once.  Several threads may be in such loops at
  the same time, because the completion of a posted operation is signalled by whichever thread makes
  progress.  The model keeps each activation of the loop as a value: the node, the status passed to
  it, the edges it has yet to process and its local flag \<^verbatim>\<open>graph_completed\<close>.  One step runs one iteration
  of one activation, or leaves one loop, or signals one posted operation, so the step relation admits
  every interleaving of the atomic counter updates, those of one call stack included.  An access to
  the graph after \<^verbatim>\<open>delete graph\<close> is undefined behaviour.
\<close>

section \<open>The graph\<close>

datatype graph_node_t = GRAPH_START | GRAPH_END | Node nat

text \<open>A null function pointer is \<open>0\<close>.\<close>

type_synonym edge_t = "graph_node_t \<times> addr"

record node_impl_t =
  signals_received :: int
  signals_expected :: int
  nd_fn :: addr
  nd_value :: addr
  nd_free_cb :: addr
  out_edges :: "edge_t list"

record graph_t =
  m_comp :: addr
  m_start_node :: node_impl_t
  g_nodes :: "node_impl_t list"
  m_end_signals_expected :: int
  m_end_value :: addr
  m_end_signals_received :: int

definition node_impl_new :: "addr \<Rightarrow> addr \<Rightarrow> addr \<Rightarrow> node_impl_t" where
  "node_impl_new fn val free_cb = \<lparr>signals_received = 0, signals_expected = 0, nd_fn = fn, nd_value = val, nd_free_cb = free_cb, out_edges = []\<rparr>"

text \<open>The constructor does not initialise \<^verbatim>\<open>m_end_signals_received\<close>: \<open>junk\<close> is what the memory held.\<close>

definition graph_new :: "int \<Rightarrow> addr \<Rightarrow> addr \<Rightarrow> graph_t" where
  "graph_new junk cmp user_context = \<lparr>m_comp = cmp, m_start_node = node_impl_new 0 0 0, g_nodes = [],
     m_end_signals_expected = 0, m_end_value = user_context, m_end_signals_received = junk\<rparr>"

definition add_node :: "addr \<Rightarrow> addr \<Rightarrow> addr \<Rightarrow> graph_t \<Rightarrow> graph_node_t \<times> graph_t" where
  "add_node fn val free_cb g = (Node (length (g_nodes g)), g\<lparr>g_nodes := g_nodes g @ [node_impl_new fn val free_cb]\<rparr>)"

fun get_node :: "graph_node_t \<Rightarrow> graph_t \<Rightarrow> node_impl_t res" where
  "get_node GRAPH_START g = Inr (m_start_node g)"
| "get_node GRAPH_END g = Inl Undefined_behaviour"
| "get_node (Node i) g = (if i < length (g_nodes g) then Inr (g_nodes g ! i) else Inl Undefined_behaviour)"

fun set_node :: "graph_node_t \<Rightarrow> node_impl_t \<Rightarrow> graph_t \<Rightarrow> graph_t" where
  "set_node GRAPH_START nd g = g\<lparr>m_start_node := nd\<rparr>"
| "set_node GRAPH_END nd g = g"
| "set_node (Node i) nd g = g\<lparr>g_nodes := (g_nodes g)[i := nd]\<rparr>"

definition add_edge :: "graph_node_t \<Rightarrow> graph_node_t \<Rightarrow> addr \<Rightarrow> graph_t \<Rightarrow> graph_t res" where
  "add_edge src dst fn g =
     bindR (lci_assert (dst \<noteq> GRAPH_START)) (\<lambda>_.
     bindR (lci_assert (src \<noteq> GRAPH_END)) (\<lambda>_.
     bindR (get_node src g) (\<lambda>s.
     let g = set_node src (s\<lparr>out_edges := out_edges s @ [(dst, fn)]\<rparr>) g in
     if dst = GRAPH_END then Inr (g\<lparr>m_end_signals_expected := m_end_signals_expected g + 1\<rparr>)
     else bindR (get_node dst g) (\<lambda>d. Inr (set_node dst (d\<lparr>signals_expected := signals_expected d + 1\<rparr>) g)))))"

definition graph_test :: "graph_t \<Rightarrow> status_t" where
  "graph_test g =
     (if m_end_signals_received g = m_end_signals_expected g
      then (set_done status_init)\<lparr>st_user_context := m_end_value g\<rparr> else set_retry status_init)"

section \<open>Executing it\<close>

text \<open>What happens while a graph executes, in order: the runs of node functions and the calls of edge
  functions with their arguments, the entries into \<^verbatim>\<open>mark_complete\<close> and the completion of the graph.\<close>

datatype gevent =
    Ev_run nat addr
  | Ev_enter graph_node_t
  | Ev_edge graph_node_t graph_node_t addr status_t addr addr
  | Ev_complete

record activation =
  ac_node :: graph_node_t
  ac_status :: status_t
  ac_edges :: "edge_t list"
  ac_completed :: bool

record graph_run =
  gr_graph :: graph_t
  gr_deleted :: bool
  gr_active :: "activation list"
  gr_posted :: "nat list"
  gr_log :: "gevent list"
  gr_freed :: "(addr \<times> addr) list"
  gr_signals :: "(addr \<times> status_t) list"

text \<open>Entering \<^verbatim>\<open>mark_complete\<close>: the counter of the node is reset and the loop over its edges begins.\<close>

definition mark_complete :: "graph_node_t \<Rightarrow> status_t \<Rightarrow> graph_run \<Rightarrow> graph_run res" where
  "mark_complete n st r =
     (if gr_deleted r then Inl Undefined_behaviour
      else bindR (get_node n (gr_graph r)) (\<lambda>nd.
        Inr (r\<lparr>gr_graph := set_node n (nd\<lparr>signals_received := 0\<rparr>) (gr_graph r),
               gr_active := gr_active r @ [\<lparr>ac_node = n, ac_status = st, ac_edges = out_edges nd, ac_completed = False\<rparr>],
               gr_log := gr_log r @ [Ev_enter n]\<rparr>)))"

text \<open>\<open>fn_status i\<close> is what the function of node \<open>i\<close> returns.  A node whose function has posted an operation is
  completed later, by \<^verbatim>\<open>signal\<close>.\<close>

definition trigger_node :: "(nat \<Rightarrow> status_t) \<Rightarrow> nat \<Rightarrow> graph_run \<Rightarrow> graph_run res" where
  "trigger_node fn_status i r =
     bindR (get_node (Node i) (gr_graph r)) (\<lambda>nd.
     let st = (if nd_fn nd \<noteq> 0 then fn_status i else set_done status_init);
         r = r\<lparr>gr_log := gr_log r @ [Ev_run i (nd_value nd)]\<rparr> in
     if is_done (st_error st) then mark_complete (Node i) st r
     else bindR (lci_assert (\<not> is_retry (st_error st))) (\<lambda>_. Inr (r\<lparr>gr_posted := i # gr_posted r\<rparr>)))"

text \<open>One iteration of activation \<open>k\<close> over the edges of its node.\<close>

definition edge_iteration :: "(nat \<Rightarrow> status_t) \<Rightarrow> nat \<Rightarrow> graph_run \<Rightarrow> graph_run res" where
  "edge_iteration fn_status k r =
     (if gr_deleted r then Inl Undefined_behaviour
      else let a = gr_active r ! k in
      case ac_edges a of
        [] \<Rightarrow> Inr r
      | (next_node, edge_fn) # es \<Rightarrow>
          bindR (get_node (ac_node a) (gr_graph r)) (\<lambda>src.
          if next_node = GRAPH_END then
            let g = gr_graph r; signals = m_end_signals_received g + 1;
                completed = (signals = m_end_signals_expected g);
                ev = Ev_edge (ac_node a) GRAPH_END edge_fn (ac_status a) (nd_value src) (m_end_value g);
                r = r\<lparr>gr_graph := g\<lparr>m_end_signals_received := signals\<rparr>, gr_log := gr_log r @ [ev],
                      gr_active := (gr_active r)[k := a\<lparr>ac_edges := es, ac_completed := ac_completed a \<or> completed\<rparr>]\<rparr> in
            bindR (lci_assert (completed \<or> signals < m_end_signals_expected g)) (\<lambda>_. Inr r)
          else
            bindR (get_node next_node (gr_graph r)) (\<lambda>nd.
            let signals = signals_received nd + 1;
                ev = Ev_edge (ac_node a) next_node edge_fn (ac_status a) (nd_value src) (nd_value nd);
                r = r\<lparr>gr_graph := set_node next_node (nd\<lparr>signals_received := signals\<rparr>) (gr_graph r), gr_log := gr_log r @ [ev],
                      gr_active := (gr_active r)[k := a\<lparr>ac_edges := es\<rparr>]\<rparr> in
            if signals = signals_expected nd then
              (case next_node of Node i \<Rightarrow> trigger_node fn_status i r | _ \<Rightarrow> Inl Undefined_behaviour)
            else bindR (lci_assert (signals < signals_expected nd)) (\<lambda>_. Inr r))))"

text \<open>The destructor calls the free function of every node.\<close>

definition freed_by :: "graph_t \<Rightarrow> (addr \<times> addr) list" where
  "freed_by g = map (\<lambda>nd. (nd_free_cb nd, nd_value nd)) (filter (\<lambda>nd. nd_free_cb nd \<noteq> 0) (g_nodes g))"

text \<open>Leaving the loop of activation \<open>k\<close>.\<close>

definition loop_exit :: "nat \<Rightarrow> graph_run \<Rightarrow> graph_run res" where
  "loop_exit k r =
     (let a = gr_active r ! k; g = gr_graph r;
          r = r\<lparr>gr_active := take k (gr_active r) @ drop (Suc k) (gr_active r)\<rparr> in
      if \<not> ac_completed a then Inr r
      else if gr_deleted r then Inl Undefined_behaviour
      else
        let r = r\<lparr>gr_log := gr_log r @ [Ev_complete]\<rparr> in
        if m_comp g = 0 then Inr r
        else Inr (r\<lparr>gr_deleted := True, gr_freed := gr_freed r @ freed_by g,
                    gr_signals := gr_signals r @ [(m_comp g, (set_done status_init)\<lparr>st_user_context := m_end_value g\<rparr>)]\<rparr>))"

definition graph_start :: "graph_t \<Rightarrow> graph_run res" where
  "graph_start g = mark_complete GRAPH_START ((set_done status_init))
     \<lparr>gr_graph = g\<lparr>m_end_signals_received := 0\<rparr>, gr_deleted = False, gr_active = [], gr_posted = [], gr_log = [], gr_freed = [], gr_signals = []\<rparr>"

text \<open>The completion of the operation that node \<open>i\<close> has posted; its status carries the node.\<close>

definition graph_signal :: "nat \<Rightarrow> status_t \<Rightarrow> graph_run \<Rightarrow> graph_run res" where
  "graph_signal i st r = mark_complete (Node i) st (r\<lparr>gr_posted := remove1 i (gr_posted r)\<rparr>)"

inductive graph_step :: "(nat \<Rightarrow> status_t) \<Rightarrow> graph_run \<Rightarrow> graph_run \<Rightarrow> bool" for fn_status where
  edge: "k < length (gr_active r) \<Longrightarrow> ac_edges (gr_active r ! k) \<noteq> [] \<Longrightarrow> edge_iteration fn_status k r = Inr r' \<Longrightarrow> graph_step fn_status r r'"
| exit: "k < length (gr_active r) \<Longrightarrow> ac_edges (gr_active r ! k) = [] \<Longrightarrow> loop_exit k r = Inr r' \<Longrightarrow> graph_step fn_status r r'"
| signal: "i \<in> set (gr_posted r) \<Longrightarrow> graph_signal i st r = Inr r' \<Longrightarrow> graph_step fn_status r r'"

inductive graph_reach :: "(nat \<Rightarrow> status_t) \<Rightarrow> graph_t \<Rightarrow> graph_run \<Rightarrow> bool" for fn_status g where
  start: "graph_start g = Inr r \<Longrightarrow> graph_reach fn_status g r"
| step: "graph_reach fn_status g r \<Longrightarrow> graph_step fn_status r r' \<Longrightarrow> graph_reach fn_status g r'"

section \<open>Well-formed graphs\<close>

definition sources :: "graph_t \<Rightarrow> graph_node_t set" where
  "sources g = insert GRAPH_START (Node ` {..<length (g_nodes g)})"

fun edges_of :: "graph_t \<Rightarrow> graph_node_t \<Rightarrow> edge_t list" where
  "edges_of g GRAPH_START = out_edges (m_start_node g)"
| "edges_of g GRAPH_END = []"
| "edges_of g (Node i) = (if i < length (g_nodes g) then out_edges (g_nodes g ! i) else [])"

definition deg :: "edge_t list \<Rightarrow> graph_node_t \<Rightarrow> nat" where
  "deg es n = count_list (map fst es) n"

definition in_degree :: "graph_t \<Rightarrow> graph_node_t \<Rightarrow> nat" where
  "in_degree g n = (\<Sum>u\<in>sources g. deg (edges_of g u) n)"

text \<open>Every edge leads to a node of the graph or to its end, every node expects as many signals as it
  has in-edges, and no signal has been received.\<close>

definition graph_ok :: "graph_t \<Rightarrow> bool" where
  "graph_ok g \<longleftrightarrow> (\<forall>u\<in>sources g. \<forall>e\<in>set (edges_of g u). fst e = GRAPH_END \<or> fst e \<in> sources g - {GRAPH_START})
     \<and> (\<forall>i<length (g_nodes g). signals_expected (g_nodes g ! i) = int (in_degree g (Node i)) \<and> signals_received (g_nodes g ! i) = 0)
     \<and> m_end_signals_expected g = int (in_degree g GRAPH_END)"

lemma deg_simps [simp]:
  "deg [] n = 0" "deg (e # es) n = (if fst e = n then 1 else 0) + deg es n" "deg (es @ fs) n = deg es n + deg fs n"
  by (simp_all add: deg_def)

lemma deg_pos_iff: "0 < deg es n \<longleftrightarrow> (\<exists>e\<in>set es. fst e = n)"
  by (induction es) auto

lemma finite_sources [simp]: "finite (sources g)"
  by (simp add: sources_def)

lemma sources_simps [simp]:
  "GRAPH_START \<in> sources g" "GRAPH_END \<notin> sources g" "Node i \<in> sources g \<longleftrightarrow> i < length (g_nodes g)"
  by (auto simp: sources_def)

lemma sources_cases:
  assumes "u \<in> sources g" obtains (start) "u = GRAPH_START" | (node) i where "u = Node i" "i < length (g_nodes g)"
  using assms by (auto simp: sources_def)

lemma get_node_source: "(\<exists>nd. get_node u g = Inr nd) \<longleftrightarrow> u \<in> sources g"
  by (cases u) auto

lemma edge_target:
  assumes "graph_ok g" "u \<in> sources g" "e \<in> set (edges_of g u)"
  obtains (the_end) "fst e = GRAPH_END" | (node) i where "fst e = Node i" "i < length (g_nodes g)"
proof -
  have "fst e = GRAPH_END \<or> fst e \<in> sources g - {GRAPH_START}"
    using assms unfolding graph_ok_def by blast
  then show ?thesis using that by (cases "fst e") auto
qed

lemma in_degree_pos:
  assumes "graph_ok g" "0 < in_degree g n"
  shows "n = GRAPH_END \<or> (\<exists>i<length (g_nodes g). n = Node i)"
proof -
  obtain u where u: "u \<in> sources g" "0 < deg (edges_of g u) n"
    using assms(2) unfolding in_degree_def by (metis gr0I sum.neutral less_nat_zero_code)
  then obtain e where e: "e \<in> set (edges_of g u)" "fst e = n" by (auto simp: deg_pos_iff)
  show ?thesis by (rule edge_target [OF assms(1) u(1) e(1)]) (use e(2) in auto)
qed

lemma graph_new_ok: "graph_ok (graph_new junk c v)"
  by (simp add: graph_ok_def graph_new_def sources_def in_degree_def node_impl_new_def)

lemma add_node_ok:
  assumes "graph_ok g"
  shows "graph_ok (snd (add_node fn v free g))"
proof -
  let ?g = "snd (add_node fn v free g)" and ?n = "length (g_nodes g)"
  have src: "sources ?g = insert (Node ?n) (sources g)"
    by (auto simp: add_node_def sources_def lessThan_Suc)
  have e: "edges_of ?g u = edges_of g u" for u
    by (cases u) (auto simp: add_node_def nth_append node_impl_new_def less_Suc_eq)
  have zero: "in_degree g (Node ?n) = 0"
    using in_degree_pos [OF assms, of "Node ?n"] by auto
  have d: "in_degree ?g n = in_degree g n" for n
    unfolding in_degree_def src e by (subst sum.insert) auto
  have "graph_ok g \<Longrightarrow> graph_ok ?g"
    using zero unfolding graph_ok_def d src e
    by (auto simp: add_node_def nth_append node_impl_new_def less_Suc_eq)
  with assms show ?thesis by blast
qed

lemma set_node_shape [simp]:
  "length (g_nodes (set_node n nd g)) = length (g_nodes g)" "sources (set_node n nd g) = sources g"
  "m_end_signals_expected (set_node n nd g) = m_end_signals_expected g" "m_end_signals_received (set_node n nd g) = m_end_signals_received g"
  "m_end_value (set_node n nd g) = m_end_value g" "m_comp (set_node n nd g) = m_comp g"
  by (cases n; simp add: sources_def)+

lemma nth_set_node [simp]:
  "i < length (g_nodes g) \<Longrightarrow> g_nodes (set_node u nd g) ! i = (if u = Node i then nd else g_nodes g ! i)"
  by (cases u) auto

lemma edges_of_set_node:
  "u \<in> sources g \<Longrightarrow> edges_of (set_node u nd g) v = (if v = u then out_edges nd else edges_of g v)"
  by (cases u; cases v) auto

lemma edges_of_cong [simp]:
  "edges_of (g\<lparr>m_end_signals_expected := x\<rparr>) u = edges_of g u" "edges_of (g\<lparr>m_end_signals_received := y\<rparr>) u = edges_of g u"
  "sources (g\<lparr>m_end_signals_expected := x\<rparr>) = sources g" "sources (g\<lparr>m_end_signals_received := y\<rparr>) = sources g"
  by (cases u; simp add: sources_def)+

lemma get_node_edges: "get_node u g = Inr nd \<Longrightarrow> edges_of g u = out_edges nd"
  by (cases u) (auto split: if_splits)

lemma graph_okI:
  assumes "sources g' = sources g" "\<And>u. u \<in> sources g \<Longrightarrow> edges_of g' u = edges_of g u @ (if u = src then [(dst, fn)] else [])"
    and "src \<in> sources g" "dst = GRAPH_END \<or> dst \<in> sources g - {GRAPH_START}"
    and "\<And>i. i < length (g_nodes g) \<Longrightarrow> signals_expected (g_nodes g' ! i) = signals_expected (g_nodes g ! i) + (if dst = Node i then 1 else 0)"
    and "\<And>i. i < length (g_nodes g) \<Longrightarrow> signals_received (g_nodes g' ! i) = signals_received (g_nodes g ! i)"
    and "m_end_signals_expected g' = m_end_signals_expected g + (if dst = GRAPH_END then 1 else 0)"
    and "length (g_nodes g') = length (g_nodes g)" "graph_ok g"
  shows "graph_ok g'"
proof -
  have "in_degree g' n = in_degree g n + (if n = dst then 1 else 0)" for n
  proof -
    have "in_degree g' n = (\<Sum>u\<in>sources g. deg (edges_of g u) n + (if u = src then if dst = n then 1 else 0 else 0))"
      unfolding in_degree_def assms(1) by (rule sum.cong) (simp_all add: assms(2))
    then show ?thesis using assms(3) by (simp add: sum.distrib in_degree_def)
  qed
  with assms show ?thesis by (auto simp: graph_ok_def split: if_splits)
qed

lemma add_edge_ok:
  assumes "graph_ok g" "add_edge src dst fn g = Inr g'"
  shows "graph_ok g'"
proof -
  obtain s where s: "get_node src g = Inr s" "src \<in> sources g" and ne: "dst \<noteq> GRAPH_START"
    using assms(2) get_node_source [of src g] by (auto simp: add_edge_def res_iff)
  define g1 where "g1 = set_node src (s\<lparr>out_edges := out_edges s @ [(dst, fn)]\<rparr>) g"
  have s_i: "src = Node i \<Longrightarrow> i < length (g_nodes g) \<and> g_nodes g ! i = s" for i using s by (auto split: if_splits)
  have g1: "sources g1 = sources g" "length (g_nodes g1) = length (g_nodes g)" "m_end_signals_expected g1 = m_end_signals_expected g"
      "edges_of g1 u = edges_of g u @ (if u = src then [(dst, fn)] else [])"
      "i < length (g_nodes g) \<Longrightarrow> signals_expected (g_nodes g1 ! i) = signals_expected (g_nodes g ! i)"
      "i < length (g_nodes g) \<Longrightarrow> signals_received (g_nodes g1 ! i) = signals_received (g_nodes g ! i)" for u i
    using s(2) s_i by (simp_all add: g1_def edges_of_set_node get_node_edges [OF s(1)])
  have run: "(if dst = GRAPH_END then Inr (g1\<lparr>m_end_signals_expected := m_end_signals_expected g1 + 1\<rparr>)
      else bindR (get_node dst g1) (\<lambda>d. Inr (set_node dst (d\<lparr>signals_expected := signals_expected d + 1\<rparr>) g1))) = Inr g'"
    using assms(2) s ne by (auto simp: add_edge_def res_iff Let_def g1_def)
  show ?thesis
  proof (cases dst)
    case GRAPH_START
    with ne show ?thesis by simp
  next
    case GRAPH_END
    with run g1 s show ?thesis by (intro graph_okI [OF _ _ _ _ _ _ _ _ assms(1), of g' src dst fn]) auto
  next
    case (Node j)
    with run g1(2) have j: "j < length (g_nodes g)" and g': "g' = set_node dst ((g_nodes g1 ! j)\<lparr>signals_expected := signals_expected (g_nodes g1 ! j) + 1\<rparr>) g1"
      by (auto split: if_splits)
    have "edges_of g' u = edges_of g1 u" for u
      using j g1(1,2) unfolding g' Node by (cases u) (auto simp: nth_list_update)
    moreover have "sources g' = sources g" "length (g_nodes g') = length (g_nodes g)" "m_end_signals_expected g' = m_end_signals_expected g"
      using g1(1-3) by (simp_all add: g' del: set_node.simps)
    moreover have "signals_expected (g_nodes g' ! i) = signals_expected (g_nodes g1 ! i) + (if dst = Node i then 1 else 0)"
        "signals_received (g_nodes g' ! i) = signals_received (g_nodes g1 ! i)" if "i < length (g_nodes g)" for i
      using g1(2) that Node by (simp_all add: g' del: set_node.simps)
    ultimately show ?thesis using Node j g1 s
      by (intro graph_okI [OF _ _ _ _ _ _ _ _ assms(1), of g' src dst fn]) simp_all
  qed
qed

section \<open>The invariant of an execution\<close>

text \<open>What an execution leaves alone: everything but the counters of received signals.\<close>

definition strip :: "node_impl_t \<Rightarrow> node_impl_t" where
  "strip nd = nd\<lparr>signals_received := 0\<rparr>"

definition static :: "graph_t \<Rightarrow> graph_t" where
  "static g = g\<lparr>m_start_node := strip (m_start_node g), g_nodes := map strip (g_nodes g), m_end_signals_received := 0\<rparr>"

lemma strip_upd [simp]: "strip (nd\<lparr>signals_received := x\<rparr>) = strip nd"
  by (simp add: strip_def)

lemma strip_eqD:
  assumes "strip a = strip b"
  shows "out_edges a = out_edges b" "signals_expected a = signals_expected b" "nd_fn a = nd_fn b" "nd_value a = nd_value b"
    "nd_free_cb a = nd_free_cb b"
  using arg_cong [OF assms, of out_edges] arg_cong [OF assms, of signals_expected] arg_cong [OF assms, of nd_fn]
    arg_cong [OF assms, of nd_value] arg_cong [OF assms, of nd_free_cb]
  by (simp_all add: strip_def)

lemma static_eqD:
  assumes "static g' = static g"
  shows "length (g_nodes g') = length (g_nodes g)" "sources g' = sources g" "edges_of g' u = edges_of g u"
    "m_comp g' = m_comp g" "m_end_value g' = m_end_value g" "m_end_signals_expected g' = m_end_signals_expected g"
    "i < length (g_nodes g) \<Longrightarrow> strip (g_nodes g' ! i) = strip (g_nodes g ! i)"
proof -
  have n: "map strip (g_nodes g') = map strip (g_nodes g)" "strip (m_start_node g') = strip (m_start_node g)"
    using arg_cong [OF assms, of g_nodes] arg_cong [OF assms, of m_start_node] by (simp_all add: static_def)
  show len: "length (g_nodes g') = length (g_nodes g)" using n(1) by (rule map_eq_imp_length_eq)
  show src: "sources g' = sources g" by (simp add: sources_def len)
  show str: "i < length (g_nodes g) \<Longrightarrow> strip (g_nodes g' ! i) = strip (g_nodes g ! i)" for i
    using n(1) len by (metis nth_map)
  show "edges_of g' u = edges_of g u"
    using n(2) len strip_eqD(1) [OF str] by (cases u) (auto dest: strip_eqD(1))
  show "m_comp g' = m_comp g" "m_end_value g' = m_end_value g" "m_end_signals_expected g' = m_end_signals_expected g"
    using arg_cong [OF assms, of m_comp] arg_cong [OF assms, of m_end_value] arg_cong [OF assms, of m_end_signals_expected]
    by (simp_all add: static_def)
qed

lemma static_set_node: "get_node u g = Inr nd \<Longrightarrow> static (set_node u (nd\<lparr>signals_received := x\<rparr>) g) = static g"
  by (cases u) (auto simp: static_def map_update list_update_id split: if_splits, metis length_map list_update_id nth_map)

lemma static_upd [simp]: "static (g\<lparr>m_end_signals_received := x\<rparr>) = static g"
  by (simp add: static_def)

text \<open>How often a node was triggered, how often \<^verbatim>\<open>mark_complete\<close> was entered for it, how many edges to it
  were processed, and how often the graph was completed.\<close>

fun ev_run :: "gevent \<Rightarrow> nat option" where "ev_run (Ev_run i v) = Some i" | "ev_run _ = None"

fun ev_enter :: "gevent \<Rightarrow> graph_node_t option" where "ev_enter (Ev_enter n) = Some n" | "ev_enter _ = None"

fun ev_dst :: "gevent \<Rightarrow> graph_node_t option" where "ev_dst (Ev_edge s d f st sv dv) = Some d" | "ev_dst _ = None"

definition runs :: "gevent list \<Rightarrow> nat \<Rightarrow> nat" where "runs l i = count_list (map ev_run l) (Some i)"

definition entries :: "gevent list \<Rightarrow> graph_node_t \<Rightarrow> nat" where "entries l n = count_list (map ev_enter l) (Some n)"

definition hits :: "gevent list \<Rightarrow> graph_node_t \<Rightarrow> nat" where "hits l n = count_list (map ev_dst l) (Some n)"

definition completions :: "gevent list \<Rightarrow> nat" where "completions l = count_list l Ev_complete"

lemma log_counts [simp]:
  "runs [] i = 0" "entries [] n = 0" "hits [] n = 0" "completions [] = 0"
  "runs (e # l) i = (if ev_run e = Some i then 1 else 0) + runs l i"
  "entries (e # l) n = (if ev_enter e = Some n then 1 else 0) + entries l n"
  "hits (e # l) n = (if ev_dst e = Some n then 1 else 0) + hits l n"
  "completions (e # l) = (if e = Ev_complete then 1 else 0) + completions l"
  "runs (l @ m) i = runs l i + runs m i" "entries (l @ m) n = entries l n + entries m n"
  "hits (l @ m) n = hits l n + hits m n" "completions (l @ m) = completions l + completions m"
  by (simp_all add: runs_def entries_def hits_def completions_def)

text \<open>A weight of the edges that are still to be processed: those of the activations, and those of the
  nodes for which \<^verbatim>\<open>mark_complete\<close> has not been entered.  The edges to one node are one such weight, the
  number of all edges is another; the latter bounds the steps that an execution can still make.\<close>

definition weight :: "(edge_t list \<Rightarrow> nat) \<Rightarrow> graph_t \<Rightarrow> graph_run \<Rightarrow> nat" where
  "weight F g r = (\<Sum>u | u \<in> sources g \<and> entries (gr_log r) u = 0. F (edges_of g u))
     + sum_list (map (\<lambda>a. F (ac_edges a)) (gr_active r))"

definition pend :: "graph_t \<Rightarrow> graph_run \<Rightarrow> graph_node_t \<Rightarrow> nat" where
  "pend g r n = weight (\<lambda>es. deg es n) g r"

definition steps_left :: "graph_t \<Rightarrow> graph_run \<Rightarrow> nat" where
  "steps_left g r = 3 * weight length g r + 2 * length (gr_posted r) + length (gr_active r)"

definition active_ok :: "graph_t \<Rightarrow> activation \<Rightarrow> bool" where
  "active_ok g a \<longleftrightarrow> ac_node a \<in> sources g \<and> set (ac_edges a) \<subseteq> set (edges_of g (ac_node a))"

definition fired :: "graph_t \<Rightarrow> graph_run \<Rightarrow> graph_node_t \<Rightarrow> bool" where
  "fired g r n \<longleftrightarrow> 0 < in_degree g n \<and> pend g r n = 0"

text \<open>A node has run once if its last in-edge has been processed and never before; it counts the processed
  in-edges until \<^verbatim>\<open>mark_complete\<close> resets the counter; and in between its operation is posted.\<close>

definition node_inv :: "graph_t \<Rightarrow> graph_run \<Rightarrow> nat \<Rightarrow> bool" where
  "node_inv g r i \<longleftrightarrow> runs (gr_log r) i = of_bool (fired g r (Node i)) \<and> entries (gr_log r) (Node i) \<le> runs (gr_log r) i
     \<and> (i < length (g_nodes g) \<longrightarrow> signals_received (g_nodes (gr_graph r) ! i)
          = (if entries (gr_log r) (Node i) = 0 then int (hits (gr_log r) (Node i)) else 0))
     \<and> (i \<in> set (gr_posted r) \<longleftrightarrow> entries (gr_log r) (Node i) < runs (gr_log r) i)"

definition end_inv :: "graph_t \<Rightarrow> graph_run \<Rightarrow> bool" where
  "end_inv g r \<longleftrightarrow> m_end_signals_received (gr_graph r) = int (hits (gr_log r) GRAPH_END)
     \<and> completions (gr_log r) + length (filter ac_completed (gr_active r)) = of_bool (fired g r GRAPH_END)
     \<and> gr_signals r = replicate (if m_comp g = 0 then 0 else completions (gr_log r))
          (m_comp g, (set_done status_init)\<lparr>st_user_context := m_end_value g\<rparr>)
     \<and> gr_deleted r = (gr_signals r \<noteq> [])"

text \<open>When an event may happen, given those before it.\<close>

fun ev_ok :: "graph_t \<Rightarrow> gevent list \<Rightarrow> gevent \<Rightarrow> bool" where
  "ev_ok g l (Ev_run i v) \<longleftrightarrow> runs l i = 0 \<and> hits l (Node i) = in_degree g (Node i)"
| "ev_ok g l (Ev_enter n) \<longleftrightarrow> entries l n = 0 \<and> (\<forall>i. n = Node i \<longrightarrow> runs l i = 1)"
| "ev_ok g l (Ev_edge u d f st sv dv) \<longleftrightarrow> 0 < entries l u"
| "ev_ok g l Ev_complete \<longleftrightarrow> completions l = 0 \<and> hits l GRAPH_END = in_degree g GRAPH_END"

definition log_ok :: "graph_t \<Rightarrow> gevent list \<Rightarrow> bool" where
  "log_ok g l \<longleftrightarrow> (\<forall>l1 e l2. l = l1 @ e # l2 \<longrightarrow> ev_ok g l1 e)"

lemma log_ok_simps [simp]: "log_ok g []" "log_ok g (l @ [e]) \<longleftrightarrow> log_ok g l \<and> ev_ok g l e"
proof -
  show "log_ok g []" by (simp add: log_ok_def)
  show "log_ok g (l @ [e]) \<longleftrightarrow> log_ok g l \<and> ev_ok g l e"
  proof
    assume a: "log_ok g (l @ [e])"
    have "ev_ok g l1 x" if "l = l1 @ x # l2" for l1 x l2
      using a that unfolding log_ok_def by (metis append_Cons append_assoc)
    moreover have "ev_ok g l e" using a unfolding log_ok_def by blast
    ultimately show "log_ok g l \<and> ev_ok g l e" by (simp add: log_ok_def)
  next
    assume a: "log_ok g l \<and> ev_ok g l e"
    have "ev_ok g l1 x" if "l @ [e] = l1 @ x # l2" for l1 x l2
      using a that by (cases l2 rule: rev_cases) (auto simp: log_ok_def)
    then show "log_ok g (l @ [e])" by (simp add: log_ok_def)
  qed
qed

definition graph_inv :: "graph_t \<Rightarrow> graph_run \<Rightarrow> bool" where
  "graph_inv g r \<longleftrightarrow> static (gr_graph r) = static g \<and> (\<forall>a\<in>set (gr_active r). active_ok g a)
     \<and> (\<forall>n. hits (gr_log r) n + pend g r n = in_degree g n) \<and> (\<forall>i. node_inv g r i) \<and> end_inv g r
     \<and> entries (gr_log r) GRAPH_START = 1 \<and> distinct (gr_posted r)
     \<and> log_ok g (gr_log r) \<and> (\<forall>a\<in>set (gr_active r). 0 < entries (gr_log r) (ac_node a))"

lemma graph_invD:
  assumes "graph_inv g r"
  shows "static (gr_graph r) = static g" "\<forall>a\<in>set (gr_active r). active_ok g a" "hits (gr_log r) n + pend g r n = in_degree g n"
    "node_inv g r i" "end_inv g r" "entries (gr_log r) GRAPH_START = 1" "distinct (gr_posted r)"
    "log_ok g (gr_log r)" "\<forall>a\<in>set (gr_active r). 0 < entries (gr_log r) (ac_node a)"
  using assms by (simp_all add: graph_inv_def)

lemma weight_edge:
  assumes "k < length (gr_active r)" "ac_edges (gr_active r ! k) = e # es" "F (e # es) = c + F es"
    and "gr_active r' = (gr_active r)[k := a']" "ac_edges a' = es" "\<And>u. entries (gr_log r') u = entries (gr_log r) u"
  shows "weight F g r' + c = weight F g r"
  using sum_list_update_nat [OF assms(1), of "\<lambda>a. F (ac_edges a)" a'] assms by (auto simp: weight_def)

lemma pend_edge:
  assumes "k < length (gr_active r)" "ac_edges (gr_active r ! k) = (d, f) # es"
    and "gr_active r' = (gr_active r)[k := a']" "ac_edges a' = es" "\<And>u. entries (gr_log r') u = entries (gr_log r) u"
  shows "pend g r' n + (if n = d then 1 else 0) = pend g r n"
  unfolding pend_def by (rule weight_edge [OF assms(1,2) _ assms(3-5)]) auto

lemma weight_enter:
  assumes "u \<in> sources g" "entries (gr_log r) u = 0" "gr_active r' = gr_active r @ [a]" "ac_edges a = edges_of g u"
    and "\<And>v. entries (gr_log r') v = entries (gr_log r) v + (if v = u then 1 else 0)"
  shows "weight F g r' = weight F g r"
proof -
  let ?A = "{v \<in> sources g. entries (gr_log r) v = 0}"
  have "{v \<in> sources g. entries (gr_log r') v = 0} = ?A - {u}" using assms(5) by auto
  moreover have "(\<Sum>v\<in>?A. F (edges_of g v)) = F (edges_of g u) + (\<Sum>v\<in>?A - {u}. F (edges_of g v))"
    using assms(1,2) by (intro sum.remove) auto
  ultimately show ?thesis using assms(3,4) by (simp add: weight_def)
qed

lemma weight_exit:
  assumes "k < length (gr_active r)" "ac_edges (gr_active r ! k) = []" "F [] = 0"
    and "gr_active r' = take k (gr_active r) @ drop (Suc k) (gr_active r)" "\<And>u. entries (gr_log r') u = entries (gr_log r) u"
  shows "weight F g r' = weight F g r"
proof -
  have "sum_list (map (\<lambda>a. F (ac_edges a)) (gr_active r)) = sum_list (map (\<lambda>a. F (ac_edges a)) (gr_active r'))"
    by (subst id_take_nth_drop [OF assms(1)]) (simp add: assms(2-4))
  with assms(5) show ?thesis by (simp add: weight_def)
qed

lemma weight_cong:
  "gr_active r' = gr_active r \<Longrightarrow> (\<And>u. entries (gr_log r') u = entries (gr_log r) u) \<Longrightarrow> weight F g r' = weight F g r"
  by (simp add: weight_def)

lemma active_okD:
  assumes "graph_ok g" "active_ok g a" "ac_edges a = (d, f) # es"
  shows "ac_node a \<in> sources g" "d = GRAPH_END \<or> (\<exists>i<length (g_nodes g). d = Node i)" "active_ok g (a\<lparr>ac_edges := es\<rparr>)"
  using edge_target [OF assms(1), of "ac_node a" "(d, f)"] assms(2,3) by (auto simp: active_ok_def)

lemma graph_inv_static:
  assumes "graph_inv g r"
  shows "length (g_nodes (gr_graph r)) = length (g_nodes g)" "sources (gr_graph r) = sources g" "edges_of (gr_graph r) u = edges_of g u"
    "m_comp (gr_graph r) = m_comp g" "m_end_value (gr_graph r) = m_end_value g"
    "m_end_signals_expected (gr_graph r) = m_end_signals_expected g"
    "i < length (g_nodes g) \<Longrightarrow> strip (g_nodes (gr_graph r) ! i) = strip (g_nodes g ! i)"
  using static_eqD [of "gr_graph r" g] assms by (simp_all add: graph_inv_def)

lemma graph_inv_active:
  "graph_inv g r \<Longrightarrow> k < length (gr_active r) \<Longrightarrow> active_ok g (gr_active r ! k)"
  by (simp add: graph_inv_def)

lemma edge_end_inv:
  assumes "graph_ok g" "graph_inv g r" "\<not> gr_deleted r" "k < length (gr_active r)" "ac_edges (gr_active r ! k) = (GRAPH_END, f) # es"
  shows "\<exists>r'. edge_iteration fn k r = Inr r' \<and> graph_inv g r' \<and> steps_left g r' < steps_left g r"
proof -
  define a where "a = gr_active r ! k"
  define c where "c \<longleftrightarrow> m_end_signals_received (gr_graph r) + 1 = m_end_signals_expected g"
  note inv = graph_invD [OF assms(2)]
  note st = graph_inv_static [OF assms(2)]
  have a: "active_ok g a" "ac_edges a = (GRAPH_END, f) # es" using graph_inv_active [OF assms(2,4)] assms(5) by (simp_all add: a_def)
  obtain src where src: "get_node (ac_node a) (gr_graph r) = Inr src"
    using active_okD(1) [OF assms(1) a] get_node_source [of "ac_node a" "gr_graph r"] st(2) by auto
  define a' where "a' = a\<lparr>ac_edges := es, ac_completed := ac_completed a \<or> c\<rparr>"
  define r' where "r' = r\<lparr>gr_graph := (gr_graph r)\<lparr>m_end_signals_received := m_end_signals_received (gr_graph r) + 1\<rparr>,
     gr_log := gr_log r @ [Ev_edge (ac_node a) GRAPH_END f (ac_status a) (nd_value src) (m_end_value g)], gr_active := (gr_active r)[k := a']\<rparr>"
  have pend: "pend g r' n + (if n = GRAPH_END then 1 else 0) = pend g r n" for n
    by (rule pend_edge [OF assms(4,5), where a' = a']) (simp_all add: r'_def a'_def)
  have "weight length g r' + 1 = weight length g r"
    by (rule weight_edge [OF assms(4,5), where a' = a']) (simp_all add: r'_def a'_def)
  then have left: "steps_left g r' < steps_left g r" by (simp add: steps_left_def r'_def)
  have er: "m_end_signals_received (gr_graph r) = int (hits (gr_log r) GRAPH_END)" using inv(5) by (simp add: end_inv_def)
  have exp: "m_end_signals_expected g = int (hits (gr_log r) GRAPH_END + pend g r' GRAPH_END + 1)"
    using inv(3) [of GRAPH_END] pend [of GRAPH_END] assms(1) by (simp add: graph_ok_def)
  have "m_end_signals_received (gr_graph r) + 1 = m_end_signals_expected g \<or> m_end_signals_received (gr_graph r) + 1 < m_end_signals_expected g"
    using exp er by linarith
  then have run: "edge_iteration fn k r = Inr r'"
    using assms(3) a(2) src by (simp add: edge_iteration_def a_def [symmetric] Let_def r'_def a'_def c_def st bind_assert)
  have fired: "\<not> fired g r GRAPH_END" "fired g r' GRAPH_END = c" "fired g r' (Node i) = fired g r (Node i)" for i
    using pend [of GRAPH_END] pend [of "Node i"] exp er inv(3) [of GRAPH_END] by (auto simp: fired_def c_def)
  then have nc: "completions (gr_log r) = 0" "length (filter ac_completed (gr_active r)) = 0"
    using inv(5) by (simp_all add: end_inv_def)
  then have "\<not> ac_completed a" using assms(4) by (auto simp: a_def filter_empty_conv)
  then have "length (filter ac_completed (gr_active r')) = of_bool c"
    using count_filter_update [OF assms(4), of ac_completed a'] nc by (simp add: r'_def a'_def a_def [symmetric])
  then have "end_inv g r'"
    using inv(5) fired nc by (simp add: end_inv_def r'_def)
  moreover have "node_inv g r' i" for i
    using inv(4) [of i] fired(3) by (simp add: node_inv_def r'_def)
  moreover have "hits (gr_log r') n + pend g r' n = in_degree g n" for n
    using inv(3) [of n] pend [of n] by (auto simp: r'_def)
  moreover have "\<forall>b\<in>set (gr_active r'). active_ok g b"
    using all_update [OF inv(2), of a' k] active_okD(3) [OF assms(1) a] by (simp add: r'_def a'_def active_ok_def)
  moreover have "log_ok g (gr_log r')" "\<forall>b\<in>set (gr_active r'). 0 < entries (gr_log r') (ac_node b)"
    using inv(8,9) all_update [OF inv(9), of a' k] assms(4) by (simp_all add: r'_def a'_def a_def)
  ultimately have "graph_inv g r'"
    using inv(1,6,7) by (simp add: graph_inv_def r'_def)
  with run left show ?thesis by blast
qed

lemma signal_inv:
  assumes "graph_ok g" "graph_inv g r" "\<not> gr_deleted r" "i \<in> set (gr_posted r)"
  shows "\<exists>r'. graph_signal i st r = Inr r' \<and> graph_inv g r' \<and> steps_left g r' < steps_left g r"
proof -
  note inv = graph_invD [OF assms(2)]
  note st = graph_inv_static [OF assms(2)]
  have e: "entries (gr_log r) (Node i) = 0" "runs (gr_log r) i = 1" "fired g r (Node i)"
    using inv(4) [of i] assms(4) by (cases "fired g r (Node i)"; simp add: node_inv_def)+
  then have i: "i < length (g_nodes g)"
    using in_degree_pos [OF assms(1), of "Node i"] by (simp add: fired_def)
  define nd where "nd = g_nodes (gr_graph r) ! i"
  define r' where "r' = r\<lparr>gr_graph := set_node (Node i) (nd\<lparr>signals_received := 0\<rparr>) (gr_graph r), gr_posted := remove1 i (gr_posted r),
     gr_active := gr_active r @ [\<lparr>ac_node = Node i, ac_status = st, ac_edges = out_edges nd, ac_completed = False\<rparr>],
     gr_log := gr_log r @ [Ev_enter (Node i)]\<rparr>"
  have nd: "get_node (Node i) (gr_graph r) = Inr nd" using i st(1) by (simp add: nd_def)
  have oe: "out_edges nd = edges_of g (Node i)" using get_node_edges [OF nd] st(3) [of "Node i"] by (simp del: edges_of.simps)
  have run: "graph_signal i st r = Inr r'"
    using assms(3) nd i st(1) by (simp add: graph_signal_def mark_complete_def r'_def)
  have weight: "weight F g r' = weight F g r" for F
    by (rule weight_enter [where u = "Node i" and a = "\<lparr>ac_node = Node i, ac_status = st, ac_edges = out_edges nd, ac_completed = False\<rparr>"])
      (use i e oe in \<open>simp_all add: r'_def\<close>)
  have "length (gr_posted r') + 1 = length (gr_posted r)" using assms(4) length_pos_if_in_set [OF assms(4)] by (simp add: r'_def length_remove1)
  then have left: "steps_left g r' < steps_left g r" using weight by (simp add: steps_left_def) (simp add: r'_def)
  have pend: "pend g r' n = pend g r n" for n by (simp add: pend_def weight)
  then have fired: "fired g r' n = fired g r n" for n by (simp add: fired_def)
  have "node_inv g r' j" for j
    using inv(4) [of j] fired e inv(7) i st(1) by (cases "j = i") (auto simp: node_inv_def r'_def nth_list_update)
  moreover have "end_inv g r'"
    using inv(5) fired by (simp add: end_inv_def r'_def)
  moreover have "active_ok g \<lparr>ac_node = Node i, ac_status = st, ac_edges = out_edges nd, ac_completed = False\<rparr>"
    using i oe by (simp add: active_ok_def)
  moreover have "static (gr_graph r') = static g"
    using static_set_node [OF nd, of 0] inv(1) by (simp add: r'_def del: set_node.simps)
  ultimately have "graph_inv g r'"
    using inv(2,3,6-9) pend e by (auto simp: graph_inv_def r'_def)
  with run left show ?thesis by blast
qed

text \<open>What \<^verbatim>\<open>trigger_node\<close> demands of the node functions: they post with \<open>allow_retry\<close> false.\<close>

definition never_retries :: "(nat \<Rightarrow> status_t) \<Rightarrow> bool" where
  "never_retries fn_status \<longleftrightarrow> (\<forall>i. \<not> is_retry (st_error (fn_status i)))"

lemma edge_node_inv:
  assumes "graph_ok g" "graph_inv g r" "\<not> gr_deleted r" "k < length (gr_active r)" "ac_edges (gr_active r ! k) = (Node i, f) # es"
    and "never_retries fn_status"
  shows "\<exists>r'. edge_iteration fn_status k r = Inr r' \<and> graph_inv g r' \<and> steps_left g r' < steps_left g r"
proof -
  define a where "a = gr_active r ! k"
  define nd where "nd = g_nodes (gr_graph r) ! i"
  note inv = graph_invD [OF assms(2)]
  note st = graph_inv_static [OF assms(2)]
  have a: "active_ok g a" "ac_edges a = (Node i, f) # es" using graph_inv_active [OF assms(2,4)] assms(5) by (simp_all add: a_def)
  have i: "i < length (g_nodes g)" using active_okD(2) [OF assms(1) a] by simp
  have nd: "get_node (Node i) (gr_graph r) = Inr nd" using i st(1) by (simp add: nd_def)
  obtain src where src: "get_node (ac_node a) (gr_graph r) = Inr src"
    using active_okD(1) [OF assms(1) a] get_node_source [of "ac_node a" "gr_graph r"] st(2) by auto
  define g1 where "g1 = set_node (Node i) (nd\<lparr>signals_received := signals_received nd + 1\<rparr>) (gr_graph r)"
  define r1 where "r1 = r\<lparr>gr_graph := g1, gr_log := gr_log r @ [Ev_edge (ac_node a) (Node i) f (ac_status a) (nd_value src) (nd_value nd)],
     gr_active := (gr_active r)[k := a\<lparr>ac_edges := es\<rparr>]\<rparr>"
  define r2 where "r2 = r1\<lparr>gr_log := gr_log r1 @ [Ev_run i (nd_value nd)], gr_posted := i # gr_posted r\<rparr>"
  have w: "weight F g r2 = weight F g r1" for F by (rule weight_cong) (simp_all add: r2_def)
  have pend: "pend g r1 n + (if n = Node i then 1 else 0) = pend g r n" "pend g r2 n = pend g r1 n" for n
    by (rule pend_edge [OF assms(4,5), where a' = "a\<lparr>ac_edges := es\<rparr>"]) (simp_all add: pend_def w, simp_all add: r1_def)
  have "weight length g r1 + 1 = weight length g r"
    by (rule weight_edge [OF assms(4,5), where a' = "a\<lparr>ac_edges := es\<rparr>"]) (simp_all add: r1_def)
  then have left: "steps_left g r1 < steps_left g r" "steps_left g r2 < steps_left g r"
    by (simp_all add: steps_left_def w) (simp_all add: r1_def r2_def)
  have nf: "\<not> fired g r (Node i)" using pend(1) [of "Node i"] by (auto simp: fired_def)
  then have z: "runs (gr_log r) i = 0" "entries (gr_log r) (Node i) = 0" "i \<notin> set (gr_posted r)" "signals_received nd = int (hits (gr_log r) (Node i))"
    using inv(4) [of i] i by (simp_all add: node_inv_def nd_def)
  have exp: "signals_expected nd = int (hits (gr_log r) (Node i) + pend g r1 (Node i) + 1)"
    using inv(3) [of "Node i"] pend(1) [of "Node i"] assms(1) i strip_eqD(2) [OF st(7) [OF i]] by (simp add: graph_ok_def nd_def)
  have g1: "static g1 = static g" "m_end_signals_received g1 = m_end_signals_received (gr_graph r)"
      "j \<noteq> i \<Longrightarrow> g_nodes g1 ! j = g_nodes (gr_graph r) ! j" "signals_received (g_nodes g1 ! i) = signals_received nd + 1" for j
    using static_set_node [OF nd] inv(1) i st(1) by (simp_all add: g1_def del: set_node.simps) simp
  have rest: "hits (gr_log r1) n + pend g r1 n = in_degree g n" "\<forall>b\<in>set (gr_active r1). active_ok g b"
      "j \<noteq> i \<Longrightarrow> node_inv g r1 j" "end_inv g r1" for n j
  proof -
    show "hits (gr_log r1) n + pend g r1 n = in_degree g n" using inv(3) [of n] pend(1) [of n] by (auto simp: r1_def)
    show "\<forall>b\<in>set (gr_active r1). active_ok g b"
      using all_update [OF inv(2) active_okD(3) [OF assms(1) a], of k] by (simp add: r1_def)
    show "j \<noteq> i \<Longrightarrow> node_inv g r1 j"
      using inv(4) [of j] pend(1) [of "Node j"] g1(3) by (simp add: node_inv_def r1_def fired_def)
    show "end_inv g r1"
      using inv(5) pend(1) [of GRAPH_END] g1(2) count_filter_update [OF assms(4), of ac_completed "a\<lparr>ac_edges := es\<rparr>"]
      by (simp add: end_inv_def r1_def fired_def a_def)
  qed
  have flds: "static (gr_graph r1) = static g" "entries (gr_log r1) GRAPH_START = 1" "distinct (gr_posted r1)"
      "log_ok g (gr_log r1)" "\<forall>b\<in>set (gr_active r1). 0 < entries (gr_log r1) (ac_node b)"
    using g1(1) inv(6-9) all_update [OF inv(9), of "a\<lparr>ac_edges := es\<rparr>" k] assms(4) by (simp_all add: r1_def a_def)
  have step: "edge_iteration fn_status k r = (if pend g r1 (Node i) = 0 then trigger_node fn_status i r1 else Inr r1)"
    using assms(3) a(2) src nd i st(1) z(4) exp by (simp add: edge_iteration_def a_def [symmetric] Let_def r1_def g1_def bind_assert)
  show ?thesis
  proof (cases "pend g r1 (Node i) = 0")
    case False
    then have "node_inv g r1 i"
      using z g1(4) i by (simp add: node_inv_def r1_def fired_def)
    then have "\<forall>j. node_inv g r1 j" using rest(3) by metis
    then have "graph_inv g r1"
      unfolding graph_inv_def using rest(1,2,4) flds by simp
    with step False left(1) show ?thesis by auto
  next
    case True
    have fired2: "fired g r2 n = fired g r1 n" for n using pend(2) by (simp add: fired_def)
    have "fired g r1 (Node i)" using True rest(1) [of "Node i"] by (simp add: fired_def r1_def)
    then have "node_inv g r2 i"
      using z g1(4) i fired2 by (simp add: node_inv_def r2_def r1_def)
    moreover have "j \<noteq> i \<Longrightarrow> node_inv g r2 j" for j
      using rest(3) [of j] fired2 by (simp add: node_inv_def r2_def) (simp add: r1_def)
    ultimately have "\<forall>j. node_inv g r2 j" by metis
    moreover have "end_inv g r2" using rest(4) fired2 by (simp add: end_inv_def r2_def)
    moreover have "distinct (gr_posted r2)" using z(3) inv(7) by (simp add: r2_def)
    moreover have "log_ok g (gr_log r2)"
      using flds(4) z(1) True rest(1) [of "Node i"] by (simp add: r2_def) (simp add: r1_def)
    ultimately have inv2: "graph_inv g r2"
      unfolding graph_inv_def using rest(1,2) flds(1,2,5) pend(2) by (simp add: r2_def)
    have "\<not> gr_deleted r2" "i \<in> set (gr_posted r2)" using assms(3) by (simp_all add: r2_def r1_def)
    note sig = signal_inv [OF assms(1) inv2 this]
    have fn: "trigger_node fn_status i r1 = Inr r2 \<or> (\<exists>st. trigger_node fn_status i r1 = graph_signal i st r2)"
      using assms(6) [unfolded never_retries_def, rule_format, of i] i st(1) flds(1)
      by (auto simp: trigger_node_def r2_def graph_signal_def mark_complete_def r1_def bind_assert Let_def g1_def set_done_def category_iff)
    then show ?thesis
    proof
      assume "trigger_node fn_status i r1 = Inr r2"
      with step True inv2 left(2) show ?thesis by simp
    next
      assume "\<exists>st. trigger_node fn_status i r1 = graph_signal i st r2"
      with step True sig left(2) show ?thesis by (metis order.strict_trans)
    qed
  qed
qed

lemma edge_inv:
  assumes "graph_ok g" "graph_inv g r" "\<not> gr_deleted r" "k < length (gr_active r)" "ac_edges (gr_active r ! k) \<noteq> []" "never_retries fn_status"
  shows "\<exists>r'. edge_iteration fn_status k r = Inr r' \<and> graph_inv g r' \<and> steps_left g r' < steps_left g r"
proof -
  obtain d f es where e: "ac_edges (gr_active r ! k) = (d, f) # es" using assms(5) by (cases "ac_edges (gr_active r ! k)") auto
  consider "d = GRAPH_END" | i where "d = Node i"
    using active_okD(2) [OF assms(1) graph_inv_active [OF assms(2,4)] e] by auto
  then show ?thesis
  proof cases
    case 1
    with e edge_end_inv [OF assms(1-4)] show ?thesis by simp
  next
    case (2 i)
    with e edge_node_inv [OF assms(1-4) _ assms(6)] show ?thesis by simp
  qed
qed

lemma exit_inv:
  assumes "graph_ok g" "graph_inv g r" "k < length (gr_active r)" "ac_edges (gr_active r ! k) = []"
  shows "\<exists>r'. loop_exit k r = Inr r' \<and> graph_inv g r' \<and> steps_left g r' < steps_left g r"
proof -
  define a where "a = gr_active r ! k"
  note inv = graph_invD [OF assms(2)]
  note st = graph_inv_static [OF assms(2)]
  have act: "gr_active r = take k (gr_active r) @ a # drop (Suc k) (gr_active r)"
    using id_take_nth_drop [OF assms(3)] by (simp add: a_def)
  let ?act = "take k (gr_active r) @ drop (Suc k) (gr_active r)"
  have cnt: "length (filter ac_completed (gr_active r)) = length (filter ac_completed ?act) + of_bool (ac_completed a)"
      "set ?act \<subseteq> set (gr_active r)" "length (gr_active r) = length ?act + 1"
    using assms(3) by (subst act; auto dest: in_set_takeD in_set_dropD)+
  have nd: "ac_completed a \<Longrightarrow> \<not> gr_deleted r"
    using inv(5) cnt(1) by (cases "fired g r GRAPH_END") (auto simp: end_inv_def split: if_splits)
  obtain r' where run: "loop_exit k r = Inr r'" and r': "gr_graph r' = gr_graph r" "gr_active r' = ?act" "gr_posted r' = gr_posted r"
      "gr_log r' = gr_log r @ (if ac_completed a then [Ev_complete] else [])"
      "gr_deleted r' = (gr_deleted r \<or> ac_completed a \<and> m_comp g \<noteq> 0)"
      "gr_signals r' = gr_signals r @ (if ac_completed a \<and> m_comp g \<noteq> 0
         then [(m_comp g, (set_done status_init)\<lparr>st_user_context := m_end_value g\<rparr>)] else [])"
    using nd st(4,5) by (cases "ac_completed a"; cases "m_comp g = 0") (auto simp: loop_exit_def a_def Let_def)
  have e: "entries (gr_log r') n = entries (gr_log r) n" "runs (gr_log r') i = runs (gr_log r) i" "hits (gr_log r') n = hits (gr_log r) n"
      "completions (gr_log r') = completions (gr_log r) + of_bool (ac_completed a)" for n i
    by (simp_all add: r'(4))
  have weight: "weight F g r' = weight F g r" if "F [] = 0" for F
    by (rule weight_exit [where k = k]) (simp_all add: assms(3,4) that r'(2) e)
  then have pend: "pend g r' n = pend g r n" for n by (simp add: pend_def)
  have "node_inv g r' i" for i using inv(4) [of i] e pend by (simp add: node_inv_def r' fired_def)
  moreover have "end_inv g r'"
    using inv(5) e cnt(1) pend by (auto simp: end_inv_def r' fired_def simp flip: replicate_append_same split: if_splits)
  moreover have "log_ok g (gr_log r')"
    using inv(3) [of GRAPH_END] inv(5,8) cnt(1) by (cases "fired g r GRAPH_END") (auto simp: r'(4) end_inv_def fired_def)
  ultimately have "graph_inv g r'"
    using inv(1-3,6,7,9) e pend cnt(2) by (auto simp: graph_inv_def r')
  moreover have "steps_left g r' < steps_left g r"
    using weight [of length] cnt(3) by (simp add: steps_left_def r')
  ultimately show ?thesis using run by blast
qed

lemma start_inv:
  assumes "graph_ok g"
  obtains r where "graph_start g = Inr r" "graph_inv g r"
    "steps_left g r = 3 * (\<Sum>u\<in>sources g. length (edges_of g u)) + 1"
proof -
  define r where "r = \<lparr>gr_graph = set_node GRAPH_START ((m_start_node g)\<lparr>signals_received := 0\<rparr>) (g\<lparr>m_end_signals_received := 0\<rparr>),
     gr_deleted = False, gr_active = [\<lparr>ac_node = GRAPH_START, ac_status = set_done status_init, ac_edges = out_edges (m_start_node g),
     ac_completed = False\<rparr>], gr_posted = [], gr_log = [Ev_enter GRAPH_START], gr_freed = [], gr_signals = []\<rparr>"
  have run: "graph_start g = Inr r"
    by (simp add: graph_start_def mark_complete_def r_def)
  have w: "weight F g r = (\<Sum>u\<in>sources g. F (edges_of g u))" for F
  proof -
    have "{u \<in> sources g. entries (gr_log r) u = 0} = sources g - {GRAPH_START}" by (auto simp: r_def)
    then show ?thesis using sum.remove [of "sources g" GRAPH_START "\<lambda>u. F (edges_of g u)"] by (simp add: weight_def r_def)
  qed
  then have pend: "pend g r n = in_degree g n" for n by (simp add: pend_def in_degree_def)
  have "node_inv g r i" for i
    using assms pend by (auto simp: node_inv_def r_def graph_ok_def fired_def)
  moreover have "end_inv g r" using pend by (auto simp: end_inv_def r_def fired_def)
  moreover have "static (gr_graph r) = static g" by (simp add: r_def static_def)
  ultimately have "graph_inv g r"
    using pend log_ok_simps(2) [of g "[]" "Ev_enter GRAPH_START"] by (auto simp: graph_inv_def active_ok_def r_def)
  then show thesis by (rule that [OF run]) (simp add: steps_left_def w, simp add: r_def)
qed

section \<open>What an execution guarantees\<close>

text \<open>The graphs that the interface is meant for: \<open>h\<close> falls along every edge between nodes, so there is no
  cycle; every node has an edge into it and an edge out of it; and the start node has an edge.\<close>

definition graph_dag :: "(nat \<Rightarrow> nat) \<Rightarrow> graph_t \<Rightarrow> bool" where
  "graph_dag h g \<longleftrightarrow> edges_of g GRAPH_START \<noteq> []
     \<and> (\<forall>i<length (g_nodes g). 0 < in_degree g (Node i) \<and> edges_of g (Node i) \<noteq> []
          \<and> (\<forall>e\<in>set (edges_of g (Node i)). \<forall>j<length (g_nodes g). fst e = Node j \<longrightarrow> h j < h i))"

lemma pend_pos_active: "a \<in> set (gr_active r) \<Longrightarrow> e \<in> set (ac_edges a) \<Longrightarrow> 0 < pend g r (fst e)"
  using member_le_sum_list [of "deg (ac_edges a) (fst e)" "map (\<lambda>a. deg (ac_edges a) (fst e)) (gr_active r)"]
    deg_pos_iff [of "ac_edges a" "fst e"] by (auto simp: pend_def weight_def)

lemma pend_pos_unentered: "u \<in> sources g \<Longrightarrow> entries (gr_log r) u = 0 \<Longrightarrow> e \<in> set (edges_of g u) \<Longrightarrow> 0 < pend g r (fst e)"
  using deg_pos_iff [of "edges_of g u" "fst e"] sum_pos2 [of "{u \<in> sources g. entries (gr_log r) u = 0}" u "\<lambda>u. deg (edges_of g u) (fst e)"]
  by (auto simp: pend_def weight_def)

lemma pend_pos_cases:
  assumes "0 < pend g r n"
  obtains (active) a e where "a \<in> set (gr_active r)" "e \<in> set (ac_edges a)" "fst e = n"
    | (unentered) u e where "u \<in> sources g" "entries (gr_log r) u = 0" "e \<in> set (edges_of g u)" "fst e = n"
proof -
  consider "0 < (\<Sum>u | u \<in> sources g \<and> entries (gr_log r) u = 0. deg (edges_of g u) n)"
    | "0 < sum_list (map (\<lambda>a. deg (ac_edges a) n) (gr_active r))"
    using assms by (auto simp: pend_def weight_def)
  then show thesis
  proof cases
    case 1
    then obtain u where "u \<in> sources g" "entries (gr_log r) u = 0" "0 < deg (edges_of g u) n"
      by (metis (mono_tags, lifting) gr0I mem_Collect_eq sum.neutral less_nat_zero_code)
    then show thesis using unentered by (auto simp: deg_pos_iff)
  next
    case 2
    then obtain a where "a \<in> set (gr_active r)" "0 < deg (ac_edges a) n"
      by (auto simp: sum_list_eq_0_iff simp flip: neq0_conv)
    then show thesis using active by (auto simp: deg_pos_iff)
  qed
qed

lemma unfired_unentered:
  assumes "graph_inv g r" "0 < pend g r (Node i)"
  shows "entries (gr_log r) (Node i) = 0" "runs (gr_log r) i = 0"
  using graph_invD(4) [OF assms(1), of i] assms(2) by (simp_all add: node_inv_def fired_def)

text \<open>As long as any edge is unprocessed, an edge to the end is.\<close>

lemma pend_leads_to_end:
  assumes "graph_ok g" "graph_inv g r" "graph_dag h g"
  shows "0 < pend g r (Node i) \<Longrightarrow> 0 < pend g r GRAPH_END"
proof (induction "h i" arbitrary: i rule: less_induct)
  case less
  have i: "i < length (g_nodes g)"
    using in_degree_pos [OF assms(1), of "Node i"] graph_invD(3) [OF assms(2), of "Node i"] less.prems by simp
  then obtain e where e: "e \<in> set (edges_of g (Node i))"
    using assms(3) unfolding graph_dag_def by (metis all_not_in_conv set_empty)
  then have p: "0 < pend g r (fst e)"
    using pend_pos_unentered unfired_unentered(1) [OF assms(2) less.prems] i sources_simps(3) by blast
  show ?case
  proof (rule edge_target [OF assms(1) _ e])
    show "Node i \<in> sources g" using i by simp
    assume "fst e = GRAPH_END"
    with p show ?thesis by simp
  next
    fix j assume j: "fst e = Node j" "j < length (g_nodes g)"
    then have "h j < h i" using assms(3) i e unfolding graph_dag_def by blast
    from less.hyps [OF this] p j(1) show ?thesis by simp
  qed
qed

text \<open>Once the graph is deleted no thread touches it again: no operation is posted and no activation has
  an edge left.\<close>

lemma deleted_quiet:
  assumes "graph_ok g" "graph_inv g r" "graph_dag h g" "gr_deleted r"
  shows "gr_posted r = []" "a \<in> set (gr_active r) \<Longrightarrow> ac_edges a = []"
proof -
  note inv = graph_invD [OF assms(2)]
  have "0 < completions (gr_log r)" using inv(5) assms(4) by (auto simp: end_inv_def split: if_splits)
  then have z: "pend g r GRAPH_END = 0"
    using inv(5) by (cases "fired g r GRAPH_END") (auto simp: end_inv_def fired_def)
  have none: "\<not> 0 < pend g r n" if "n = GRAPH_END \<or> (\<exists>i. n = Node i)" for n
    using that z pend_leads_to_end [OF assms(1-3)] by auto
  show "ac_edges a = []" if a: "a \<in> set (gr_active r)"
  proof (rule ccontr)
    assume "ac_edges a \<noteq> []"
    then obtain d f es where e: "ac_edges a = (d, f) # es" by (cases "ac_edges a") auto
    have "active_ok g a" using inv(2) a by blast
    from active_okD(2) [OF assms(1) this e] none pend_pos_active [OF a, of "(d, f)" g] e show False by auto
  qed
  show "gr_posted r = []"
  proof (rule ccontr)
    assume "gr_posted r \<noteq> []"
    then obtain i where "i \<in> set (gr_posted r)" by (cases "gr_posted r") auto
    then have i: "entries (gr_log r) (Node i) = 0" "fired g r (Node i)"
      using inv(4) [of i] by (cases "fired g r (Node i)"; simp add: node_inv_def)+
    then have l: "i < length (g_nodes g)" using in_degree_pos [OF assms(1), of "Node i"] by (simp add: fired_def)
    then obtain e where e: "e \<in> set (edges_of g (Node i))"
      using assms(3) unfolding graph_dag_def by (metis all_not_in_conv set_empty)
    have src: "Node i \<in> sources g" using l by simp
    from pend_pos_unentered [OF src i(1) e] none edge_target [OF assms(1) src e] show False by metis
  qed
qed

inductive_cases graph_stepE: "graph_step fn_status r r'"

lemma graph_step_inv:
  assumes "graph_ok g" "graph_inv g r" "never_retries fn_status" "graph_step fn_status r r'"
  shows "graph_inv g r' \<and> steps_left g r' < steps_left g r"
  using assms(4)
proof cases
  case (edge k)
  then have nd: "\<not> gr_deleted r" by (auto simp: edge_iteration_def)
  from edge_inv [OF assms(1,2) nd edge(1,2) assms(3)] edge(3) show ?thesis by auto
next
  case (exit k)
  with exit_inv [OF assms(1,2)] show ?thesis by force
next
  case (signal i st)
  then have nd: "\<not> gr_deleted r" by (auto simp: graph_signal_def mark_complete_def)
  from signal_inv [OF assms(1,2) nd signal(1), of st] signal(2) show ?thesis by auto
qed

lemma graph_reach_inv:
  assumes "graph_ok g" "never_retries fn_status" "graph_reach fn_status g r"
  shows "graph_inv g r"
  using assms(3)
proof induction
  case (start r)
  with start_inv [OF assms(1)] show ?case by auto
next
  case (step r r')
  with graph_step_inv [OF assms(1) _ assms(2)] show ?case by blast
qed

lemma graph_enabled:
  assumes "graph_ok g" "graph_inv g r" "graph_dag h g" "never_retries fn_status"
  shows "k < length (gr_active r) \<Longrightarrow> ac_edges (gr_active r ! k) \<noteq> [] \<Longrightarrow> \<exists>r'. edge_iteration fn_status k r = Inr r'"
    and "k < length (gr_active r) \<Longrightarrow> ac_edges (gr_active r ! k) = [] \<Longrightarrow> \<exists>r'. loop_exit k r = Inr r'"
    and "i \<in> set (gr_posted r) \<Longrightarrow> \<exists>r'. graph_signal i st r = Inr r'"
proof -
  note quiet = deleted_quiet [OF assms(1-3)]
  show "\<exists>r'. edge_iteration fn_status k r = Inr r'" if k: "k < length (gr_active r)" "ac_edges (gr_active r ! k) \<noteq> []"
  proof -
    have nd: "\<not> gr_deleted r" using quiet(2) [OF _ nth_mem [OF k(1)]] k(2) by blast
    from edge_inv [OF assms(1,2) nd k assms(4)] show ?thesis by blast
  qed
  show "\<exists>r'. loop_exit k r = Inr r'" if "k < length (gr_active r)" "ac_edges (gr_active r ! k) = []"
    using exit_inv [OF assms(1,2) that] by blast
  show "\<exists>r'. graph_signal i st r = Inr r'" if i: "i \<in> set (gr_posted r)"
  proof -
    have "\<not> gr_deleted r" using quiet(1) i by auto
    from signal_inv [OF assms(1,2) this i] show ?thesis by blast
  qed
qed

lemma final_all_run:
  assumes "graph_ok g" "graph_inv g r" "graph_dag h g" "gr_active r = []" "gr_posted r = []"
  shows "i < length (g_nodes g) \<Longrightarrow> runs (gr_log r) i = 1" "pend g r n = 0"
proof -
  note inv = graph_invD [OF assms(2)]
  have eq: "entries (gr_log r) (Node i) = runs (gr_log r) i" for i
    using inv(4) [of i] assms(5) by (simp add: node_inv_def)
  have stuck: "\<exists>j<length (g_nodes g). runs (gr_log r) j = 0 \<and> h i < h j" if i: "i < length (g_nodes g)" "runs (gr_log r) i = 0" for i
  proof -
    have "\<not> fired g r (Node i)" using inv(4) [of i] i(2) by (simp add: node_inv_def)
    then have "0 < pend g r (Node i)" using assms(3) i(1) by (auto simp: fired_def graph_dag_def)
    then obtain u e where u: "u \<in> sources g" "entries (gr_log r) u = 0" "e \<in> set (edges_of g u)" "fst e = Node i"
      using assms(4) by (auto elim: pend_pos_cases)
    then obtain j where j: "u = Node j" "j < length (g_nodes g)" using inv(6) by (auto simp: sources_def)
    with u i(1) assms(3) have "h i < h j" unfolding graph_dag_def by blast
    with j u(2) eq show ?thesis by auto
  qed
  show run: "runs (gr_log r) i = 1" if i: "i < length (g_nodes g)" for i
  proof (rule ccontr)
    let ?S = "{i. i < length (g_nodes g) \<and> runs (gr_log r) i = 0}"
    assume "runs (gr_log r) i \<noteq> 1"
    with inv(4) [of i] i have "i \<in> ?S" by (cases "fired g r (Node i)") (auto simp: node_inv_def)
    then have m: "Max (h ` ?S) \<in> h ` ?S" by (intro Max_in) auto
    then obtain k where "k \<in> ?S" "h k = Max (h ` ?S)" by auto
    with stuck [of k] obtain j where "j \<in> ?S" "Max (h ` ?S) < h j" by auto
    moreover from this have "h j \<le> Max (h ` ?S)" by (intro Max_ge) auto
    ultimately show False by simp
  qed
  show "pend g r n = 0"
  proof (rule ccontr)
    assume "pend g r n \<noteq> 0"
    then obtain u where "u \<in> sources g" "entries (gr_log r) u = 0"
      using assms(4) by (auto elim: pend_pos_cases)
    with inv(6) eq run show False by (auto simp: sources_def)
  qed
qed

lemma graph_dag_end:
  assumes "graph_ok g" "graph_dag h g"
  shows "0 < in_degree g GRAPH_END"
proof -
  obtain r where inv: "graph_inv g r" and r: "graph_start g = Inr r" by (rule start_inv [OF assms(1)])
  obtain e where e: "e \<in> set (edges_of g GRAPH_START)" using assms(2) by (auto simp: graph_dag_def) (metis list.set_intros(1) neq_Nil_conv surj_pair)
  then have "0 < pend g r (fst e)"
    using r by (intro pend_pos_active [where a = "gr_active r ! 0"]) (auto simp: graph_start_def mark_complete_def)
  then have "0 < pend g r GRAPH_END"
    using pend_leads_to_end [OF assms(1) inv assms(2)] edge_target [OF assms(1) _ e] by (metis sources_simps(1))
  with graph_invD(3) [OF inv, of GRAPH_END] show ?thesis by simp
qed


lemma graph_final:
  assumes "graph_ok g" "graph_inv g r" "graph_dag h g" "never_retries fn_status" "\<nexists>r'. graph_step fn_status r r'"
  shows "\<forall>i<length (g_nodes g). runs (gr_log r) i = 1" "is_done (st_error (graph_test (gr_graph r)))"
    "gr_signals r = (if m_comp g = 0 then [] else [(m_comp g, (set_done status_init)\<lparr>st_user_context := m_end_value g\<rparr>)])"
    "graph_ok (gr_graph r)"
proof -
  note inv = graph_invD [OF assms(2)]
  note en = graph_enabled [OF assms(1-4)]
  note st = graph_inv_static [OF assms(2)]
  have act: "gr_active r = []"
  proof (rule ccontr)
    assume "gr_active r \<noteq> []"
    then have "0 < length (gr_active r)" by simp
    with assms(5) en(1,2) [of 0] show False by (metis graph_step.edge graph_step.exit)
  qed
  have post: "gr_posted r = []"
  proof (rule ccontr)
    assume "gr_posted r \<noteq> []"
    then obtain i where "i \<in> set (gr_posted r)" by (cases "gr_posted r") auto
    with assms(5) en(3) [of i] show False by (metis graph_step.signal)
  qed
  note all = final_all_run [OF assms(1-3) act post]
  show "\<forall>i<length (g_nodes g). runs (gr_log r) i = 1" using all(1) by blast
  have "hits (gr_log r) GRAPH_END = in_degree g GRAPH_END" using inv(3) [of GRAPH_END] all(2) by simp
  then show "is_done (st_error (graph_test (gr_graph r)))"
    using inv(5) st(6) assms(1) by (simp add: graph_test_def end_inv_def graph_ok_def set_done_def category_iff)
  have "fired g r GRAPH_END" using all(2) graph_dag_end [OF assms(1,3)] by (simp add: fired_def)
  then show "gr_signals r = (if m_comp g = 0 then [] else [(m_comp g, (set_done status_init)\<lparr>st_user_context := m_end_value g\<rparr>)])"
    using inv(5) act by (simp add: end_inv_def)
  have "signals_received (g_nodes (gr_graph r) ! i) = 0" "signals_expected (g_nodes (gr_graph r) ! i) = signals_expected (g_nodes g ! i)"
    if "i < length (g_nodes g)" for i
    using inv(4) [of i] all(1) [OF that] post that strip_eqD(2) [OF st(7) [OF that]] by (simp_all add: node_inv_def)
  moreover have "in_degree (gr_graph r) m = in_degree g m" for m using st(2,3) by (simp add: in_degree_def)
  ultimately show "graph_ok (gr_graph r)" using assms(1) unfolding graph_ok_def st(1,2,3,6) by simp
qed

lemma graph_steps_inv:
  assumes "graph_ok g" "never_retries fn_status" "graph_inv g r0" "(graph_step fn_status ^^ n) r0 r"
  shows "graph_inv g r \<and> steps_left g r + n \<le> steps_left g r0"
  using assms(4)
proof (induction n arbitrary: r)
  case (Suc n)
  then obtain q where "(graph_step fn_status ^^ n) r0 q" "graph_step fn_status q r" by auto
  with Suc.IH [of q] graph_step_inv [OF assms(1) _ assms(2), of q r] show ?case by auto
qed (use assms(3) in simp)

text \<open>C6.  Every execution of a completion graph completes.  Whatever the interleaving, it makes at most three
  steps per edge and one more, and when no step is left every node has run exactly once, \<^verbatim>\<open>test\<close> reports
  that the graph is done, the completion object of the graph, if it has one, has been signalled exactly
  once, and the counters are reset, so that a graph that was not deleted can be started again.\<close>

theorem graph_completes:
  assumes "graph_ok g" "graph_dag h g" "never_retries fn_status" "graph_start g = Inr r0" "(graph_step fn_status ^^ n) r0 r"
  shows "n \<le> 3 * (\<Sum>u\<in>sources g. length (edges_of g u)) + 1
    \<and> ((\<nexists>r'. graph_step fn_status r r') \<longrightarrow> (\<forall>i<length (g_nodes g). runs (gr_log r) i = 1)
         \<and> is_done (st_error (graph_test (gr_graph r)))
         \<and> gr_signals r = (if m_comp g = 0 then [] else [(m_comp g, (set_done status_init)\<lparr>st_user_context := m_end_value g\<rparr>)])
         \<and> graph_ok (gr_graph r))"
proof -
  have r0: "graph_inv g r0" "steps_left g r0 = 3 * (\<Sum>u\<in>sources g. length (edges_of g u)) + 1"
    using start_inv [OF assms(1)] assms(4) by auto
  have run: "graph_inv g r" "steps_left g r + n \<le> steps_left g r0"
    using graph_steps_inv [OF assms(1,3) r0(1) assms(5)] by auto
  then show ?thesis using r0(2) graph_final [OF assms(1) run(1) assms(2,3)] by auto
qed

section \<open>Building a graph, and one thread executing it\<close>

datatype gop = Op_node addr addr addr | Op_edge graph_node_t graph_node_t addr

fun graph_build :: "gop list \<Rightarrow> graph_t \<Rightarrow> graph_t res" where
  "graph_build [] g = Inr g"
| "graph_build (Op_node fn v free # ops) g = graph_build ops (snd (add_node fn v free g))"
| "graph_build (Op_edge src dst fn # ops) g = bindR (add_edge src dst fn g) (graph_build ops)"

lemma graph_build_inv: "graph_ok g \<Longrightarrow> graph_build ops g = Inr g' \<Longrightarrow> graph_ok g'"
  by (induction ops g rule: graph_build.induct) (auto simp: res_iff intro: add_node_ok add_edge_ok)

text \<open>C38.  Whatever sequence of \<^verbatim>\<open>add_node\<close> and \<^verbatim>\<open>add_edge\<close> builds a graph, it is well-formed: every edge leads to
  a node of the graph or to its end, and every node and the end expect exactly as many signals as there
  are edges to them.\<close>

theorem graph_built_ok:
  assumes "graph_build ops (graph_new junk cmp user_context) = Inr g"
  shows "graph_ok g"
  using graph_new_ok assms by (rule graph_build_inv)

text \<open>A single thread: the activation it works on is the innermost one, and posted operations complete when
  its stack is empty.\<close>

definition run_one :: "(nat \<Rightarrow> status_t) \<Rightarrow> status_t \<Rightarrow> graph_run \<Rightarrow> graph_run res" where
  "run_one fn_status st r =
     (if gr_active r \<noteq> [] then
        let k = length (gr_active r) - 1 in
        if ac_edges (gr_active r ! k) = [] then loop_exit k r else edge_iteration fn_status k r
      else case gr_posted r of [] \<Rightarrow> Inr r | i # _ \<Rightarrow> graph_signal i st r)"

fun run_n :: "(nat \<Rightarrow> status_t) \<Rightarrow> status_t \<Rightarrow> nat \<Rightarrow> graph_run \<Rightarrow> graph_run res" where
  "run_n fn_status st 0 r = Inr r"
| "run_n fn_status st (Suc n) r = bindR (run_one fn_status st r) (run_n fn_status st n)"

lemma run_one_step: "run_one fn_status st r = Inr r' \<Longrightarrow> r' = r \<or> graph_step fn_status r r'"
  using graph_step.edge [of "length (gr_active r) - 1" r] graph_step.exit [of "length (gr_active r) - 1" r]
  by (auto simp: run_one_def Let_def split: if_splits list.splits intro: graph_step.signal)

lemma run_n_steps: "run_n fn_status st n r = Inr r' \<Longrightarrow> \<exists>m. (graph_step fn_status ^^ m) r r'"
proof (induction n arbitrary: r)
  case 0
  then show ?case by (auto intro: exI [of _ 0])
next
  case (Suc n)
  then obtain q where q: "run_one fn_status st r = Inr q" "run_n fn_status st n q = Inr r'" by (auto simp: res_iff)
  then obtain m where m: "(graph_step fn_status ^^ m) q r'" using Suc.IH by blast
  from run_one_step [OF q(1)] show ?case
  proof
    assume "graph_step fn_status r q"
    then have "(graph_step fn_status ^^ Suc m) r r'" using m by (rule relpowp_Suc_I2)
    then show ?thesis by blast
  qed (use m in auto)
qed

lemma run_n_reach:
  assumes "graph_start g = Inr r0" "run_n fn_status st n r0 = Inr r" shows "graph_reach fn_status g r"
proof -
  obtain m where "(graph_step fn_status ^^ m) r0 r" using run_n_steps [OF assms(2)] by blast
  then show ?thesis
    by (induction m arbitrary: r) (auto intro: graph_reach.intros assms(1))
qed

text \<open>Two nodes, the second after the first; the operation of the first is posted.\<close>

definition graph_example_ops :: "gop list" where
  "graph_example_ops = [Op_node 7 70 0, Op_node 8 80 9, Op_edge GRAPH_START (Node 0) 0, Op_edge GRAPH_START (Node 1) 5,
     Op_edge (Node 0) (Node 1) 6, Op_edge (Node 1) GRAPH_END 0]"

definition graph_example :: graph_t where
  "graph_example = \<lparr>m_comp = 33, m_start_node = (node_impl_new 0 0 0)\<lparr>out_edges := [(Node 0, 0), (Node 1, 5)]\<rparr>,
     g_nodes = [(node_impl_new 7 70 0)\<lparr>signals_expected := 1, out_edges := [(Node 1, 6)]\<rparr>,
       (node_impl_new 8 80 9)\<lparr>signals_expected := 2, out_edges := [(GRAPH_END, 0)]\<rparr>],
     m_end_signals_expected = 1, m_end_value = 4, m_end_signals_received = 17\<rparr>"

definition fn_example :: "nat \<Rightarrow> status_t" where
  "fn_example i = (if i = 0 then set_posted status_init else set_done status_init)"

lemma graph_example_built: "graph_build graph_example_ops (graph_new 17 33 4) = Inr graph_example"
  by (simp add: graph_example_ops_def graph_new_def add_node_def add_edge_def Let_def graph_example_def node_impl_new_def bind_assert)

lemma sources_example: "sources graph_example = {GRAPH_START, Node 0, Node 1}"
  by (auto simp: sources_def graph_example_def lessThan_Suc numeral_2_eq_2)

lemma graph_example_dag: "graph_dag (\<lambda>i. 1 - i) graph_example"
  unfolding graph_dag_def in_degree_def sources_example
  by (auto simp: graph_example_def less_Suc_eq numeral_2_eq_2)

lemma fn_example_ok: "never_retries fn_example"
  by (simp add: never_retries_def fn_example_def set_posted_def set_done_def category_iff)

theorem graph_built_ok_witness:
  "graph_build graph_example_ops (graph_new 17 33 4) = Inr graph_example \<and> graph_ok graph_example"
  using graph_built_ok [OF graph_example_built] graph_example_built by blast

lemmas graph_eval = graph_start_def run_one_def mark_complete_def edge_iteration_def loop_exit_def trigger_node_def graph_signal_def
  Let_def bind_assert fn_example_def set_posted_def set_done_def category_iff node_impl_new_def graph_example_def

lemma graph_example_run:
  "\<exists>r0 r. graph_start graph_example = Inr r0 \<and> run_n fn_example (set_done status_init) 9 r0 = Inr r
     \<and> gr_active r = [] \<and> gr_posted r = [] \<and> gr_freed r = [(9, 80)]"
  by (simp add: graph_eval numeral_nat freed_by_def)

lemma no_step_idle: "gr_active r = [] \<Longrightarrow> gr_posted r = [] \<Longrightarrow> \<not> graph_step fn_status r r'"
  by (auto elim!: graph_stepE)

theorem graph_completes_witness:
  "\<exists>r0 n r. graph_start graph_example = Inr r0 \<and> (graph_step fn_example ^^ n) r0 r \<and> n \<le> 13
     \<and> runs (gr_log r) 0 = 1 \<and> runs (gr_log r) 1 = 1 \<and> is_done (st_error (graph_test (gr_graph r)))
     \<and> gr_signals r = [(33, (set_done status_init)\<lparr>st_user_context := 4\<rparr>)]"
proof -
  obtain r0 r where r: "graph_start graph_example = Inr r0" "run_n fn_example (set_done status_init) 9 r0 = Inr r"
      "gr_active r = []" "gr_posted r = []"
    using graph_example_run by blast
  obtain n where n: "(graph_step fn_example ^^ n) r0 r" using run_n_steps [OF r(2)] by blast
  have ok: "graph_ok graph_example" using graph_new_ok graph_example_built by (rule graph_build_inv)
  have len: "(\<Sum>u\<in>sources graph_example. length (edges_of graph_example u)) = 4"
    unfolding sources_example by (simp add: graph_example_def)
  have "m_comp graph_example = 33" "m_end_value graph_example = 4" "length (g_nodes graph_example) = 2"
    by (simp_all add: graph_example_def)
  with graph_completes [OF ok graph_example_dag fn_example_ok r(1) n] no_step_idle [OF r(3,4)] len r(1) n show ?thesis
    by (intro exI [of _ r0] exI [of _ n] exI [of _ r]) simp
qed


end
