(* ===== verification/LCI_Comp.thy ===== *)
theory LCI_Comp
  imports LCI_LCT_Queue LCI_Graph
begin

text \<open>
  The completion objects of \<^verbatim>\<open>src/comp\<close>: synchronizers, counters, completion queues and handlers, and the
  virtual call \<^verbatim>\<open>signal\<close> that dispatches to them and to the completion graph.

  A synchronizer is modelled twice: as a function on its state, and as a step relation in which every
  atomic access of \<^verbatim>\<open>signal\<close> and \<^verbatim>\<open>test\<close> is a step of its own.  A completion queue is modelled over the
  contract of an LCT queue, so its theorem holds for each of them.
\<close>

section \<open>Synchronizers\<close>

text \<open>With threshold 1 the code skips the counter \<^verbatim>\<open>m_top\<close> and always writes the only slot.\<close>

record sync_t =
  sy_top :: nat
  sy_top2 :: nat
  sy_tail :: nat
  sy_threshold :: nat
  sy_statuses :: "status_t list"

definition sync_new :: "nat \<Rightarrow> sync_t" where
  "sync_new threshold = \<lparr>sy_top = 0, sy_top2 = 0, sy_tail = 0, sy_threshold = threshold, sy_statuses = replicate threshold status_init\<rparr>"

definition sync_signal :: "status_t \<Rightarrow> sync_t \<Rightarrow> sync_t res" where
  "sync_signal status s =
     (let (pos, tail, s) = (if 1 < sy_threshold s then (sy_top s, sy_tail s, s\<lparr>sy_top := sy_top s + 1\<rparr>) else (0, 0, s)) in
      bindR (lci_assert (pos < tail + sy_threshold s)) (\<lambda>_.
      if pos < tail then Inl Undefined_behaviour
      else Inr (s\<lparr>sy_statuses := (sy_statuses s)[pos - tail := status], sy_top2 := sy_top2 s + 1\<rparr>)))"

text \<open>The statuses that a successful test returns; \<open>None\<close> is the return value false.\<close>

definition sync_test :: "sync_t \<Rightarrow> status_t list option \<times> sync_t" where
  "sync_test s =
     (if sy_top2 s \<noteq> sy_tail s + sy_threshold s then (None, s)
      else (Some (sy_statuses s), s\<lparr>sy_tail := sy_top2 s\<rparr>))"

text \<open>\<^verbatim>\<open>wait\<close> tests until it succeeds, making progress on a device in between; \<open>progress\<close> is what happens to the
  synchronizer meanwhile and the first argument bounds the iterations.\<close>

fun sync_wait :: "nat \<Rightarrow> (sync_t \<Rightarrow> sync_t) \<Rightarrow> sync_t \<Rightarrow> (status_t list \<times> sync_t) option" where
  "sync_wait 0 progress s = None"
| "sync_wait (Suc n) progress s =
     (case sync_test s of (Some sts, s) \<Rightarrow> Some (sts, s) | (None, s) \<Rightarrow> sync_wait n progress (progress s))"

primrec sync_signals :: "status_t list \<Rightarrow> sync_t \<Rightarrow> sync_t res" where
  "sync_signals [] s = Inr s"
| "sync_signals (st # sts) s = bindR (sync_signal st s) (sync_signals sts)"

text \<open>A synchronizer between rounds, with \<open>n\<close> signals of the current round received.\<close>

definition sync_ready :: "status_t list \<Rightarrow> sync_t \<Rightarrow> bool" where
  "sync_ready got s \<longleftrightarrow> 0 < sy_threshold s \<and> length (sy_statuses s) = sy_threshold s \<and> length got \<le> sy_threshold s
     \<and> sy_top2 s = sy_tail s + length got \<and> (1 < sy_threshold s \<longrightarrow> sy_top s = sy_tail s + length got)
     \<and> take (length got) (sy_statuses s) = got"

lemma sync_signal_ready:
  assumes "sync_ready got s" "length got < sy_threshold s"
  shows "\<exists>s'. sync_signal st s = Inr s' \<and> sync_ready (got @ [st]) s' \<and> sy_threshold s' = sy_threshold s"
proof -
  have len: "length got < length (sy_statuses s)" "take (length got) (sy_statuses s) = got" using assms by (simp_all add: sync_ready_def)
  have "take (Suc (length got)) ((sy_statuses s)[length got := st]) = got @ [st]"
    using len by (simp add: take_Suc_conv_app_nth take_update_cancel)
  moreover have "got = []" "sy_threshold s = 1" if "\<not> 1 < sy_threshold s" using assms(2) that by (cases got; simp)+
  ultimately show ?thesis using assms
    by (cases "1 < sy_threshold s") (auto simp: sync_signal_def sync_ready_def bind_assert Let_def)
qed

lemma sync_signals_ready:
  "sync_ready got s \<Longrightarrow> length got + length sts \<le> sy_threshold s \<Longrightarrow>
    \<exists>s'. sync_signals sts s = Inr s' \<and> sync_ready (got @ sts) s' \<and> sy_threshold s' = sy_threshold s"
proof (induction sts arbitrary: got s)
  case (Cons st sts)
  then obtain s1 where "sync_signal st s = Inr s1" "sync_ready (got @ [st]) s1" "sy_threshold s1 = sy_threshold s"
    using sync_signal_ready [of got s st] by auto
  with Cons.IH [of "got @ [st]" s1] Cons.prems show ?case by auto
qed auto

lemma sync_test_ready:
  assumes "sync_ready got s"
  shows "length got < sy_threshold s \<Longrightarrow> sync_test s = (None, s)"
    "length got = sy_threshold s \<Longrightarrow> \<exists>s'. sync_test s = (Some got, s') \<and> sync_ready [] s' \<and> sy_threshold s' = sy_threshold s"
  using assms by (auto simp: sync_test_def sync_ready_def)

lemma sync_new_ready: "0 < n \<Longrightarrow> sync_ready [] (sync_new n)"
  by (simp add: sync_ready_def sync_new_def)

lemma sync_wait_returns:
  assumes "\<And>m. m < n \<Longrightarrow> fst (sync_test ((progress ^^ m) s)) = None" "sync_test ((progress ^^ n) s) = (Some sts, s')"
  shows "sync_wait (Suc n) progress s = Some (sts, s')"
  using assms
proof (induction n arbitrary: s)
  case (Suc n)
  have "fst (sync_test s) = None" using Suc.prems(1) [of 0] by simp
  then have "sync_test s = (None, s)" by (auto simp: sync_test_def split: if_splits)
  moreover have "sync_wait (Suc n) progress (progress s) = Some (sts, s')"
  proof (rule Suc.IH)
    fix m assume "m < n"
    then show "fst (sync_test ((progress ^^ m) (progress s))) = None" using Suc.prems(1) [of "Suc m"] by (simp add: funpow_swap1)
  qed (use Suc.prems(2) in \<open>simp add: funpow_swap1\<close>)
  ultimately show ?case by simp
qed simp

text \<open>One signal too many fails the assertion if the threshold is above 1.  With threshold 1 it passes
  unnoticed: it overwrites the status of the first, and no later test succeeds.\<close>

lemma sync_overrun_caught:
  assumes "sync_ready got s" "length got = sy_threshold s" "1 < sy_threshold s"
  shows "sync_signal st s = Inl Assert_failed"
  using assms by (simp add: sync_signal_def sync_ready_def bind_assert)

lemma sync_single_steps:
  "sy_threshold s = 1 \<Longrightarrow> sync_signals sts s = Inr s' \<Longrightarrow>
    sy_threshold s' = 1 \<and> sy_tail s' = sy_tail s \<and> sy_top2 s' = sy_top2 s + length sts"
proof (induction sts arbitrary: s)
  case (Cons st sts)
  then obtain s1 where "sync_signal st s = Inr s1" "sync_signals sts s1 = Inr s'" by (auto simp: res_iff)
  moreover from this(1) have "sy_threshold s1 = 1" "sy_tail s1 = sy_tail s" "sy_top2 s1 = sy_top2 s + 1"
    using Cons.prems(1) by (auto simp: sync_signal_def Let_def)
  ultimately show ?case using Cons.IH [of s1] by simp
qed simp

lemma sync_single_overrun: "sync_signals (a # b # sts) (sync_new 1) = Inr s \<Longrightarrow> sync_test s = (None, s)"
  using sync_single_steps [of "sync_new 1" "a # b # sts" s] by (simp add: sync_test_def sync_new_def)

section \<open>Synchronizers under concurrency\<close>

text \<open>One step per atomic access.  A signalling thread takes a position from \<^verbatim>\<open>m_top\<close>, loads \<^verbatim>\<open>m_tail\<close>, writes its
  slot and then adds to \<^verbatim>\<open>m_top2\<close>.  A testing thread loads \<^verbatim>\<open>m_top2\<close> and \<^verbatim>\<open>m_tail\<close>, tries to move \<^verbatim>\<open>m_tail\<close>, and if
  it succeeds copies the slots out one by one.  The clients of a synchronizer signal it \<open>threshold\<close> times
  per round: \<open>sc_credits\<close> signals of the current round have not begun, and a new round begins when a
  successful test has returned.  \<open>sc_round\<close> holds the statuses of the current round in the order of
  their positions, \<open>sc_rounds\<close> those of the rounds before, and \<open>sc_results\<close> what the successful tests
  returned.\<close>

datatype signaller = Sg_idle | Sg_pos status_t nat | Sg_store status_t nat | Sg_stored | Sg_failed

datatype tester = Ts_idle | Ts_top nat | Ts_match nat nat | Ts_copy "status_t list"

record sync_sys =
  sc_top :: nat
  sc_top2 :: nat
  sc_tail :: nat
  sc_statuses :: "nat \<Rightarrow> status_t"
  sc_signallers :: "signaller list"
  sc_testers :: "tester list"
  sc_credits :: nat
  sc_round :: "status_t list"
  sc_rounds :: "status_t list list"
  sc_results :: "status_t list list"

definition sync_sys_init :: "nat \<Rightarrow> nat \<Rightarrow> nat \<Rightarrow> sync_sys" where
  "sync_sys_init T ns nt = \<lparr>sc_top = 0, sc_top2 = 0, sc_tail = 0, sc_statuses = (\<lambda>_. status_init),
     sc_signallers = replicate ns Sg_idle, sc_testers = replicate nt Ts_idle, sc_credits = T, sc_round = [], sc_rounds = [], sc_results = []\<rparr>"

inductive sync_step :: "nat \<Rightarrow> sync_sys \<Rightarrow> sync_sys \<Rightarrow> bool" for T where
  sig_take: "1 < T \<Longrightarrow> 0 < sc_credits s \<Longrightarrow> i < length (sc_signallers s) \<Longrightarrow> sc_signallers s ! i = Sg_idle \<Longrightarrow>
    sync_step T s (s\<lparr>sc_top := sc_top s + 1, sc_credits := sc_credits s - 1, sc_round := sc_round s @ [st],
      sc_signallers := (sc_signallers s)[i := Sg_pos st (sc_top s)]\<rparr>)"
| sig_single: "\<not> 1 < T \<Longrightarrow> 0 < sc_credits s \<Longrightarrow> i < length (sc_signallers s) \<Longrightarrow> sc_signallers s ! i = Sg_idle \<Longrightarrow>
    sync_step T s (s\<lparr>sc_credits := sc_credits s - 1, sc_round := sc_round s @ [st],
      sc_signallers := (sc_signallers s)[i := (if 0 < T then Sg_store st 0 else Sg_failed)]\<rparr>)"
| sig_tail: "i < length (sc_signallers s) \<Longrightarrow> sc_signallers s ! i = Sg_pos st pos \<Longrightarrow>
    sync_step T s (s\<lparr>sc_signallers := (sc_signallers s)[i :=
      (if pos < sc_tail s + T \<and> sc_tail s \<le> pos then Sg_store st (pos - sc_tail s) else Sg_failed)]\<rparr>)"
| sig_store: "i < length (sc_signallers s) \<Longrightarrow> sc_signallers s ! i = Sg_store st k \<Longrightarrow>
    sync_step T s (s\<lparr>sc_statuses := (sc_statuses s)(k := st), sc_signallers := (sc_signallers s)[i := Sg_stored]\<rparr>)"
| sig_done: "i < length (sc_signallers s) \<Longrightarrow> sc_signallers s ! i = Sg_stored \<Longrightarrow>
    sync_step T s (s\<lparr>sc_top2 := sc_top2 s + 1, sc_signallers := (sc_signallers s)[i := Sg_idle]\<rparr>)"
| test_top: "i < length (sc_testers s) \<Longrightarrow> sc_testers s ! i = Ts_idle \<Longrightarrow>
    sync_step T s (s\<lparr>sc_testers := (sc_testers s)[i := Ts_top (sc_top2 s)]\<rparr>)"
| test_tail: "i < length (sc_testers s) \<Longrightarrow> sc_testers s ! i = Ts_top t \<Longrightarrow>
    sync_step T s (s\<lparr>sc_testers := (sc_testers s)[i := (if t \<noteq> sc_tail s + T then Ts_idle else Ts_match t (sc_tail s))]\<rparr>)"
| test_win: "i < length (sc_testers s) \<Longrightarrow> sc_testers s ! i = Ts_match t b \<Longrightarrow> sc_tail s = b \<Longrightarrow>
    sync_step T s (s\<lparr>sc_tail := t, sc_testers := (sc_testers s)[i := Ts_copy []]\<rparr>)"
| test_lose: "i < length (sc_testers s) \<Longrightarrow> sc_testers s ! i = Ts_match t b \<Longrightarrow>
    sync_step T s (s\<lparr>sc_testers := (sc_testers s)[i := Ts_idle]\<rparr>)"
| test_copy: "i < length (sc_testers s) \<Longrightarrow> sc_testers s ! i = Ts_copy out \<Longrightarrow> length out < T \<Longrightarrow>
    sync_step T s (s\<lparr>sc_testers := (sc_testers s)[i := Ts_copy (out @ [sc_statuses s (length out)])]\<rparr>)"
| test_return: "i < length (sc_testers s) \<Longrightarrow> sc_testers s ! i = Ts_copy out \<Longrightarrow> length out = T \<Longrightarrow>
    sync_step T s (s\<lparr>sc_testers := (sc_testers s)[i := Ts_idle], sc_results := sc_results s @ [out],
      sc_rounds := sc_rounds s @ [sc_round s], sc_round := [], sc_credits := T\<rparr>)"

inductive sync_reach :: "nat \<Rightarrow> sync_sys \<Rightarrow> bool" for T where
  init: "sync_reach T (sync_sys_init T ns nt)"
| step: "sync_reach T s \<Longrightarrow> sync_step T s s' \<Longrightarrow> sync_reach T s'"

text \<open>Threads in the middle of a signal, and the threads that have won a test and copy.\<close>

fun signalling :: "signaller \<Rightarrow> bool" where "signalling Sg_idle = False" | "signalling _ = True"

fun copying :: "tester \<Rightarrow> bool" where "copying (Ts_copy out) = True" | "copying _ = False"

definition busy_signals :: "sync_sys \<Rightarrow> nat" where "busy_signals s = length (filter signalling (sc_signallers s))"

definition winners :: "sync_sys \<Rightarrow> nat" where "winners s = length (filter copying (sc_testers s))"

text \<open>The slot that a thread is about to write.\<close>

fun slot_of :: "nat \<Rightarrow> signaller \<Rightarrow> nat option" where
  "slot_of tail (Sg_pos st pos) = Some (pos - tail)"
| "slot_of tail (Sg_store st k) = Some k"
| "slot_of tail _ = None"

fun signaller_ok :: "sync_sys \<Rightarrow> signaller \<Rightarrow> bool" where
  "signaller_ok s (Sg_pos st pos) \<longleftrightarrow> sc_tail s \<le> pos \<and> pos < sc_tail s + length (sc_round s) \<and> sc_round s ! (pos - sc_tail s) = st"
| "signaller_ok s (Sg_store st k) \<longleftrightarrow> k < length (sc_round s) \<and> sc_round s ! k = st"
| "signaller_ok s Sg_failed \<longleftrightarrow> False"
| "signaller_ok s _ \<longleftrightarrow> True"

fun tester_ok :: "nat \<Rightarrow> sync_sys \<Rightarrow> tester \<Rightarrow> bool" where
  "tester_ok T s (Ts_top t) \<longleftrightarrow> t \<le> sc_top2 s"
| "tester_ok T s (Ts_match t b) \<longleftrightarrow> t = b + T \<and> t \<le> sc_top2 s"
| "tester_ok T s (Ts_copy out) \<longleftrightarrow> out = take (length out) (sc_round s)"
| "tester_ok T s Ts_idle \<longleftrightarrow> True"

definition sync_inv :: "nat \<Rightarrow> sync_sys \<Rightarrow> bool" where
  "sync_inv T s \<longleftrightarrow> (\<forall>x\<in>set (sc_signallers s). signaller_ok s x) \<and> (\<forall>x\<in>set (sc_testers s). tester_ok T s x)
     \<and> (\<forall>k<length (sc_round s). (\<forall>x\<in>set (sc_signallers s). slot_of (sc_tail s) x \<noteq> Some k) \<longrightarrow> sc_statuses s k = sc_round s ! k)
     \<and> length (sc_round s) + sc_credits s = T \<and> winners s \<le> 1
     \<and> sc_top2 s + busy_signals s + sc_credits s + winners s * T = sc_tail s + T
     \<and> (1 < T \<longrightarrow> sc_top s + winners s * T = sc_tail s + length (sc_round s))
     \<and> (0 < winners s \<longrightarrow> busy_signals s = 0 \<and> sc_credits s = 0)
     \<and> sc_results s = sc_rounds s"

lemma sync_invD:
  assumes "sync_inv T s"
  shows "\<forall>x\<in>set (sc_signallers s). signaller_ok s x" "\<forall>x\<in>set (sc_testers s). tester_ok T s x"
    "k < length (sc_round s) \<Longrightarrow> (\<And>x. x \<in> set (sc_signallers s) \<Longrightarrow> slot_of (sc_tail s) x \<noteq> Some k) \<Longrightarrow> sc_statuses s k = sc_round s ! k"
    "length (sc_round s) + sc_credits s = T" "winners s \<le> 1"
    "sc_top2 s + busy_signals s + sc_credits s + winners s * T = sc_tail s + T"
    "1 < T \<Longrightarrow> sc_top s + winners s * T = sc_tail s + length (sc_round s)"
    "0 < winners s \<Longrightarrow> busy_signals s = 0 \<and> sc_credits s = 0" "sc_results s = sc_rounds s"
  using assms by (auto simp: sync_inv_def)

lemma no_signals:
  assumes "sync_inv T s" "busy_signals s = 0"
  shows "x \<in> set (sc_signallers s) \<Longrightarrow> x = Sg_idle" "k < length (sc_round s) \<Longrightarrow> sc_statuses s k = sc_round s ! k"
proof -
  show idle: "x = Sg_idle" if "x \<in> set (sc_signallers s)" for x
    using assms(2) that by (cases x) (auto simp: busy_signals_def filter_empty_conv)
  show "k < length (sc_round s) \<Longrightarrow> sc_statuses s k = sc_round s ! k"
    using sync_invD(3) [OF assms(1), of k] idle by force
qed

text \<open>A signalling thread moves: what it leaves must not hide an unwritten slot, and the counts must agree.\<close>

lemma signaller_inv:
  assumes "sync_inv T s" "i < length (sc_signallers s)"
    and s': "sc_tail s' = sc_tail s" "sc_signallers s' = (sc_signallers s)[i := y]" "sc_testers s' = sc_testers s"
      "sc_rounds s' = sc_rounds s" "sc_results s' = sc_results s" "sc_top2 s \<le> sc_top2 s'"
    and "winners s = 0 \<or> sc_round s' = sc_round s" "\<And>x. signaller_ok s x \<Longrightarrow> signaller_ok s' x" "signaller_ok s' y"
    and "\<And>k. k < length (sc_round s') \<Longrightarrow> slot_of (sc_tail s) y \<noteq> Some k \<Longrightarrow>
        (\<And>x. x \<in> set (sc_signallers s) - {sc_signallers s ! i} \<Longrightarrow> slot_of (sc_tail s) x \<noteq> Some k) \<Longrightarrow> sc_statuses s' k = sc_round s' ! k"
    and "length (sc_round s') + sc_credits s' = T"
    and "sc_top2 s' + (if signalling y then 1 else 0) + sc_credits s' = sc_top2 s + (if signalling (sc_signallers s ! i) then 1 else 0) + sc_credits s"
    and "1 < T \<Longrightarrow> sc_top s' + length (sc_round s) = sc_top s + length (sc_round s')"
    and "winners s = 0 \<or> signalling (sc_signallers s ! i)"
  shows "sync_inv T s'"
proof -
  note inv = sync_invD [OF assms(1)]
  have w: "winners s' = winners s" by (simp add: winners_def s')
  have b: "busy_signals s' + (if signalling (sc_signallers s ! i) then 1 else 0) = busy_signals s + (if signalling y then 1 else 0)"
    using count_filter_update [OF assms(2), of signalling y] by (simp add: busy_signals_def s')
  have w0: "winners s = 0"
  proof (rule ccontr)
    assume "winners s \<noteq> 0"
    then have "busy_signals s = 0" "signalling (sc_signallers s ! i)" using inv(8) assms(16) by auto
    then show False using no_signals(1) [OF assms(1) _ nth_mem [OF assms(2)]] by simp
  qed
  have "\<forall>x\<in>set (sc_testers s'). tester_ok T s' x"
  proof
    fix x assume x: "x \<in> set (sc_testers s')"
    then have "\<not> copying x" using w0 by (simp add: winners_def filter_empty_conv s')
    then show "tester_ok T s' x" using bspec [OF inv(2), of x] x s' by (cases x) auto
  qed
  moreover have "sc_statuses s' k = sc_round s' ! k"
    if k: "k < length (sc_round s')" "\<forall>x\<in>set (sc_signallers s'). slot_of (sc_tail s') x \<noteq> Some k" for k
  proof (rule assms(12) [OF k(1)])
    show "slot_of (sc_tail s) y \<noteq> Some k" using k(2) assms(2) s' by (auto simp: set_update_memI)
    fix x assume "x \<in> set (sc_signallers s) - {sc_signallers s ! i}"
    then obtain j where j: "j < length (sc_signallers s)" "x = sc_signallers s ! j" "j \<noteq> i" by (auto simp: in_set_conv_nth)
    then have "x \<in> set (sc_signallers s')" using s'(2) by (metis length_list_update nth_list_update_neq nth_mem)
    then show "slot_of (sc_tail s) x \<noteq> Some k" using k(2) s'(1) by simp
  qed
  moreover have "\<forall>x\<in>set (sc_signallers s'). signaller_ok s' x"
    using all_update [of "sc_signallers s" "signaller_ok s'" y i] inv(1) assms(10,11) s'(2) by simp
  ultimately show ?thesis
    unfolding sync_inv_def using inv(4-7,9) w w0 b s' assms(13-15) by auto
qed

lemma winner_pos: "i < length (sc_testers s) \<Longrightarrow> sc_testers s ! i = Ts_copy out \<Longrightarrow> 0 < winners s"
  using nth_mem [of i "sc_testers s"] by (auto simp: winners_def filter_empty_conv intro!: bexI [of _ "Ts_copy out"])

text \<open>A testing thread moves without touching the synchronizer.\<close>

lemma tester_inv:
  assumes "sync_inv T s" "i < length (sc_testers s)" "tester_ok T s y" "copying y = copying (sc_testers s ! i)"
  shows "sync_inv T (s\<lparr>sc_testers := (sc_testers s)[i := y]\<rparr>)" (is "sync_inv T ?s")
proof -
  note inv = sync_invD [OF assms(1)]
  have same: "winners ?s = winners s" "busy_signals ?s = busy_signals s"
    using count_filter_update [OF assms(2), of copying y] assms(4) by (auto simp: winners_def busy_signals_def split: if_splits)
  have sok: "signaller_ok ?s x = signaller_ok s x" and tok: "tester_ok T ?s t = tester_ok T s t" for x t
    by (cases x; simp) (cases t; simp)
  have "\<forall>x\<in>set ((sc_testers s)[i := y]). tester_ok T s x" by (rule all_update [OF inv(2) assms(3)])
  then show ?thesis
    unfolding sync_inv_def same using inv(1,3-9) by (simp add: sok tok)
qed

lemma test_win_inv:
  assumes "sync_inv T s" "0 < T" "i < length (sc_testers s)" "sc_testers s ! i = Ts_match t (sc_tail s)"
  shows "sync_inv T (s\<lparr>sc_tail := t, sc_testers := (sc_testers s)[i := Ts_copy []]\<rparr>)" (is "sync_inv T ?s")
proof -
  note inv = sync_invD [OF assms(1)]
  have t: "t = sc_tail s + T" "t \<le> sc_top2 s" using bspec [OF inv(2) nth_mem [OF assms(3)]] assms(4) by simp_all
  then have z: "winners s = 0" "busy_signals s = 0" "sc_credits s = 0" "sc_top2 s = t" using inv(6) assms(2) by (cases "winners s"; simp)+
  note no = no_signals [OF assms(1) z(2)]
  have w: "winners ?s = 1" "busy_signals ?s = 0"
    using count_filter_update [OF assms(3), of copying "Ts_copy []"] assms(4) z(1,2) by (simp_all add: winners_def busy_signals_def)
  have tok: "tester_ok T ?s x" if "tester_ok T s x" for x using that by (cases x) simp_all
  have "\<forall>x\<in>set (sc_testers ?s). tester_ok T ?s x"
    using all_update [of "sc_testers s" "tester_ok T ?s" "Ts_copy []" i] inv(2) tok by simp
  moreover have "\<forall>x\<in>set (sc_signallers ?s). signaller_ok ?s x" using no(1) by fastforce
  ultimately show ?thesis
    unfolding sync_inv_def w using inv(4,7,9) no(2) z t by simp
qed

lemma test_return_inv:
  assumes "sync_inv T s" "0 < T" "i < length (sc_testers s)" "sc_testers s ! i = Ts_copy out" "length out = T"
  shows "sync_inv T (s\<lparr>sc_testers := (sc_testers s)[i := Ts_idle], sc_results := sc_results s @ [out],
      sc_rounds := sc_rounds s @ [sc_round s], sc_round := [], sc_credits := T\<rparr>)" (is "sync_inv T ?s")
proof -
  note inv = sync_invD [OF assms(1)]
  have "0 < winners s" using winner_pos [OF assms(3,4)] .
  then have z: "winners s = 1" "busy_signals s = 0" "sc_credits s = 0" using inv(5,8) by auto
  note no = no_signals [OF assms(1) z(2)]
  have w: "winners ?s = 0" "busy_signals ?s = 0"
    using count_filter_update [OF assms(3), of copying Ts_idle] assms(4) z(1,2) by (simp_all add: winners_def busy_signals_def)
  have "out = sc_round s" using bspec [OF inv(2) nth_mem [OF assms(3)]] assms(4,5) inv(4) z(3) by simp
  moreover have "tester_ok T ?s x" if x: "x \<in> set ((sc_testers s)[i := Ts_idle])" for x
  proof -
    have "\<not> copying x" using w(1) x by (simp add: winners_def filter_empty_conv)
    moreover have "x = Ts_idle \<or> x \<in> set (sc_testers s)" using x set_update_subset_insert by fastforce
    ultimately show ?thesis using inv(2) by (cases x) auto
  qed
  moreover have "\<forall>x\<in>set (sc_signallers ?s). signaller_ok ?s x" using no(1) by fastforce
  ultimately show ?thesis
    unfolding sync_inv_def w using inv(4,6,7,9) z by simp
qed

lemma sync_inv_step:
  assumes "sync_step T s s'" "sync_inv T s" "0 < T"
  shows "sync_inv T s'"
  using assms(1)
proof cases
  case (sig_take i st)
  note inv = sync_invD [OF assms(2)]
  have w: "winners s = 0" using inv(8) sig_take(3) by auto
  have p: "sc_top s = sc_tail s + length (sc_round s)" using inv(7) sig_take(2) w by simp
  show ?thesis
    unfolding sig_take(1)
  proof (rule signaller_inv [OF assms(2) sig_take(4), where y = "Sg_pos st (sc_top s)"])
    fix x assume "signaller_ok s x"
    then show "signaller_ok (s\<lparr>sc_top := sc_top s + 1, sc_credits := sc_credits s - 1, sc_round := sc_round s @ [st],
      sc_signallers := (sc_signallers s)[i := Sg_pos st (sc_top s)]\<rparr>) x" by (cases x) (auto simp: nth_append)
  next
    fix k
    let ?s = "s\<lparr>sc_top := sc_top s + 1, sc_credits := sc_credits s - 1, sc_round := sc_round s @ [st], sc_signallers := (sc_signallers s)[i := Sg_pos st (sc_top s)]\<rparr>"
    assume k: "k < length (sc_round ?s)" "slot_of (sc_tail s) (Sg_pos st (sc_top s)) \<noteq> Some k"
      "\<And>x. x \<in> set (sc_signallers s) - {sc_signallers s ! i} \<Longrightarrow> slot_of (sc_tail s) x \<noteq> Some k"
    then have "k < length (sc_round s)" using p by simp
    moreover have "slot_of (sc_tail s) x \<noteq> Some k" if "x \<in> set (sc_signallers s)" for x
      using k(3) [of x] that sig_take(5) by (cases "x = Sg_idle") auto
    ultimately show "sc_statuses ?s k = sc_round ?s ! k" using inv(3) [of k] by (simp add: nth_append)
  qed (use w p sig_take inv(4) in auto)
next
  case (sig_single i st)
  note inv = sync_invD [OF assms(2)]
  have w: "winners s = 0" using inv(8) sig_single(3) by auto
  have r: "sc_round s = []" "sc_credits s = 1" "T = 1" using inv(4) sig_single(2,3) assms(3) by (cases "sc_round s"; simp)+
  show ?thesis
    unfolding sig_single(1)
    by (rule signaller_inv [OF assms(2) sig_single(4), where y = "Sg_store st 0"])
      (use w r sig_single no_signals in \<open>auto elim: signaller_ok.elims\<close>)
next
  case (sig_tail i st pos)
  note inv = sync_invD [OF assms(2)]
  have ok: "signaller_ok s (Sg_pos st pos)" using bspec [OF inv(1) nth_mem [OF sig_tail(2)]] sig_tail(3) by simp
  then have c: "pos < sc_tail s + T \<and> sc_tail s \<le> pos" using inv(4) by simp
  let ?s = "s\<lparr>sc_signallers := (sc_signallers s)[i := Sg_store st (pos - sc_tail s)]\<rparr>"
  have sok: "signaller_ok ?s x = signaller_ok s x" for x by (cases x) simp_all
  have "sync_inv T ?s"
  proof (rule signaller_inv [OF assms(2) sig_tail(2), where y = "Sg_store st (pos - sc_tail s)"])
    fix k assume k: "k < length (sc_round ?s)" "slot_of (sc_tail s) (Sg_store st (pos - sc_tail s)) \<noteq> Some k"
      "\<And>x. x \<in> set (sc_signallers s) - {sc_signallers s ! i} \<Longrightarrow> slot_of (sc_tail s) x \<noteq> Some k"
    have "slot_of (sc_tail s) x \<noteq> Some k" if "x \<in> set (sc_signallers s)" for x
      using k(2) k(3) [of x] that sig_tail(3) by (cases "x = sc_signallers s ! i") auto
    then show "sc_statuses ?s k = sc_round ?s ! k" using inv(3) [of k] k(1) by simp
  qed (use ok sok sig_tail(3) inv(4) in auto)
  then show ?thesis using sig_tail(1) c by simp
next
  case (sig_store i st m)
  note inv = sync_invD [OF assms(2)]
  have ok: "signaller_ok s (Sg_store st m)" using bspec [OF inv(1) nth_mem [OF sig_store(2)]] sig_store(3) by simp
  let ?s = "s\<lparr>sc_statuses := (sc_statuses s)(m := st), sc_signallers := (sc_signallers s)[i := Sg_stored]\<rparr>"
  have sok: "signaller_ok ?s x = signaller_ok s x" for x by (cases x) simp_all
  show ?thesis
    unfolding sig_store(1)
  proof (rule signaller_inv [OF assms(2) sig_store(2), where y = Sg_stored])
    fix k assume k: "k < length (sc_round ?s)"
      "\<And>x. x \<in> set (sc_signallers s) - {sc_signallers s ! i} \<Longrightarrow> slot_of (sc_tail s) x \<noteq> Some k"
    show "sc_statuses ?s k = sc_round ?s ! k"
    proof (cases "k = m")
      case False
      then have "slot_of (sc_tail s) x \<noteq> Some k" if "x \<in> set (sc_signallers s)" for x
        using k(2) [of x] that sig_store(3) by (cases "x = sc_signallers s ! i") auto
      then show ?thesis using inv(3) [of k] k(1) False by simp
    qed (use ok in simp)
  qed (use ok sok sig_store(3) inv(4) in auto)
next
  case (sig_done i)
  note inv = sync_invD [OF assms(2)]
  let ?s = "s\<lparr>sc_top2 := sc_top2 s + 1, sc_signallers := (sc_signallers s)[i := Sg_idle]\<rparr>"
  have sok: "signaller_ok ?s x = signaller_ok s x" for x by (cases x) simp_all
  show ?thesis
    unfolding sig_done(1)
  proof (rule signaller_inv [OF assms(2) sig_done(2), where y = Sg_idle])
    fix k assume k: "k < length (sc_round ?s)"
      "\<And>x. x \<in> set (sc_signallers s) - {sc_signallers s ! i} \<Longrightarrow> slot_of (sc_tail s) x \<noteq> Some k"
    have "slot_of (sc_tail s) x \<noteq> Some k" if "x \<in> set (sc_signallers s)" for x
      using k(2) [of x] that sig_done(3) by (cases "x = sc_signallers s ! i") auto
    then show "sc_statuses ?s k = sc_round ?s ! k" using inv(3) [of k] k(1) by simp
  qed (use sok sig_done(3) inv(4) in auto)
next
  case (test_top i)
  then show ?thesis using tester_inv [OF assms(2) test_top(2), of "Ts_top (sc_top2 s)"] by simp
next
  case (test_tail i t)
  then have "t \<le> sc_top2 s" using bspec [OF sync_invD(2) [OF assms(2)] nth_mem [OF test_tail(2)]] by simp
  with test_tail show ?thesis
    using tester_inv [OF assms(2) test_tail(2), of "if t \<noteq> sc_tail s + T then Ts_idle else Ts_match t (sc_tail s)"] by simp
next
  case (test_win i t b)
  then show ?thesis using test_win_inv [OF assms(2,3)] by simp
next
  case (test_lose i t b)
  then show ?thesis using tester_inv [OF assms(2) test_lose(2), of Ts_idle] by simp
next
  case (test_copy i out)
  note inv = sync_invD [OF assms(2)]
  have "0 < winners s" using winner_pos [OF test_copy(2,3)] .
  then have z: "busy_signals s = 0" "length (sc_round s) = T" using inv(4,8) by auto
  have "out = take (length out) (sc_round s)" using bspec [OF inv(2) nth_mem [OF test_copy(2)]] test_copy(3) by simp
  then have "tester_ok T s (Ts_copy (out @ [sc_statuses s (length out)]))"
    using no_signals(2) [OF assms(2) z(1), of "length out"] z(2) test_copy(4) by (simp add: take_Suc_conv_app_nth)
  from tester_inv [OF assms(2) test_copy(2) this] test_copy(1,3) show ?thesis by simp
next
  case (test_return i out)
  then show ?thesis using test_return_inv [OF assms(2,3)] by simp
qed

lemma sync_init_inv: "sync_inv T (sync_sys_init T ns nt)"
  by (auto simp: sync_inv_def sync_sys_init_def winners_def busy_signals_def set_replicate_conv_if)

lemma sync_reach_inv:
  assumes "0 < T" "sync_reach T s" shows "sync_inv T s"
  using assms(2) by induction (use assms(1) in \<open>auto intro: sync_init_inv sync_inv_step\<close>)

text \<open>C9.  A synchronizer works under every interleaving of signalling and testing threads, round after round,
  when it is signalled as often per round as its threshold says.  No signal fails the assertion, at most
  one test of a round succeeds, every successful test returns exactly the statuses that the round was
  signalled with, one slot per signal, and as soon as all signals of a round have returned the counters
  are such that a test succeeds.\<close>

theorem sync_rounds_delivered:
  assumes "0 < T" "sync_reach T s"
  shows "sc_results s = sc_rounds s \<and> Sg_failed \<notin> set (sc_signallers s) \<and> winners s \<le> 1
    \<and> (\<forall>out. Ts_copy out \<in> set (sc_testers s) \<longrightarrow> out = take (length out) (sc_round s) \<and> length (sc_round s) = T)
    \<and> (length (sc_round s) = T \<and> busy_signals s = 0 \<and> winners s = 0 \<longrightarrow> sc_top2 s = sc_tail s + T)"
proof -
  have I: "sync_inv T s" by (rule sync_reach_inv [OF assms])
  note inv = sync_invD [OF I]
  have "Sg_failed \<notin> set (sc_signallers s)" using inv(1) by auto
  moreover have "out = take (length out) (sc_round s) \<and> length (sc_round s) = T" if "Ts_copy out \<in> set (sc_testers s)" for out
  proof -
    have "0 < winners s" using that winner_pos [of _ s out] by (auto simp: in_set_conv_nth)
    then show ?thesis using bspec [OF inv(2) that] inv(4,8) by simp
  qed
  ultimately show ?thesis using inv(4-6,9) by auto
qed

theorem sync_rounds_delivered_witness:
  "\<exists>s. sync_reach 2 s \<and> sc_rounds s = [[set_done status_init, status_init]] \<and> sc_results s = [[set_done status_init, status_init]]"
proof -
  let ?a = "set_done status_init" and ?b = "status_init" and ?e = "\<lambda>_ :: nat. status_init"
  let ?f = "?e(0 := ?a)"
  let ?g = "?f(1 := ?b)"
  have r: "sync_reach 2 \<lparr>sc_top = 0, sc_top2 = 0, sc_tail = 0, sc_statuses = ?e, sc_signallers = [Sg_idle], sc_testers = [Ts_idle], sc_credits = 2, sc_round = [], sc_rounds = [], sc_results = []\<rparr>"
    using sync_reach.init [of 2 1 1] by (simp add: sync_sys_init_def)
  have r: "sync_reach 2 \<lparr>sc_top = 1, sc_top2 = 0, sc_tail = 0, sc_statuses = ?e, sc_signallers = [Sg_pos ?a 0], sc_testers = [Ts_idle], sc_credits = 1, sc_round = [?a], sc_rounds = [], sc_results = []\<rparr>"
    using sync_reach.step [OF r sync_step.sig_take [where i = 0 and st = "?a" and T = 2]] by (simp add: numeral_2_eq_2)
  have r: "sync_reach 2 \<lparr>sc_top = 1, sc_top2 = 0, sc_tail = 0, sc_statuses = ?e, sc_signallers = [Sg_store ?a 0], sc_testers = [Ts_idle], sc_credits = 1, sc_round = [?a], sc_rounds = [], sc_results = []\<rparr>"
    using sync_reach.step [OF r sync_step.sig_tail [where i = 0 and T = 2]] by (simp add: numeral_2_eq_2)
  have r: "sync_reach 2 \<lparr>sc_top = 1, sc_top2 = 0, sc_tail = 0, sc_statuses = ?f, sc_signallers = [Sg_stored], sc_testers = [Ts_idle], sc_credits = 1, sc_round = [?a], sc_rounds = [], sc_results = []\<rparr>"
    using sync_reach.step [OF r sync_step.sig_store [where i = 0 and T = 2]] by (simp add: numeral_2_eq_2)
  have r: "sync_reach 2 \<lparr>sc_top = 1, sc_top2 = 1, sc_tail = 0, sc_statuses = ?f, sc_signallers = [Sg_idle], sc_testers = [Ts_idle], sc_credits = 1, sc_round = [?a], sc_rounds = [], sc_results = []\<rparr>"
    using sync_reach.step [OF r sync_step.sig_done [where i = 0 and T = 2]] by (simp add: numeral_2_eq_2)
  have r: "sync_reach 2 \<lparr>sc_top = 2, sc_top2 = 1, sc_tail = 0, sc_statuses = ?f, sc_signallers = [Sg_pos ?b 1], sc_testers = [Ts_idle], sc_credits = 0, sc_round = [?a, ?b], sc_rounds = [], sc_results = []\<rparr>"
    using sync_reach.step [OF r sync_step.sig_take [where i = 0 and st = "?b" and T = 2]] by (simp add: numeral_2_eq_2)
  have r: "sync_reach 2 \<lparr>sc_top = 2, sc_top2 = 1, sc_tail = 0, sc_statuses = ?f, sc_signallers = [Sg_store ?b 1], sc_testers = [Ts_idle], sc_credits = 0, sc_round = [?a, ?b], sc_rounds = [], sc_results = []\<rparr>"
    using sync_reach.step [OF r sync_step.sig_tail [where i = 0 and T = 2]] by (simp add: numeral_2_eq_2)
  have r: "sync_reach 2 \<lparr>sc_top = 2, sc_top2 = 1, sc_tail = 0, sc_statuses = ?g, sc_signallers = [Sg_stored], sc_testers = [Ts_idle], sc_credits = 0, sc_round = [?a, ?b], sc_rounds = [], sc_results = []\<rparr>"
    using sync_reach.step [OF r sync_step.sig_store [where i = 0 and T = 2]] by (simp add: numeral_2_eq_2)
  have r: "sync_reach 2 \<lparr>sc_top = 2, sc_top2 = 2, sc_tail = 0, sc_statuses = ?g, sc_signallers = [Sg_idle], sc_testers = [Ts_idle], sc_credits = 0, sc_round = [?a, ?b], sc_rounds = [], sc_results = []\<rparr>"
    using sync_reach.step [OF r sync_step.sig_done [where i = 0 and T = 2]] by (simp add: numeral_2_eq_2)
  have r: "sync_reach 2 \<lparr>sc_top = 2, sc_top2 = 2, sc_tail = 0, sc_statuses = ?g, sc_signallers = [Sg_idle], sc_testers = [Ts_top 2], sc_credits = 0, sc_round = [?a, ?b], sc_rounds = [], sc_results = []\<rparr>"
    using sync_reach.step [OF r sync_step.test_top [where i = 0 and T = 2]] by (simp add: numeral_2_eq_2)
  have r: "sync_reach 2 \<lparr>sc_top = 2, sc_top2 = 2, sc_tail = 0, sc_statuses = ?g, sc_signallers = [Sg_idle], sc_testers = [Ts_match 2 0], sc_credits = 0, sc_round = [?a, ?b], sc_rounds = [], sc_results = []\<rparr>"
    using sync_reach.step [OF r sync_step.test_tail [where i = 0 and T = 2]] by (simp add: numeral_2_eq_2)
  have r: "sync_reach 2 \<lparr>sc_top = 2, sc_top2 = 2, sc_tail = 2, sc_statuses = ?g, sc_signallers = [Sg_idle], sc_testers = [Ts_copy []], sc_credits = 0, sc_round = [?a, ?b], sc_rounds = [], sc_results = []\<rparr>"
    using sync_reach.step [OF r sync_step.test_win [where i = 0 and T = 2]] by (simp add: numeral_2_eq_2)
  have r: "sync_reach 2 \<lparr>sc_top = 2, sc_top2 = 2, sc_tail = 2, sc_statuses = ?g, sc_signallers = [Sg_idle], sc_testers = [Ts_copy [?a]], sc_credits = 0, sc_round = [?a, ?b], sc_rounds = [], sc_results = []\<rparr>"
    using sync_reach.step [OF r sync_step.test_copy [where i = 0 and T = 2]] by (simp add: numeral_2_eq_2)
  have r: "sync_reach 2 \<lparr>sc_top = 2, sc_top2 = 2, sc_tail = 2, sc_statuses = ?g, sc_signallers = [Sg_idle], sc_testers = [Ts_copy [?a, ?b]], sc_credits = 0, sc_round = [?a, ?b], sc_rounds = [], sc_results = []\<rparr>"
    using sync_reach.step [OF r sync_step.test_copy [where i = 0 and T = 2]] by (simp add: numeral_2_eq_2)
  have r: "sync_reach 2 \<lparr>sc_top = 2, sc_top2 = 2, sc_tail = 2, sc_statuses = ?g, sc_signallers = [Sg_idle], sc_testers = [Ts_idle], sc_credits = 2, sc_round = [], sc_rounds = [[?a, ?b]], sc_results = [[?a, ?b]]\<rparr>"
    using sync_reach.step [OF r sync_step.test_return [where i = 0 and T = 2]] by (simp add: numeral_2_eq_2)
  obtain s where s: "sync_reach 2 s" "sc_rounds s = [[?a, ?b]]" by (rule that [OF r]) simp
  from sync_rounds_delivered [of 2 s] s show ?thesis by auto
qed

section \<open>Counters and handlers\<close>

definition counter_signal :: "u64 \<Rightarrow> u64" where
  "counter_signal count = count + 1"

definition counter_set :: "u64 \<Rightarrow> u64 \<Rightarrow> u64" where
  "counter_set v count = v"

definition counter_get :: "u64 \<Rightarrow> int" where
  "counter_get count = sint count"

lemma counter_signals: "(counter_signal ^^ n) c = c + of_nat n"
  by (induction n) (simp_all add: counter_signal_def algebra_simps)

text \<open>A handler object calls its function; the state is the list of the statuses it was called with.\<close>

definition handler_signal :: "status_t \<Rightarrow> status_t list \<Rightarrow> status_t list" where
  "handler_signal status calls = calls @ [status]"

section \<open>Completion queues\<close>

text \<open>The queue holds pointers to statuses on the heap.  \<open>push\<close> and \<open>pop\<close> are the virtual calls of the LCT
  queue; \<open>cq_next\<close> is the next address that \<^verbatim>\<open>new\<close> returns.\<close>

record 'q cq_t =
  cq_queue :: 'q
  cq_heap :: "addr \<Rightarrow> status_t option"
  cq_next :: addr

datatype attr_cq_type_t = cq_array_atomic | cq_lcrq

definition cq_queue_type :: "attr_cq_type_t \<Rightarrow> LCT_queue_type_t" where
  "cq_queue_type t = (case t of cq_array_atomic \<Rightarrow> LCT_QUEUE_ARRAY_ATOMIC_FAA | cq_lcrq \<Rightarrow> LCT_QUEUE_LCRQ)"

definition cq_new :: "bool \<Rightarrow> (LCT_queue_type_t \<Rightarrow> 'x) \<Rightarrow> attr_cq_type_t \<Rightarrow> nat \<Rightarrow> 'x queue_base_t cq_t" where
  "cq_new on_amd ext t default_length =
     \<lparr>cq_queue = LCT_queue_alloc on_amd ext (cq_queue_type t) default_length, cq_heap = (\<lambda>_. None), cq_next = 1\<rparr>"

definition cq_signal :: "(addr \<Rightarrow> 'q \<Rightarrow> 'q res) \<Rightarrow> status_t \<Rightarrow> 'q cq_t \<Rightarrow> 'q cq_t res" where
  "cq_signal push status c =
     bindR (lci_assert (is_done (st_error status))) (\<lambda>_.
     let p = cq_next c; c = c\<lparr>cq_heap := (cq_heap c)(p \<mapsto> status), cq_next := p + 1\<rparr> in
     bindR (push p (cq_queue c)) (\<lambda>q. Inr (c\<lparr>cq_queue := q\<rparr>)))"

definition cq_pop :: "('q \<Rightarrow> (addr \<times> 'q) res) \<Rightarrow> 'q cq_t \<Rightarrow> (status_t \<times> 'q cq_t) res" where
  "cq_pop pop c =
     bindR (pop (cq_queue c)) (\<lambda>(p, q).
     let c = c\<lparr>cq_queue := q\<rparr> in
     if p = 0 then bindR (lci_assert (is_retry (st_error status_init))) (\<lambda>_. Inr (status_init, c))
     else case cq_heap c p of
            None \<Rightarrow> Inl Undefined_behaviour
          | Some status \<Rightarrow>
              bindR (lci_assert (is_done (st_error status))) (\<lambda>_. Inr (status, c\<lparr>cq_heap := (cq_heap c)(p := None)\<rparr>)))"

primrec cq_signals :: "(addr \<Rightarrow> 'q \<Rightarrow> 'q res) \<Rightarrow> status_t list \<Rightarrow> 'q cq_t \<Rightarrow> 'q cq_t res" where
  "cq_signals push [] c = Inr c"
| "cq_signals push (st # sts) c = bindR (cq_signal push st c) (cq_signals push sts)"

primrec cq_pops :: "('q \<Rightarrow> (addr \<times> 'q) res) \<Rightarrow> nat \<Rightarrow> 'q cq_t \<Rightarrow> (status_t list \<times> 'q cq_t) res" where
  "cq_pops pop 0 c = Inr ([], c)"
| "cq_pops pop (Suc n) c = bindR (cq_pop pop c) (\<lambda>(st, c). bindR (cq_pops pop n c) (\<lambda>(sts, c). Inr (st # sts, c)))"

text \<open>What the queue holds, and that every pointer in it is to a status that is done.\<close>

definition cq_view :: "('q \<Rightarrow> addr list) \<Rightarrow> 'q cq_t \<Rightarrow> status_t option list" where
  "cq_view content c = map (cq_heap c) (content (cq_queue c))"

definition cq_ok :: "('q \<Rightarrow> addr list) \<Rightarrow> 'q cq_t \<Rightarrow> bool" where
  "cq_ok content c \<longleftrightarrow> 0 < cq_next c \<and> distinct (content (cq_queue c))
     \<and> (\<forall>p\<in>set (content (cq_queue c)). 0 < p \<and> p < cq_next c \<and> (\<exists>st. cq_heap c p = Some st \<and> is_done (st_error st)))
     \<and> (\<forall>p. cq_heap c p \<noteq> None \<longrightarrow> p \<in> set (content (cq_queue c)))"

context lct_queue
begin

lemma cq_signal_view:
  assumes "ok (cq_queue c)" "cq_ok content c" "enat (length (content (cq_queue c))) < capacity (cq_queue c)" "is_done (st_error st)"
  shows "\<exists>c'. cq_signal push st c = Inr c' \<and> ok (cq_queue c') \<and> cq_ok content c' \<and> cq_view content c' = cq_view content c @ [Some st]
     \<and> length (content (cq_queue c')) = Suc (length (content (cq_queue c))) \<and> capacity (cq_queue c') = capacity (cq_queue c)"
proof -
  obtain q where q: "push (cq_next c) (cq_queue c) = Inr q" "ok q" "content q = content (cq_queue c) @ [cq_next c]"
      "capacity q = capacity (cq_queue c)"
    using push_law [OF assms(1,3)] by blast
  let ?c = "c\<lparr>cq_heap := (cq_heap c)(cq_next c \<mapsto> st), cq_next := cq_next c + 1, cq_queue := q\<rparr>"
  have new: "cq_next c \<notin> set (content (cq_queue c))" using assms(2) by (auto simp: cq_ok_def)
  then have "cq_view content ?c = cq_view content c @ [Some st]" using q(3) by (auto simp: cq_view_def)
  moreover have "cq_ok content ?c" using assms(2,4) q(3) new by (auto simp: cq_ok_def less_Suc_eq)
  ultimately show ?thesis using q assms(4) by (simp add: cq_signal_def Let_def)
qed

lemma cq_pop_view:
  assumes "ok (cq_queue c)" "cq_ok content c"
  shows "cq_view content c = [] \<Longrightarrow> cq_pop pop c = Inr (status_init, c)"
    "cq_view content c = v # vs \<Longrightarrow> \<exists>c' st. v = Some st \<and> cq_pop pop c = Inr (st, c') \<and> ok (cq_queue c') \<and> cq_ok content c' \<and> cq_view content c' = vs"
proof -
  show "cq_pop pop c = Inr (status_init, c)" if "cq_view content c = []"
    using pop_empty_law [OF assms(1)] that by (simp add: cq_pop_def cq_view_def status_init_def category_iff bind_assert)
  show "\<exists>c' st. v = Some st \<and> cq_pop pop c = Inr (st, c') \<and> ok (cq_queue c') \<and> cq_ok content c' \<and> cq_view content c' = vs"
    if h: "cq_view content c = v # vs"
  proof -
    obtain p ps where p: "content (cq_queue c) = p # ps" "v = cq_heap c p" "vs = map (cq_heap c) ps"
      using h by (auto simp: cq_view_def)
    obtain q where q: "pop (cq_queue c) = Inr (p, q)" "ok q" "content q = ps" using pop_law [OF assms(1) p(1)] by blast
    obtain st where st: "cq_heap c p = Some st" "is_done (st_error st)" "0 < p" "p \<notin> set ps" using assms(2) p(1) by (auto simp: cq_ok_def)
    let ?c = "c\<lparr>cq_queue := q, cq_heap := (cq_heap c)(p := None)\<rparr>"
    have "cq_pop pop c = Inr (st, ?c)" using q st by (simp add: cq_pop_def Let_def)
    moreover have "cq_ok content ?c" using assms(2) p(1) q(3) st(4) by (auto simp: cq_ok_def)
    moreover have "cq_view content ?c = vs" using p(3) q(3) st(4) by (auto simp: cq_view_def)
    ultimately show ?thesis using p(2) q(2) st(1) by auto
  qed
qed

lemma cq_signals_view:
  "ok (cq_queue c) \<Longrightarrow> cq_ok content c \<Longrightarrow> enat (length (content (cq_queue c)) + length sts) \<le> capacity (cq_queue c) \<Longrightarrow>
    \<forall>st\<in>set sts. is_done (st_error st) \<Longrightarrow>
    \<exists>c'. cq_signals push sts c = Inr c' \<and> ok (cq_queue c') \<and> cq_ok content c' \<and> cq_view content c' = cq_view content c @ map Some sts"
proof (induction sts arbitrary: c)
  case (Cons st sts)
  have "enat (length (content (cq_queue c))) < capacity (cq_queue c)" using Cons.prems(3) by (cases "capacity (cq_queue c)") auto
  then obtain c1 where c1: "cq_signal push st c = Inr c1" "ok (cq_queue c1)" "cq_ok content c1" "cq_view content c1 = cq_view content c @ [Some st]"
      "length (content (cq_queue c1)) = Suc (length (content (cq_queue c)))" "capacity (cq_queue c1) = capacity (cq_queue c)"
    using cq_signal_view [of c st] Cons.prems by auto
  with Cons.IH [of c1] Cons.prems show ?case by simp
qed simp

lemma cq_pops_view:
  "ok (cq_queue c) \<Longrightarrow> cq_ok content c \<Longrightarrow> cq_view content c = map Some sts \<Longrightarrow>
    \<exists>c'. cq_pops pop (length sts) c = Inr (sts, c') \<and> ok (cq_queue c') \<and> cq_ok content c' \<and> cq_view content c' = []"
proof (induction sts arbitrary: c)
  case (Cons st sts)
  obtain c1 where "cq_pop pop c = Inr (st, c1)" "ok (cq_queue c1)" "cq_ok content c1" "cq_view content c1 = map Some sts"
    using cq_pop_view(2) [OF Cons.prems(1,2), of "Some st" "map Some sts"] Cons.prems(3) by auto
  with Cons.IH [of c1] show ?case by auto
qed simp

end

text \<open>C39.  A completion queue returns the statuses it was signalled with, in order, and then reports retry; no
  assertion fails, no status is read after it was freed and none is leaked.  This holds for every LCT queue
  behind it that keeps the contract of a queue, as long as the signals fit its capacity.\<close>

theorem cq_in_order:
  assumes "lct_queue push pop content capacity ok" "ok q" "content q = []" "enat (length sts) \<le> capacity q"
    and "\<forall>st\<in>set sts. is_done (st_error st)"
  defines "c \<equiv> \<lparr>cq_queue = q, cq_heap = (\<lambda>_. None), cq_next = 1\<rparr>"
  shows "\<exists>c' c''. cq_signals push sts c = Inr c' \<and> cq_pops pop (length sts) c' = Inr (sts, c'')
     \<and> cq_pop pop c'' = Inr (status_init, c'') \<and> cq_heap c'' = (\<lambda>_. None)"
proof -
  have "cq_ok content c" "cq_view content c = []" "ok (cq_queue c)" using assms(2,3) by (simp_all add: c_def cq_ok_def cq_view_def)
  then obtain c' where c': "cq_signals push sts c = Inr c'" "ok (cq_queue c')" "cq_ok content c'" "cq_view content c' = map Some sts"
    using lct_queue.cq_signals_view [OF assms(1), of c sts] assms(3-5) by (auto simp: c_def)
  obtain c'' where c'': "cq_pops pop (length sts) c' = Inr (sts, c'')" "ok (cq_queue c'')" "cq_ok content c''" "cq_view content c'' = []"
    using lct_queue.cq_pops_view [OF assms(1) c'(2-4)] by blast
  then have "cq_heap c'' = (\<lambda>_. None)" by (auto simp: cq_ok_def cq_view_def fun_eq_iff)
  with c'(1) c''(1) lct_queue.cq_pop_view(1) [OF assms(1) c''(2-4)] show ?thesis by blast
qed

theorem cq_in_order_witness:
  "let st = set_done status_init; c = \<lparr>cq_queue = faa_new 2, cq_heap = (\<lambda>_. None), cq_next = 1\<rparr> in
   \<exists>c' c''. cq_signals (faa_push False) [st, st] c = Inr c' \<and> cq_pops (faa_pop False) 2 c' = Inr ([st, st], c'')
     \<and> cq_pop (faa_pop False) c'' = Inr (status_init, c'')"
  using cq_in_order [OF faaq.lct_queue_axioms faa_new_ok(1) faa_new_ok(2), of 2 "[set_done status_init, set_done status_init]" False]
  by (simp add: faa_new_def set_done_def category_iff numeral_2_eq_2 Let_def del: cq_signals.simps cq_pops.simps) blast

section \<open>Allocating and signalling a completion object\<close>

datatype attr_comp_type_t = ct_sync | ct_counter | ct_cq | ct_handler | ct_graph | ct_custom

record comp_attr_t =
  ca_comp_type :: attr_comp_type_t
  ca_sync_threshold :: nat
  ca_cq_type :: attr_cq_type_t
  ca_zero_copy_am :: bool
  ca_user_context :: addr

text \<open>What \<^verbatim>\<open>memset\<close> with 0 makes of the attributes.\<close>

definition comp_attr_zero :: comp_attr_t where
  "comp_attr_zero = \<lparr>ca_comp_type = ct_sync, ca_sync_threshold = 0, ca_cq_type = cq_array_atomic, ca_zero_copy_am = False, ca_user_context = 0\<rparr>"

datatype 'x comp_impl_t =
    Comp_sync sync_t
  | Comp_counter u64
  | Comp_cq "'x queue_base_t cq_t"
  | Comp_handler "status_t list"
  | Comp_graph graph_run

type_synonym 'x comp_obj = "comp_attr_t \<times> 'x comp_impl_t"

definition alloc_sync :: "nat \<Rightarrow> bool \<Rightarrow> addr \<Rightarrow> 'x comp_obj" where
  "alloc_sync threshold zero_copy_am user_context =
     (comp_attr_zero\<lparr>ca_zero_copy_am := zero_copy_am, ca_user_context := user_context, ca_comp_type := ct_sync, ca_sync_threshold := threshold\<rparr>,
      Comp_sync (sync_new threshold))"

definition alloc_counter :: "addr \<Rightarrow> 'x comp_obj" where
  "alloc_counter user_context = (comp_attr_zero\<lparr>ca_user_context := user_context, ca_comp_type := ct_counter\<rparr>, Comp_counter 0)"

definition alloc_cq :: "bool \<Rightarrow> (LCT_queue_type_t \<Rightarrow> 'x) \<Rightarrow> nat \<Rightarrow> bool \<Rightarrow> attr_cq_type_t \<Rightarrow> addr \<Rightarrow> 'x comp_obj" where
  "alloc_cq on_amd ext default_length zero_copy_am cq_type user_context =
     (comp_attr_zero\<lparr>ca_zero_copy_am := zero_copy_am, ca_cq_type := cq_type, ca_user_context := user_context, ca_comp_type := ct_cq\<rparr>,
      Comp_cq (cq_new on_amd ext cq_type default_length))"

definition alloc_handler :: "bool \<Rightarrow> addr \<Rightarrow> 'x comp_obj" where
  "alloc_handler zero_copy_am user_context =
     (comp_attr_zero\<lparr>ca_zero_copy_am := zero_copy_am, ca_user_context := user_context, ca_comp_type := ct_handler\<rparr>, Comp_handler [])"

text \<open>A graph that has been built but not started.\<close>

definition graph_idle :: "graph_t \<Rightarrow> graph_run" where
  "graph_idle g = \<lparr>gr_graph = g, gr_deleted = False, gr_active = [], gr_posted = [], gr_log = [], gr_freed = [], gr_signals = []\<rparr>"

definition alloc_graph :: "int \<Rightarrow> addr \<Rightarrow> addr \<Rightarrow> 'x comp_obj" where
  "alloc_graph junk cmp user_context =
     (comp_attr_zero\<lparr>ca_user_context := user_context, ca_comp_type := ct_graph\<rparr>, Comp_graph (graph_idle (graph_new junk cmp user_context)))"

text \<open>The virtual call.  The status that a graph is signalled with carries the node in its user context.\<close>

definition comp_impl_signal :: "bool \<Rightarrow> (addr \<Rightarrow> 'x \<Rightarrow> 'x res) \<Rightarrow> status_t \<Rightarrow> 'x comp_impl_t \<Rightarrow> 'x comp_impl_t res" where
  "comp_impl_signal debug ext_push status obj =
     (case obj of
        Comp_sync s \<Rightarrow> bindR (sync_signal status s) (\<lambda>s. Inr (Comp_sync s))
      | Comp_counter n \<Rightarrow> Inr (Comp_counter (counter_signal n))
      | Comp_cq c \<Rightarrow> bindR (cq_signal (LCT_queue_push debug ext_push) status c) (\<lambda>c. Inr (Comp_cq c))
      | Comp_handler calls \<Rightarrow> Inr (Comp_handler (handler_signal status calls))
      | Comp_graph r \<Rightarrow> bindR (graph_signal (st_user_context status) status r) (\<lambda>r. Inr (Comp_graph r)))"

end
