(* ===== verification/LCI_Shm_Ring.thy ===== *)
theory LCI_Shm_Ring
  imports LCI_Prelude
begin

text \<open>
  The shared-memory ring of \<^verbatim>\<open>src/shm/ring.cpp\<close>: a fixed number of slots in memory that several processes
  map, filled by any number of producers and emptied by any number of consumers without locks.  Each
  operation is given twice.  As a function it is what one thread does when no other thread interferes;
  as a machine whose every step is one access to shared memory it runs in every interleaving with the
  others.  A function is a run of its machine, and the machines are shown to deliver each
  message exactly once, whole and in the order in which the slots were reserved.

  Positions and sequence words are 64-bit words.  \<^verbatim>\<open>compare_exchange_weak\<close> may fail although the values are equal;
  which of the attempts do so is an argument.  The memory model is sequential consistency.
\<close>

section \<open>Geometry\<close>

definition is_power_of_two :: "u64 \<Rightarrow> bool" where
  "is_power_of_two v \<longleftrightarrow> v \<noteq> 0 \<and> v AND (v - 1) = 0"

text \<open>The header has an eight-byte sequence, two four-byte fields and a four-byte rank; its size is a
  multiple of its alignment.  A cache line has 64 bytes, the default of the build.\<close>

definition sizeof_slot_header :: u64 where "sizeof_slot_header = 24"

definition cache_line :: u64 where "cache_line = 64"

definition control_size :: u64 where "control_size = 2 * cache_line"

definition maximum_position :: u64 where "maximum_position = push_bit 63 1 - 1"

definition required_size :: "u64 \<Rightarrow> u64 \<Rightarrow> u64" where
  "required_size slot_count slot_size =
     (if \<not> is_power_of_two slot_count \<or> slot_count > maximum_position
       \<or> slot_size < sizeof_slot_header \<or> slot_size mod cache_line \<noteq> 0
       \<or> slot_size - sizeof_slot_header > 0xFFFFFFFF
       \<or> slot_count > (0xFFFFFFFFFFFFFFFF - control_size) div slot_size
      then 0 else control_size + slot_count * slot_size)"

definition payload_capacity :: "u64 \<Rightarrow> u64" where
  "payload_capacity slot_size = (if slot_size \<ge> sizeof_slot_header then slot_size - sizeof_slot_header else 0)"

datatype slot_state_t = slot_reusable | slot_published

definition encode_sequence :: "u64 \<Rightarrow> slot_state_t \<Rightarrow> u64" where
  "encode_sequence position state = push_bit 1 position OR (case state of slot_reusable \<Rightarrow> 0 | slot_published \<Rightarrow> 1)"

section \<open>The region and the view\<close>

text \<open>A slot is its header and the bytes that follow it.\<close>

record slot_header_t =
  sl_sequence :: u64
  sl_payload_size :: u32
  sl_imm_data :: net_imm_data_t
  sl_source :: int
  sl_payload :: "u8 list"

record region_t =
  rg_producer :: u64
  rg_consumer :: u64
  rg_slots :: "slot_header_t list"

record ring_t =
  rt_slot_count :: u64
  rt_slot_size :: u64
  rt_producer_attempts :: nat
  rt_consumer_attempts :: nat

text \<open>\<^verbatim>\<open>raw\<close> is what the memory holds behind each header; initialisation does not touch it.\<close>

definition initialize_at :: "(nat \<Rightarrow> u8 list) \<Rightarrow> u64 \<Rightarrow> u64 \<Rightarrow> u64 \<Rightarrow> u64 \<Rightarrow> region_t res" where
  "initialize_at raw region slot_count slot_size initial_position =
     (let required = required_size slot_count slot_size in
      bindR (lci_assert (region \<noteq> 0)) (\<lambda>_.
      bindR (lci_assert (required \<noteq> 0)) (\<lambda>_.
      bindR (lci_assert (initial_position \<le> maximum_position)) (\<lambda>_.
      bindR (lci_assert (initial_position \<le> maximum_position - (slot_count - 1))) (\<lambda>_.
      bindR (lci_assert (region mod cache_line = 0)) (\<lambda>_.
      let slot_mask = slot_count - 1; initial_slot = initial_position AND slot_mask in
      Inr \<lparr>rg_producer = initial_position, rg_consumer = initial_position,
           rg_slots = map (\<lambda>i. \<lparr>sl_sequence = encode_sequence (initial_position + ((of_nat i - initial_slot) AND slot_mask)) slot_reusable,
                                sl_payload_size = 0, sl_imm_data = 0, sl_source = -1, sl_payload = raw i\<rparr>)
                        [0..<unat slot_count]\<rparr>))))))"

definition initialize :: "(nat \<Rightarrow> u8 list) \<Rightarrow> u64 \<Rightarrow> u64 \<Rightarrow> u64 \<Rightarrow> region_t res" where
  "initialize raw region slot_count slot_size = initialize_at raw region slot_count slot_size 0"

definition ring_new :: "u64 \<Rightarrow> u64 \<Rightarrow> u64 \<Rightarrow> nat \<Rightarrow> nat \<Rightarrow> ring_t res" where
  "ring_new region slot_count slot_size producer_attempts consumer_attempts =
     (let required = required_size slot_count slot_size in
      bindR (lci_assert (region \<noteq> 0)) (\<lambda>_.
      bindR (lci_assert (required \<noteq> 0)) (\<lambda>_.
      bindR (lci_assert (producer_attempts \<noteq> 0)) (\<lambda>_.
      bindR (lci_assert (consumer_attempts \<noteq> 0)) (\<lambda>_.
      bindR (lci_assert (region mod cache_line = 0)) (\<lambda>_.
      Inr \<lparr>rt_slot_count = slot_count, rt_slot_size = slot_size,
           rt_producer_attempts = producer_attempts, rt_consumer_attempts = consumer_attempts\<rparr>))))))"

definition slot_at :: "ring_t \<Rightarrow> u64 \<Rightarrow> nat" where
  "slot_at r position = unat (position AND (rt_slot_count r - 1))"

definition seq_at :: "ring_t \<Rightarrow> region_t \<Rightarrow> u64 \<Rightarrow> u64" where
  "seq_at r g position = sl_sequence (rg_slots g ! slot_at r position)"

definition max_payload_size :: "ring_t \<Rightarrow> u64" where
  "max_payload_size r = payload_capacity (rt_slot_size r)"

definition is_consistent_empty :: "ring_t \<Rightarrow> region_t \<Rightarrow> bool" where
  "is_consistent_empty r g \<longleftrightarrow> \<not> (rg_producer g \<noteq> 0 \<or> rg_consumer g \<noteq> 0)
     \<and> (\<forall>i\<in>set [0..<unat (rt_slot_count r)]. seq_at r g (of_nat i) = encode_sequence (of_nat i) slot_reusable)"

definition recv_available_approx :: "ring_t \<Rightarrow> region_t \<Rightarrow> u64" where
  "recv_available_approx r g = min (rg_producer g - rg_consumer g) (rt_slot_count r)"

definition previous_generation :: "ring_t \<Rightarrow> u64 \<Rightarrow> u64" where
  "previous_generation r position = position - rt_slot_count r"

definition is_previous_generation :: "ring_t \<Rightarrow> u64 \<Rightarrow> u64 \<Rightarrow> bool" where
  "is_previous_generation r seq position \<longleftrightarrow>
     (if position < rt_slot_count r then False
      else let previous = previous_generation r position in
        seq = encode_sequence previous slot_reusable \<or> seq = encode_sequence previous slot_published)"

text \<open>What a sender hands over.  The bytes stand for the buffer and its size.\<close>

record msg_t =
  mg_source :: int
  mg_bytes :: "u8 list"
  mg_imm :: net_imm_data_t

record recv_slot_t =
  rv_source :: int
  rv_imm :: net_imm_data_t
  rv_payload :: "nat option"
  rv_size :: u64
  rv_shared_slot :: "nat option"
  rv_position :: u64

definition recv_slot_empty :: recv_slot_t where
  "recv_slot_empty = \<lparr>rv_source = -1, rv_imm = 0, rv_payload = None, rv_size = 0, rv_shared_slot = None, rv_position = 0\<rparr>"

section \<open>The operations, undisturbed\<close>

text \<open>\<^verbatim>\<open>w k\<close> says that the compare-and-exchange with \<^verbatim>\<open>k\<close> attempts left after it does not fail without reason.\<close>

primrec reserve_impl :: "ring_t \<Rightarrow> (nat \<Rightarrow> bool) \<Rightarrow> region_t \<Rightarrow> nat \<Rightarrow> errorcode_t \<times> u64 option \<times> region_t" where
  "reserve_impl r w g 0 = (ec_retry_lock, None, g)"
| "reserve_impl r w g (Suc k) =
     (let position = rg_producer g in
      if position \<ge> maximum_position then (ec_fatal, None, g)
      else let seq = seq_at r g position in
        if seq \<noteq> encode_sequence position slot_reusable then
          if rg_producer g \<noteq> position then reserve_impl r w g k
          else if is_previous_generation r seq position then (ec_retry_nomem, None, g)
          else (ec_fatal, None, g)
        else if w k \<and> rg_producer g = position then (ec_done, Some position, g\<lparr>rg_producer := position + 1\<rparr>)
        else reserve_impl r w g k)"

definition reserve :: "ring_t \<Rightarrow> (nat \<Rightarrow> bool) \<Rightarrow> region_t \<Rightarrow> errorcode_t \<times> u64 option \<times> region_t" where
  "reserve r w g = reserve_impl r w g (rt_producer_attempts r)"

text \<open>The stores of \<^verbatim>\<open>publish\<close>, in order; the copy of the payload is skipped for an empty message.\<close>

definition fill :: "nat \<Rightarrow> msg_t \<Rightarrow> slot_header_t \<Rightarrow> slot_header_t" where
  "fill j m sl = (if j = 0 then sl\<lparr>sl_payload_size := of_nat (length (mg_bytes m))\<rparr>
     else if j = 1 then sl\<lparr>sl_imm_data := mg_imm m\<rparr>
     else if j = 2 then sl\<lparr>sl_source := mg_source m\<rparr>
     else if mg_bytes m \<noteq> [] then sl\<lparr>sl_payload := mg_bytes m @ drop (length (mg_bytes m)) (sl_payload sl)\<rparr>
     else sl)"

definition upd_slot :: "ring_t \<Rightarrow> u64 \<Rightarrow> (slot_header_t \<Rightarrow> slot_header_t) \<Rightarrow> region_t \<Rightarrow> region_t" where
  "upd_slot r position f g = g\<lparr>rg_slots := (rg_slots g)[slot_at r position := f (rg_slots g ! slot_at r position)]\<rparr>"

definition publish :: "ring_t \<Rightarrow> u64 \<Rightarrow> msg_t \<Rightarrow> region_t \<Rightarrow> (errorcode_t \<times> region_t) res" where
  "publish r position m g =
     (if seq_at r g position \<noteq> encode_sequence position slot_reusable
      then Inl (Thrown ''SHM ring reservation state is corrupted'')
      else Inr (ec_done, upd_slot r position (\<lambda>sl. (fill 3 m (fill 2 m (fill 1 m (fill 0 m sl))))
             \<lparr>sl_sequence := encode_sequence position slot_published\<rparr>) g))"

definition post_refused :: "ring_t \<Rightarrow> bool \<Rightarrow> msg_t \<Rightarrow> bool" where
  "post_refused r null m \<longleftrightarrow> mg_source m < 0 \<or> length (mg_bytes m) > unat (max_payload_size r)
     \<or> mg_bytes m \<noteq> [] \<and> null"

definition ring_post_send :: "ring_t \<Rightarrow> (nat \<Rightarrow> bool) \<Rightarrow> bool \<Rightarrow> msg_t \<Rightarrow> region_t \<Rightarrow> (errorcode_t \<times> region_t) res" where
  "ring_post_send r w null m g =
     (if post_refused r null m then Inr (ec_fatal, g)
      else case reserve r w g of (status, reservation, g) \<Rightarrow>
        case reservation of
          None \<Rightarrow> Inr (status, g)
        | Some position \<Rightarrow> publish r position m g)"

definition view_of :: "ring_t \<Rightarrow> region_t \<Rightarrow> u64 \<Rightarrow> recv_slot_t" where
  "view_of r g position = (let i = slot_at r position; sl = rg_slots g ! i in
     \<lparr>rv_source = sl_source sl, rv_imm = sl_imm_data sl, rv_payload = Some i,
      rv_size = ucast (sl_payload_size sl), rv_shared_slot = Some i, rv_position = position\<rparr>)"

definition metadata_corrupted :: "ring_t \<Rightarrow> slot_header_t \<Rightarrow> bool" where
  "metadata_corrupted r sl \<longleftrightarrow> ucast (sl_payload_size sl) > max_payload_size r \<or> sl_source sl < 0"

primrec poll_attempts :: "ring_t \<Rightarrow> (nat \<Rightarrow> bool) \<Rightarrow> recv_slot_t \<Rightarrow> region_t \<Rightarrow> nat \<Rightarrow> (bool \<times> recv_slot_t \<times> region_t) res" where
  "poll_attempts r w out g 0 = Inr (False, out, g)"
| "poll_attempts r w out g (Suc k) =
     (let position = rg_consumer g; seq = seq_at r g position in
      if seq \<noteq> encode_sequence position slot_published then
        if rg_consumer g \<noteq> position then poll_attempts r w out g k
        else if seq = encode_sequence position slot_reusable
          \<or> position \<ge> rt_slot_count r \<and> seq = encode_sequence (previous_generation r position) slot_published
        then Inr (False, out, g)
        else Inl (Thrown ''SHM ring slot sequence is inconsistent'')
      else if w k \<and> rg_consumer g = position then
        (let g = g\<lparr>rg_consumer := position + 1\<rparr> in
         if metadata_corrupted r (rg_slots g ! slot_at r position)
         then Inl (Thrown ''SHM ring slot metadata is corrupted'')
         else Inr (True, view_of r g position, g))
      else poll_attempts r w out g k)"

definition ring_poll :: "ring_t \<Rightarrow> (nat \<Rightarrow> bool) \<Rightarrow> recv_slot_t \<Rightarrow> region_t \<Rightarrow> (bool \<times> recv_slot_t \<times> region_t) res" where
  "ring_poll r w out g = (if rv_shared_slot out \<noteq> None then Inr (False, out, g)
     else poll_attempts r w out g (rt_consumer_attempts r))"

text \<open>A slot whose next position could not be encoded is not made reusable.\<close>

definition give_back :: "ring_t \<Rightarrow> u64 \<Rightarrow> region_t \<Rightarrow> region_t" where
  "give_back r position g =
     (if position \<le> maximum_position - rt_slot_count r
      then upd_slot r position (\<lambda>sl. sl\<lparr>sl_sequence := encode_sequence (position + rt_slot_count r) slot_reusable\<rparr>) g
      else g)"

definition ring_release :: "ring_t \<Rightarrow> recv_slot_t \<Rightarrow> region_t \<Rightarrow> (bool \<times> recv_slot_t \<times> region_t) res" where
  "ring_release r view g =
     (if rv_shared_slot view = None \<or> rv_shared_slot view \<noteq> Some (slot_at r (rv_position view)) then Inr (False, view, g)
      else if seq_at r g (rv_position view) \<noteq> encode_sequence (rv_position view) slot_published
      then Inl (Thrown ''SHM ring claimed slot state is corrupted'')
      else Inr (True, recv_slot_empty, give_back r (rv_position view) g))"

section \<open>The operations as machines\<close>

text \<open>
  A producer in \<^verbatim>\<open>post_send\<close>, by the access to shared memory it does next: the load of the producer position, the
  load of the slot's sequence, the second load of the position after a mismatch, the compare-and-exchange,
  the check of \<^verbatim>\<open>publish\<close> and its stores, of which the last is the one of the sequence.  The first argument
  counts the attempts that are left.
\<close>

datatype shm_producer =
    Sp_idle
  | Sp_load nat msg_t
  | Sp_seq nat msg_t u64
  | Sp_reload nat msg_t u64 u64
  | Sp_cas nat msg_t u64
  | Sp_check msg_t u64
  | Sp_write nat msg_t u64
  | Sp_ret errorcode_t

definition sp_enter :: "ring_t \<Rightarrow> bool \<Rightarrow> msg_t \<Rightarrow> shm_producer" where
  "sp_enter r null m = (if post_refused r null m then Sp_ret ec_fatal else Sp_load (rt_producer_attempts r) m)"

fun sp_step :: "ring_t \<Rightarrow> (nat \<Rightarrow> bool) \<Rightarrow> region_t \<Rightarrow> shm_producer \<Rightarrow> (region_t \<times> shm_producer) res" where
  "sp_step r w g (Sp_load 0 m) = Inr (g, Sp_ret ec_retry_lock)"
| "sp_step r w g (Sp_load (Suc k) m) =
     Inr (g, if rg_producer g \<ge> maximum_position then Sp_ret ec_fatal else Sp_seq k m (rg_producer g))"
| "sp_step r w g (Sp_seq k m position) =
     Inr (g, if seq_at r g position \<noteq> encode_sequence position slot_reusable
             then Sp_reload k m position (seq_at r g position) else Sp_cas k m position)"
| "sp_step r w g (Sp_reload k m position seq) =
     Inr (g, if rg_producer g \<noteq> position then Sp_load k m
             else if is_previous_generation r seq position then Sp_ret ec_retry_nomem else Sp_ret ec_fatal)"
| "sp_step r w g (Sp_cas k m position) =
     Inr (if w k \<and> rg_producer g = position then (g\<lparr>rg_producer := position + 1\<rparr>, Sp_check m position) else (g, Sp_load k m))"
| "sp_step r w g (Sp_check m position) =
     (if seq_at r g position \<noteq> encode_sequence position slot_reusable
      then Inl (Thrown ''SHM ring reservation state is corrupted'') else Inr (g, Sp_write 0 m position))"
| "sp_step r w g (Sp_write j m position) =
     Inr (if j < 4 then (upd_slot r position (fill j m) g, Sp_write (Suc j) m position)
          else (upd_slot r position (\<lambda>sl. sl\<lparr>sl_sequence := encode_sequence position slot_published\<rparr>) g, Sp_ret ec_done))"
| "sp_step r w g p = Inr (g, p)"

text \<open>A consumer in \<^verbatim>\<open>poll\<close> and in \<^verbatim>\<open>release\<close>.  Between the two it owns a view.\<close>

datatype shm_consumer =
    Sc_idle
  | Sc_load nat
  | Sc_seq nat u64
  | Sc_reload nat u64 u64
  | Sc_cas nat u64
  | Sc_read u64
  | Sc_view recv_slot_t
  | Sc_check recv_slot_t
  | Sc_store recv_slot_t

fun sc_step :: "ring_t \<Rightarrow> (nat \<Rightarrow> bool) \<Rightarrow> region_t \<Rightarrow> shm_consumer \<Rightarrow> (region_t \<times> shm_consumer) res" where
  "sc_step r w g (Sc_load 0) = Inr (g, Sc_idle)"
| "sc_step r w g (Sc_load (Suc k)) = Inr (g, Sc_seq k (rg_consumer g))"
| "sc_step r w g (Sc_seq k position) =
     Inr (g, if seq_at r g position \<noteq> encode_sequence position slot_published
             then Sc_reload k position (seq_at r g position) else Sc_cas k position)"
| "sc_step r w g (Sc_reload k position seq) =
     (if rg_consumer g \<noteq> position then Inr (g, Sc_load k)
      else if seq = encode_sequence position slot_reusable
        \<or> position \<ge> rt_slot_count r \<and> seq = encode_sequence (previous_generation r position) slot_published
      then Inr (g, Sc_idle)
      else Inl (Thrown ''SHM ring slot sequence is inconsistent''))"
| "sc_step r w g (Sc_cas k position) =
     Inr (if w k \<and> rg_consumer g = position then (g\<lparr>rg_consumer := position + 1\<rparr>, Sc_read position) else (g, Sc_load k))"
| "sc_step r w g (Sc_read position) =
     (if metadata_corrupted r (rg_slots g ! slot_at r position)
      then Inl (Thrown ''SHM ring slot metadata is corrupted'') else Inr (g, Sc_view (view_of r g position)))"
| "sc_step r w g (Sc_check view) =
     (if rv_shared_slot view = None \<or> rv_shared_slot view \<noteq> Some (slot_at r (rv_position view)) then Inr (g, Sc_idle)
      else if seq_at r g (rv_position view) \<noteq> encode_sequence (rv_position view) slot_published
      then Inl (Thrown ''SHM ring claimed slot state is corrupted'')
      else Inr (g, Sc_store view))"
| "sc_step r w g (Sc_store view) = Inr (give_back r (rv_position view) g, Sc_idle)"
| "sc_step r w g c = Inr (g, c)"

text \<open>A function is a run of its machine with nobody else in between.\<close>

primrec alone :: "(region_t \<Rightarrow> 'p \<Rightarrow> (region_t \<times> 'p) res) \<Rightarrow> nat \<Rightarrow> region_t \<Rightarrow> 'p \<Rightarrow> (region_t \<times> 'p) res" where
  "alone f 0 g p = Inr (g, p)"
| "alone f (Suc n) g p = bindR (f g p) (\<lambda>(g, p). alone f n g p)"

lemma alone_add: "alone f (a + b) g p = bindR (alone f a g p) (\<lambda>(g, p). alone f b g p)"
  by (induction a arbitrary: g p) (auto simp: bindR_def split: sum.splits)

lemma alone_then: "alone f a g p = Inr (g', p') \<Longrightarrow> alone f b g' p' = x \<Longrightarrow> alone f (a + b) g p = x"
  by (simp add: alone_add)

lemma reserve_runs:
  "reserve_impl r w g k = (e, None, g') \<Longrightarrow> g' = g \<and> (\<exists>n. alone (sp_step r w) n g (Sp_load k m) = Inr (g, Sp_ret e))"
  "reserve_impl r w g k = (e, Some p, g') \<Longrightarrow> e = ec_done \<and> p = rg_producer g \<and> g' = g\<lparr>rg_producer := p + 1\<rparr>
     \<and> (\<exists>n. alone (sp_step r w) n g (Sp_load k m) = Inr (g', Sp_check m p))"
proof (induction k)
  case 0
  case 1 then show ?case by (auto intro: exI [of _ 1])
next
  case 0
  case 2 then show ?case by simp
next
  case (Suc k)
  let ?q = "rg_producer g" let ?s = "seq_at r g ?q"
  have one: "alone (sp_step r w) 1 g (Sp_load (Suc k) m) = Inr (g, Sp_seq k m ?q)" if "\<not> maximum_position \<le> ?q"
    using that by simp
  have three: "alone (sp_step r w) 3 g (Sp_load (Suc k) m) = Inr (if w k then (g\<lparr>rg_producer := ?q + 1\<rparr>, Sp_check m ?q) else (g, Sp_load k m))"
    if "\<not> maximum_position \<le> ?q" "?s = encode_sequence ?q slot_reusable"
    using that by (simp add: numeral_3_eq_3)
  {
    case 1
    show ?case
    proof (cases "maximum_position \<le> ?q \<or> ?s \<noteq> encode_sequence ?q slot_reusable")
      case True
      have "alone (sp_step r w) (if maximum_position \<le> ?q then 1 else 3) g (Sp_load (Suc k) m) = Inr (g, Sp_ret e)"
        using True 1 by (auto simp: Let_def numeral_3_eq_3 split: if_splits)
      moreover have "g' = g" using True 1 by (auto simp: Let_def split: if_splits)
      ultimately show ?thesis by blast
    next
      case False
      with 1 have "\<not> w k" "reserve_impl r w g k = (e, None, g')" by (auto simp: Let_def split: if_splits)
      with Suc.IH(1) three False obtain n where n: "g' = g" "alone (sp_step r w) n g (Sp_load k m) = Inr (g, Sp_ret e)"
        "alone (sp_step r w) 3 g (Sp_load (Suc k) m) = Inr (g, Sp_load k m)" by auto
      from alone_then [OF n(3,2)] n(1) show ?thesis by blast
    qed
  next
    case 2
    then have ok: "\<not> maximum_position \<le> ?q" "?s = encode_sequence ?q slot_reusable" by (auto simp: Let_def split: if_splits)
    show ?case
    proof (cases "w k")
      case True
      with three [OF ok] 2 ok show ?thesis by (auto simp: Let_def)
    next
      case False
      with 2 ok have "reserve_impl r w g k = (e, Some p, g')" by (simp add: Let_def)
      with Suc.IH(2) obtain n where n: "e = ec_done \<and> p = ?q \<and> g' = g\<lparr>rg_producer := p + 1\<rparr>"
        "alone (sp_step r w) n g (Sp_load k m) = Inr (g', Sp_check m p)" by blast
      have "alone (sp_step r w) 3 g (Sp_load (Suc k) m) = Inr (g, Sp_load k m)" using three [OF ok] False by simp
      from alone_then [OF this n(2)] n(1) show ?thesis by blast
    qed
  }
qed

lemma upd_slot_upd_slot [simp]: "upd_slot r p f2 (upd_slot r p f1 g) = upd_slot r p (\<lambda>sl. f2 (f1 sl)) g"
  by (cases "slot_at r p < length (rg_slots g)") (auto simp: upd_slot_def list_update_beyond)

lemma publish_runs:
  "alone (sp_step r w) 6 g (Sp_check m p)
     = (case publish r p m g of Inl e \<Rightarrow> Inl e | Inr (e, g') \<Rightarrow> Inr (g', Sp_ret e))"
proof -
  have four: "alone (sp_step r w) 5 g (Sp_write 0 m p) = Inr (upd_slot r p (\<lambda>sl. (fill 3 m (fill 2 m (fill 1 m (fill 0 m sl))))
             \<lparr>sl_sequence := encode_sequence p slot_published\<rparr>) g, Sp_ret ec_done)"
    by (simp add: eval_nat_numeral)
  have "alone (sp_step r w) (Suc 5) g (Sp_check m p)
     = (case publish r p m g of Inl e \<Rightarrow> Inl e | Inr (e, g') \<Rightarrow> Inr (g', Sp_ret e))"
    unfolding alone.simps(2) publish_def by (simp add: four)
  then show ?thesis by simp
qed

lemma post_send_runs:
  "\<exists>n. alone (sp_step r w) n g (sp_enter r null m)
     = (case ring_post_send r w null m g of Inl e \<Rightarrow> Inl e | Inr (e, g') \<Rightarrow> Inr (g', Sp_ret e))"
proof (cases "post_refused r null m")
  case True
  then show ?thesis by (intro exI [of _ 0]) (simp add: ring_post_send_def sp_enter_def)
next
  case False
  obtain e p g1 where res: "reserve_impl r w g (rt_producer_attempts r) = (e, p, g1)" by (metis prod_cases3)
  show ?thesis
  proof (cases p)
    case None
    from reserve_runs(1) [OF res [unfolded None], of m] False res None show ?thesis
      by (auto simp: ring_post_send_def sp_enter_def reserve_def)
  next
    case (Some q)
    from reserve_runs(2) [OF res [unfolded Some], of m] obtain n where
      "alone (sp_step r w) n g (Sp_load (rt_producer_attempts r) m) = Inr (g1, Sp_check m q)" by blast
    from alone_then [OF this publish_runs] False res Some show ?thesis
      by (auto simp: ring_post_send_def sp_enter_def reserve_def)
  qed
qed

lemma poll_runs:
  "\<exists>n. alone (sc_step r w) n g (Sc_load k)
     = (case poll_attempts r w out g k of Inl e \<Rightarrow> Inl e | Inr (b, v, g') \<Rightarrow> Inr (g', if b then Sc_view v else Sc_idle))"
proof (induction k)
  case 0
  then show ?case by (intro exI [of _ 1]) simp
next
  case (Suc k)
  let ?q = "rg_consumer g" let ?s = "seq_at r g ?q"
  show ?case
  proof (cases "?s = encode_sequence ?q slot_published \<and> \<not> w k")
    case True
    then have "alone (sc_step r w) 3 g (Sc_load (Suc k)) = Inr (g, Sc_load k)" by (simp add: numeral_3_eq_3)
    moreover obtain n where "alone (sc_step r w) n g (Sc_load k)
     = (case poll_attempts r w out g k of Inl e \<Rightarrow> Inl e | Inr (b, v, g') \<Rightarrow> Inr (g', if b then Sc_view v else Sc_idle))"
      using Suc.IH by blast
    moreover have "poll_attempts r w out g (Suc k) = poll_attempts r w out g k" using True by simp
    ultimately show ?thesis by (auto intro: alone_then)
  next
    case False
    then show ?thesis
      by (intro exI [of _ "if ?s = encode_sequence ?q slot_published then 4 else 3"]) (auto simp: eval_nat_numeral Let_def)
  qed
qed

lemma release_runs:
  "rv_shared_slot view = Some (slot_at r (rv_position view)) \<Longrightarrow> alone (sc_step r w) 2 g (Sc_check view)
     = (case ring_release r view g of Inl e \<Rightarrow> Inl e | Inr (b, v, g') \<Rightarrow> Inr (g', Sc_idle))"
  by (simp add: numeral_2_eq_2 ring_release_def)

section \<open>Words: powers of two, positions and sequences\<close>

lemma nat_and_pred_power:
  "0 < n \<Longrightarrow> n AND (n - 1) = 0 \<Longrightarrow> \<exists>k. n = 2 ^ k" for n :: nat
proof (induction n rule: less_induct)
  case (less n)
  show ?case
  proof (cases "even n")
    case True
    then obtain m where m: "n = 2 * m" by blast
    with less.prems(1) have "0 < m" by simp
    have "n - 1 = 2 * (m - 1) + 1" using m \<open>0 < m\<close> by simp
    then have "n AND (n - 1) = 2 * (m AND (m - 1))" using m by (simp add: and_nat_rec [of "2 * m" "Suc _"])
    with less.prems(2) have "m AND (m - 1) = 0" by simp
    with less.IH [of m] \<open>0 < m\<close> m obtain k where "m = 2 ^ k" by auto
    with m show ?thesis by (metis power_Suc)
  next
    case False
    then obtain m where m: "n = 2 * m + 1" using oddE by blast
    have "n AND (n - 1) = 2 * m" using m by (simp add: and_nat_rec [of "Suc _" "2 * m"])
    with less.prems(2) m show ?thesis by (auto intro: exI [of _ 0])
  qed
qed

lemma power_of_two_word:
  assumes "is_power_of_two v"
  shows "\<exists>k<64. unat v = 2 ^ k"
proof -
  have pos: "0 < unat v" using assms by (simp add: is_power_of_two_def unat_gt_0)
  have "unat (v AND (v - 1)) = unat v AND unat (v - 1)" by (simp add: unsigned_and_eq)
  moreover have "unat (v - 1) = unat v - 1" using assms unat_minus_one [of v] by (simp add: is_power_of_two_def)
  ultimately have "unat v AND (unat v - 1) = 0" using assms by (simp add: is_power_of_two_def)
  with nat_and_pred_power pos obtain k where k: "unat v = 2 ^ k" by blast
  have "2 ^ k < (2 :: nat) ^ 64" using unsigned_less [of v, where ?'a = nat] k by simp
  then have "k < 64" by (rule power_less_imp_less_exp [rotated]) simp
  with k show ?thesis by blast
qed

lemma mod_eq_near:
  fixes a b n :: nat
  assumes "a mod n = b mod n" "a < b + n" "b < a + n"
  shows "a = b"
proof (rule ccontr)
  assume "a \<noteq> b"
  then consider "a < b" | "b < a" by linarith
  then show False
    using mod_eq_imp_ge_diff [OF _ assms(1)] mod_eq_imp_ge_diff [OF _ assms(1) [symmetric]] assms(2,3) by cases fastforce+
qed

lemma unat_maximum_position: "unat maximum_position = 2 ^ 63 - 1"
  by (simp add: maximum_position_def push_bit_eq_mult)

definition state_bit :: "slot_state_t \<Rightarrow> nat" where
  "state_bit st = (case st of slot_reusable \<Rightarrow> 0 | slot_published \<Rightarrow> 1)"

lemma unat_encode_sequence:
  assumes "unat p < 2 ^ 63"
  shows "unat (encode_sequence p st) = 2 * unat p + state_bit st"
proof -
  have twice: "unat (push_bit 1 p) = 2 * unat p"
    using assms by (simp add: push_bit_eq_mult unat_word_ariths)
  have "(2 * a) OR 1 = 2 * a + (1 :: nat)" for a by (simp add: or_nat_rec [of "2 * a"])
  then show ?thesis
    using twice by (cases st) (simp_all add: encode_sequence_def state_bit_def unsigned_or_eq)
qed

text \<open>Positions below \<open>2 ^ 63\<close> are encoded without loss.\<close>

lemma encode_sequence_eq_iff:
  assumes "unat p < 2 ^ 63" "unat q < 2 ^ 63"
  shows "encode_sequence p s = encode_sequence q t \<longleftrightarrow> p = q \<and> s = t"
proof
  assume "encode_sequence p s = encode_sequence q t"
  then have "2 * unat p + state_bit s = 2 * unat q + state_bit t" using unat_encode_sequence assms by metis
  then have "unat p = unat q \<and> s = t" by (cases s; cases t) (auto simp: state_bit_def, presburger+)
  then show "p = q \<and> s = t" by (simp add: word_unat_eq_iff)
qed simp

lemma slot_at_mod:
  assumes "is_power_of_two (rt_slot_count r)"
  shows "slot_at r p = unat p mod unat (rt_slot_count r)"
proof -
  obtain k where k: "k < 64" "unat (rt_slot_count r) = 2 ^ k" using power_of_two_word [OF assms] by blast
  have "unat (rt_slot_count r - 1) = 2 ^ k - 1" using assms k(2) unat_minus_one [of "rt_slot_count r"] by (simp add: is_power_of_two_def)
  then have "slot_at r p = unat p AND mask k" by (simp add: slot_at_def unsigned_and_eq mask_eq_exp_minus_1)
  then show ?thesis using k(2) by (simp add: take_bit_eq_mask [symmetric] take_bit_eq_mod)
qed

text \<open>A geometry that is accepted is a power of two of slots whose size in bytes does not overflow.\<close>

lemma required_size_ok:
  assumes "required_size n sz \<noteq> 0"
  shows "is_power_of_two n" "unat n < 2 ^ 63" "24 \<le> unat sz" "unat (payload_capacity sz) = unat sz - 24" "unat sz - 24 < 2 ^ 32"
    "unat (required_size n sz) = 128 + unat n * unat sz"
proof -
  let ?m = "0xFFFFFFFFFFFFFFFF :: u64"
  have c: "is_power_of_two n" "n \<le> maximum_position" "24 \<le> sz" "sz - 24 \<le> 0xFFFFFFFF" "n \<le> (?m - 128) div sz"
    "required_size n sz = 128 + n * sz"
    using assms by (auto simp: required_size_def sizeof_slot_header_def control_size_def cache_line_def not_less split: if_splits)
  show "is_power_of_two n" by (fact c(1))
  show "unat n < 2 ^ 63" using c(2) unat_maximum_position by (simp add: word_le_nat_alt)
  show sz: "24 \<le> unat sz" using c(3) by (simp add: word_le_nat_alt)
  have d: "unat (sz - 24) = unat sz - 24" using c(3) by (simp add: unat_sub)
  then show "unat (payload_capacity sz) = unat sz - 24" using c(3) by (simp add: payload_capacity_def sizeof_slot_header_def)
  show "unat sz - 24 < 2 ^ 32" using c(4) d by (simp add: word_le_nat_alt)
  have "unat n \<le> (2 ^ 64 - 1 - 128) div unat sz" using c(5) by (simp add: word_le_nat_alt unat_div)
  then have "unat n * unat sz \<le> 2 ^ 64 - 1 - 128"
    by (meson div_times_less_eq_dividend le_trans mult_le_mono1)
  then have "128 + unat n * unat sz < 2 ^ 64" by simp
  then show "unat (required_size n sz) = 128 + unat n * unat sz"
    using c(6) by (simp add: unat_word_ariths)
qed

section \<open>All threads together\<close>

text \<open>
  \<^verbatim>\<open>ss_log\<close> records the message for which each position was reserved and \<^verbatim>\<open>ss_seen\<close> what each claimed view showed;
  they are for the statement only.  A step that throws is kept in \<^verbatim>\<open>ss_fault\<close>.
\<close>

record shm_sys =
  ss_region :: region_t
  ss_prod :: "shm_producer list"
  ss_cons :: "shm_consumer list"
  ss_log :: "msg_t list"
  ss_seen :: "(nat \<times> msg_t) list"
  ss_fault :: "fault option"

definition view_msg :: "region_t \<Rightarrow> recv_slot_t \<Rightarrow> msg_t" where
  "view_msg g v = \<lparr>mg_source = rv_source v,
     mg_bytes = (case rv_payload v of None \<Rightarrow> [] | Some i \<Rightarrow> take (unat (rv_size v)) (sl_payload (rg_slots g ! i))),
     mg_imm = rv_imm v\<rparr>"

fun reserved_by :: "shm_producer \<Rightarrow> shm_producer \<Rightarrow> msg_t list" where
  "reserved_by (Sp_cas k m q) (Sp_check m' q') = [m]"
| "reserved_by _ _ = []"

fun shown_to :: "region_t \<Rightarrow> shm_consumer \<Rightarrow> shm_consumer \<Rightarrow> (nat \<times> msg_t) list" where
  "shown_to g (Sc_read q) (Sc_view v) = [(unat q, view_msg g v)]"
| "shown_to _ _ _ = []"

inductive shm_step :: "ring_t \<Rightarrow> shm_sys \<Rightarrow> shm_sys \<Rightarrow> bool" for r where
  send: "i < length (ss_prod s) \<Longrightarrow> ss_prod s ! i = Sp_idle \<or> (\<exists>e. ss_prod s ! i = Sp_ret e) \<Longrightarrow>
    shm_step r s (s\<lparr>ss_prod := (ss_prod s)[i := sp_enter r null m]\<rparr>)"
| produce: "i < length (ss_prod s) \<Longrightarrow> sp_step r w (ss_region s) (ss_prod s ! i) = Inr (g', p') \<Longrightarrow>
    shm_step r s (s\<lparr>ss_region := g', ss_prod := (ss_prod s)[i := p'], ss_log := ss_log s @ reserved_by (ss_prod s ! i) p'\<rparr>)"
| produce_fault: "i < length (ss_prod s) \<Longrightarrow> sp_step r w (ss_region s) (ss_prod s ! i) = Inl e \<Longrightarrow>
    shm_step r s (s\<lparr>ss_fault := Some e\<rparr>)"
| poll: "i < length (ss_cons s) \<Longrightarrow> ss_cons s ! i = Sc_idle \<Longrightarrow>
    shm_step r s (s\<lparr>ss_cons := (ss_cons s)[i := Sc_load (rt_consumer_attempts r)]\<rparr>)"
| consume: "i < length (ss_cons s) \<Longrightarrow> sc_step r w (ss_region s) (ss_cons s ! i) = Inr (g', c') \<Longrightarrow>
    shm_step r s (s\<lparr>ss_region := g', ss_cons := (ss_cons s)[i := c'], ss_seen := ss_seen s @ shown_to g' (ss_cons s ! i) c'\<rparr>)"
| consume_fault: "i < length (ss_cons s) \<Longrightarrow> sc_step r w (ss_region s) (ss_cons s ! i) = Inl e \<Longrightarrow>
    shm_step r s (s\<lparr>ss_fault := Some e\<rparr>)"
| release: "i < length (ss_cons s) \<Longrightarrow> ss_cons s ! i = Sc_view v \<Longrightarrow>
    shm_step r s (s\<lparr>ss_cons := (ss_cons s)[i := Sc_check v]\<rparr>)"

text \<open>The region is initialised before it is shared; the bytes behind a header are as many as its slot has.\<close>

inductive shm_reach :: "ring_t \<Rightarrow> shm_sys \<Rightarrow> bool" for r where
  init: "initialize raw region (rt_slot_count r) (rt_slot_size r) = Inr g \<Longrightarrow>
    (\<forall>i. length (raw i) = unat (max_payload_size r)) \<Longrightarrow>
    shm_reach r \<lparr>ss_region = g, ss_prod = replicate np Sp_idle, ss_cons = replicate nc Sc_idle,
                 ss_log = [], ss_seen = [], ss_fault = None\<rparr>"
| step: "shm_reach r s \<Longrightarrow> shm_step r s s' \<Longrightarrow> shm_reach r s'"

section \<open>The invariant\<close>

fun sp_holds :: "shm_producer \<Rightarrow> nat option" where
  "sp_holds (Sp_check m q) = Some (unat q)"
| "sp_holds (Sp_write j m q) = Some (unat q)"
| "sp_holds _ = None"

fun sc_holds :: "shm_consumer \<Rightarrow> nat option" where
  "sc_holds (Sc_read q) = Some (unat q)"
| "sc_holds (Sc_view v) = Some (unat (rv_position v))"
| "sc_holds (Sc_check v) = Some (unat (rv_position v))"
| "sc_holds (Sc_store v) = Some (unat (rv_position v))"
| "sc_holds _ = None"

fun sc_reading :: "shm_consumer \<Rightarrow> nat option" where
  "sc_reading (Sc_read q) = Some (unat q)"
| "sc_reading _ = None"

text \<open>A slot after the first \<open>j\<close> stores of \<^verbatim>\<open>publish\<close>.\<close>

definition filled :: "nat \<Rightarrow> msg_t \<Rightarrow> slot_header_t \<Rightarrow> bool" where
  "filled j m sl \<longleftrightarrow> (0 < j \<longrightarrow> sl_payload_size sl = of_nat (length (mg_bytes m))) \<and> (1 < j \<longrightarrow> sl_imm_data sl = mg_imm m)
     \<and> (2 < j \<longrightarrow> sl_source sl = mg_source m) \<and> (3 < j \<longrightarrow> take (length (mg_bytes m)) (sl_payload sl) = mg_bytes m)"

definition msg_ok :: "ring_t \<Rightarrow> msg_t \<Rightarrow> bool" where
  "msg_ok r m \<longleftrightarrow> 0 \<le> mg_source m \<and> length (mg_bytes m) \<le> unat (max_payload_size r)"

fun sp_ok :: "ring_t \<Rightarrow> region_t \<Rightarrow> msg_t list \<Rightarrow> shm_producer \<Rightarrow> bool" where
  "sp_ok r g l Sp_idle \<longleftrightarrow> True"
| "sp_ok r g l (Sp_load k m) \<longleftrightarrow> msg_ok r m"
| "sp_ok r g l (Sp_seq k m q) \<longleftrightarrow> msg_ok r m \<and> q \<le> rg_producer g \<and> q < maximum_position"
| "sp_ok r g l (Sp_reload k m q sq) \<longleftrightarrow> msg_ok r m \<and> q \<le> rg_producer g \<and> (rg_producer g = q \<longrightarrow> is_previous_generation r sq q)"
| "sp_ok r g l (Sp_cas k m q) \<longleftrightarrow> msg_ok r m \<and> q \<le> rg_producer g \<and> q < maximum_position
     \<and> (rg_producer g = q \<longrightarrow> seq_at r g q = encode_sequence q slot_reusable)"
| "sp_ok r g l (Sp_check m q) \<longleftrightarrow> q < rg_producer g \<and> l ! unat q = m \<and> seq_at r g q = encode_sequence q slot_reusable"
| "sp_ok r g l (Sp_write j m q) \<longleftrightarrow> q < rg_producer g \<and> l ! unat q = m \<and> seq_at r g q = encode_sequence q slot_reusable
     \<and> filled j m (rg_slots g ! slot_at r q)"
| "sp_ok r g l (Sp_ret e) \<longleftrightarrow> True"

definition view_ok :: "ring_t \<Rightarrow> region_t \<Rightarrow> recv_slot_t \<Rightarrow> bool" where
  "view_ok r g v \<longleftrightarrow> rv_position v < rg_consumer g \<and> seq_at r g (rv_position v) = encode_sequence (rv_position v) slot_published
     \<and> v = view_of r g (rv_position v)"

fun sc_ok :: "ring_t \<Rightarrow> region_t \<Rightarrow> shm_consumer \<Rightarrow> bool" where
  "sc_ok r g Sc_idle \<longleftrightarrow> True"
| "sc_ok r g (Sc_load k) \<longleftrightarrow> True"
| "sc_ok r g (Sc_seq k q) \<longleftrightarrow> q \<le> rg_consumer g"
| "sc_ok r g (Sc_reload k q sq) \<longleftrightarrow> q \<le> rg_consumer g \<and> (rg_consumer g = q \<longrightarrow> sq = encode_sequence q slot_reusable
     \<or> rt_slot_count r \<le> q \<and> sq = encode_sequence (previous_generation r q) slot_published)"
| "sc_ok r g (Sc_cas k q) \<longleftrightarrow> q \<le> rg_consumer g \<and> (rg_consumer g = q \<longrightarrow> seq_at r g q = encode_sequence q slot_published)"
| "sc_ok r g (Sc_read q) \<longleftrightarrow> q < rg_consumer g \<and> seq_at r g q = encode_sequence q slot_published"
| "sc_ok r g (Sc_view v) \<longleftrightarrow> view_ok r g v"
| "sc_ok r g (Sc_check v) \<longleftrightarrow> view_ok r g v"
| "sc_ok r g (Sc_store v) \<longleftrightarrow> view_ok r g v"

definition slot_ok :: "ring_t \<Rightarrow> shm_sys \<Rightarrow> u64 \<Rightarrow> slot_state_t \<Rightarrow> bool" where
  "slot_ok r s q st \<longleftrightarrow> (let g = ss_region s; n = unat (rt_slot_count r) in
     unat q < 2 ^ 63 \<and> unat (rg_producer g) \<le> unat q + n \<and> unat q < unat (rg_consumer g) + n
     \<and> (st = slot_reusable \<longrightarrow> rg_consumer g \<le> q \<and> (q < rg_producer g \<longrightarrow> 0 < holds sp_holds (ss_prod s) (unat q)))
     \<and> (st = slot_published \<longrightarrow> q < rg_producer g \<and> filled 4 (ss_log s ! unat q) (rg_slots g ! slot_at r q)
         \<and> (q < rg_consumer g \<longrightarrow> 0 < holds sc_holds (ss_cons s) (unat q) \<or> unat maximum_position < unat q + n)))"

definition slots_ok :: "ring_t \<Rightarrow> shm_sys \<Rightarrow> bool" where
  "slots_ok r s \<longleftrightarrow> length (rg_slots (ss_region s)) = unat (rt_slot_count r)
     \<and> (\<forall>sl\<in>set (rg_slots (ss_region s)). length (sl_payload sl) = unat (max_payload_size r))
     \<and> (\<forall>i<unat (rt_slot_count r). \<exists>q st. slot_at r q = i \<and> seq_at r (ss_region s) q = encode_sequence q st \<and> slot_ok r s q st)"

definition shm_inv :: "ring_t \<Rightarrow> shm_sys \<Rightarrow> bool" where
  "shm_inv r s \<longleftrightarrow> required_size (rt_slot_count r) (rt_slot_size r) \<noteq> 0 \<and> ss_fault s = None
     \<and> unat (rg_producer (ss_region s)) = length (ss_log s) \<and> rg_consumer (ss_region s) \<le> rg_producer (ss_region s)
     \<and> rg_producer (ss_region s) \<le> maximum_position
     \<and> (\<forall>m\<in>set (ss_log s). msg_ok r m)
     \<and> slots_ok r s
     \<and> (\<forall>p\<in>set (ss_prod s). sp_ok r (ss_region s) (ss_log s) p) \<and> (\<forall>c\<in>set (ss_cons s). sc_ok r (ss_region s) c)
     \<and> (\<forall>q. holds sp_holds (ss_prod s) q \<le> 1) \<and> (\<forall>q. holds sc_holds (ss_cons s) q \<le> 1)
     \<and> (\<forall>(q, m)\<in>set (ss_seen s). m = ss_log s ! q)
     \<and> (\<forall>q. holds sc_reading (ss_cons s) q + holds (\<lambda>x. Some (fst x)) (ss_seen s) q = of_bool (q < unat (rg_consumer (ss_region s))))"

lemma shm_invD:
  assumes "shm_inv r s"
  shows "required_size (rt_slot_count r) (rt_slot_size r) \<noteq> 0" "ss_fault s = None"
    "unat (rg_producer (ss_region s)) = length (ss_log s)" "rg_consumer (ss_region s) \<le> rg_producer (ss_region s)"
    "rg_producer (ss_region s) \<le> maximum_position" "m \<in> set (ss_log s) \<Longrightarrow> msg_ok r m" "slots_ok r s"
    "p \<in> set (ss_prod s) \<Longrightarrow> sp_ok r (ss_region s) (ss_log s) p" "c \<in> set (ss_cons s) \<Longrightarrow> sc_ok r (ss_region s) c"
    "holds sp_holds (ss_prod s) q \<le> 1" "holds sc_holds (ss_cons s) q \<le> 1"
    "(q, m') \<in> set (ss_seen s) \<Longrightarrow> m' = ss_log s ! q"
    "holds sc_reading (ss_cons s) q + holds (\<lambda>x. Some (fst x)) (ss_seen s) q = of_bool (q < unat (rg_consumer (ss_region s)))"
  using assms by (auto simp: shm_inv_def)

text \<open>The invariant in terms of its parts, for the introduction.\<close>

lemma shm_invI:
  assumes "required_size (rt_slot_count r) (rt_slot_size r) \<noteq> 0" "ss_fault s = None"
    "unat (rg_producer (ss_region s)) = length (ss_log s)" "rg_consumer (ss_region s) \<le> rg_producer (ss_region s)"
    "rg_producer (ss_region s) \<le> maximum_position" "\<And>m. m \<in> set (ss_log s) \<Longrightarrow> msg_ok r m" "slots_ok r s"
    "\<And>j. j < length (ss_prod s) \<Longrightarrow> sp_ok r (ss_region s) (ss_log s) (ss_prod s ! j)"
    "\<And>j. j < length (ss_cons s) \<Longrightarrow> sc_ok r (ss_region s) (ss_cons s ! j)"
    "\<And>q. holds sp_holds (ss_prod s) q \<le> 1" "\<And>q. holds sc_holds (ss_cons s) q \<le> 1"
    "\<And>q m'. (q, m') \<in> set (ss_seen s) \<Longrightarrow> m' = ss_log s ! q"
    "\<And>q. holds sc_reading (ss_cons s) q + holds (\<lambda>x. Some (fst x)) (ss_seen s) q = of_bool (q < unat (rg_consumer (ss_region s)))"
  shows "shm_inv r s"
  using assms by (auto simp: shm_inv_def in_set_conv_nth)

lemma ring_geometry:
  assumes "required_size (rt_slot_count r) (rt_slot_size r) \<noteq> 0"
  shows "0 < unat (rt_slot_count r)" "unat (rt_slot_count r) < 2 ^ 63" "slot_at r q = unat q mod unat (rt_slot_count r)"
    "slot_at r q < unat (rt_slot_count r)" "unat (max_payload_size r) < 2 ^ 32"
proof -
  note ok = required_size_ok [OF assms]
  show pos: "0 < unat (rt_slot_count r)" using ok(1) by (auto simp: is_power_of_two_def unat_gt_0)
  show "unat (rt_slot_count r) < 2 ^ 63" by (fact ok(2))
  show m: "slot_at r q = unat q mod unat (rt_slot_count r)" by (rule slot_at_mod [OF ok(1)])
  show "slot_at r q < unat (rt_slot_count r)" using m pos by simp
  show "unat (max_payload_size r) < 2 ^ 32" using ok(4,5) by (simp add: max_payload_size_def)
qed

lemma position_bounds:
  assumes "shm_inv r s"
  shows "unat (rg_producer (ss_region s)) < 2 ^ 63" "unat (rg_consumer (ss_region s)) < 2 ^ 63"
    "unat (rg_consumer (ss_region s)) \<le> unat (rg_producer (ss_region s))"
  using shm_invD(4,5) [OF assms] unat_maximum_position by (simp_all add: word_le_nat_alt)

text \<open>What the sequence of a slot says: the position it is at, and in which state.\<close>

lemma slot_generation:
  assumes "shm_inv r s"
  obtains q' st where "slot_at r q' = slot_at r q" "seq_at r (ss_region s) q = encode_sequence q' st" "slot_ok r s q' st"
proof -
  have "\<exists>q' st. slot_at r q' = slot_at r q \<and> seq_at r (ss_region s) q' = encode_sequence q' st \<and> slot_ok r s q' st"
    using shm_invD(7) [OF assms] ring_geometry(4) [OF shm_invD(1) [OF assms], of q] by (auto simp: slots_ok_def)
  then show ?thesis using that by (auto simp: seq_at_def)
qed

lemma slot_okD:
  assumes "slot_ok r s q st"
  shows "unat q < 2 ^ 63" "unat (rg_producer (ss_region s)) \<le> unat q + unat (rt_slot_count r)"
    "unat q < unat (rg_consumer (ss_region s)) + unat (rt_slot_count r)"
    "st = slot_reusable \<Longrightarrow> rg_consumer (ss_region s) \<le> q"
    "st = slot_reusable \<Longrightarrow> q < rg_producer (ss_region s) \<Longrightarrow> 0 < holds sp_holds (ss_prod s) (unat q)"
    "st = slot_published \<Longrightarrow> q < rg_producer (ss_region s)"
    "st = slot_published \<Longrightarrow> filled 4 (ss_log s ! unat q) (rg_slots (ss_region s) ! slot_at r q)"
    "st = slot_published \<Longrightarrow> q < rg_consumer (ss_region s) \<Longrightarrow>
       0 < holds sc_holds (ss_cons s) (unat q) \<or> unat maximum_position < unat q + unat (rt_slot_count r)"
  using assms by (auto simp: slot_ok_def Let_def)

lemma slot_at_position:
  assumes "shm_inv r s" "unat q < 2 ^ 63" "seq_at r (ss_region s) q = encode_sequence q st"
  shows "slot_ok r s q st"
proof -
  obtain q' st' where q': "slot_at r q' = slot_at r q" "seq_at r (ss_region s) q = encode_sequence q' st'" "slot_ok r s q' st'"
    by (rule slot_generation [OF assms(1), of q])
  from encode_sequence_eq_iff [OF assms(2) slot_okD(1) [OF q'(3)], of st st'] q'(2,3) assms(3) show ?thesis by simp
qed

lemma unat_previous_generation:
  "rt_slot_count r \<le> q \<Longrightarrow> unat (previous_generation r q) = unat q - unat (rt_slot_count r)"
  by (simp add: previous_generation_def unat_sub)

text \<open>A reserved position that was not claimed yet is where its slot stands.\<close>

lemma window_slot:
  assumes "shm_inv r s" "rg_consumer (ss_region s) \<le> q" "q < rg_producer (ss_region s)"
  shows "\<exists>st. seq_at r (ss_region s) q = encode_sequence q st"
proof -
  note geo = ring_geometry [OF shm_invD(1) [OF assms(1)]]
  obtain q' st where q': "slot_at r q' = slot_at r q" "seq_at r (ss_region s) q = encode_sequence q' st" "slot_ok r s q' st"
    by (rule slot_generation [OF assms(1), of q])
  have "unat q < unat q' + unat (rt_slot_count r)" "unat q' < unat q + unat (rt_slot_count r)"
    using slot_okD(2,3) [OF q'(3)] assms(2,3) by (simp_all add: word_le_nat_alt word_less_nat_alt)
  moreover have "unat q' mod unat (rt_slot_count r) = unat q mod unat (rt_slot_count r)" using q'(1) geo(3) by simp
  ultimately have "unat q' = unat q"
    using mod_eq_near [of "unat q'" "unat (rt_slot_count r)" "unat q"] by simp
  then have "q' = q" by (simp add: word_unat_eq_iff)
  with q'(2) show ?thesis by blast
qed

text \<open>The slot of the next position to reserve is ready for it or still at the position before.\<close>

lemma producer_slot:
  assumes "shm_inv r s"
  defines "q \<equiv> rg_producer (ss_region s)"
  shows "seq_at r (ss_region s) q = encode_sequence q slot_reusable
    \<or> rt_slot_count r \<le> q \<and> (\<exists>st. seq_at r (ss_region s) q = encode_sequence (previous_generation r q) st)"
proof -
  note geo = ring_geometry [OF shm_invD(1) [OF assms(1)]]
  let ?n = "unat (rt_slot_count r)"
  obtain q' st where q': "slot_at r q' = slot_at r q" "seq_at r (ss_region s) q = encode_sequence q' st" "slot_ok r s q' st"
    by (rule slot_generation [OF assms(1), of q])
  have b: "unat q \<le> unat q' + ?n" "unat q' < unat q + ?n"
    using slot_okD(2,3) [OF q'(3)] position_bounds(3) [OF assms(1)] by (simp_all add: q_def)
  have m: "unat q' mod ?n = unat q mod ?n" using q'(1) geo(3) by simp
  have "\<not> unat q < unat q'" using mod_eq_imp_ge_diff [OF _ m [symmetric]] b(2) by fastforce
  then consider "unat q' = unat q" | "unat q' < unat q" by linarith
  then show ?thesis
  proof cases
    case 1
    then have "q' = q" by (simp add: word_unat_eq_iff)
    with slot_okD(6) [OF q'(3)] q'(2) show ?thesis by (cases st) (auto simp: q_def)
  next
    case 2
    with mod_eq_imp_ge_diff [OF 2 m] b(1) have e: "unat q' = unat q - ?n" "?n \<le> unat q" by linarith+
    then have "q' = previous_generation r q"
      using unat_previous_generation [of r q] by (simp add: word_unat_eq_iff word_le_nat_alt)
    with q'(2) e(2) show ?thesis by (auto simp: word_le_nat_alt)
  qed
qed

lemma consumer_slot:
  assumes "shm_inv r s"
  defines "q \<equiv> rg_consumer (ss_region s)"
  shows "(\<exists>st. seq_at r (ss_region s) q = encode_sequence q st)
    \<or> rt_slot_count r \<le> q \<and> seq_at r (ss_region s) q = encode_sequence (previous_generation r q) slot_published"
proof (cases "q < rg_producer (ss_region s)")
  case True
  then show ?thesis using window_slot [OF assms(1), of q] by (simp add: q_def)
next
  case False
  then have eq: "rg_producer (ss_region s) = q" using shm_invD(4) [OF assms(1)] by (simp add: q_def)
  have "st = slot_published" if h: "rt_slot_count r \<le> q" "seq_at r (ss_region s) q = encode_sequence (previous_generation r q) st" for st
  proof (cases st)
    case slot_reusable
    have u: "unat (previous_generation r q) = unat q - unat (rt_slot_count r)" by (rule unat_previous_generation [OF h(1)])
    have "slot_at r (previous_generation r q) = slot_at r q"
      using u h(1) ring_geometry(3) [OF shm_invD(1) [OF assms(1)]] by (simp add: word_le_nat_alt mod_if)
    then have "seq_at r (ss_region s) (previous_generation r q) = encode_sequence (previous_generation r q) st"
      using h(2) by (simp add: seq_at_def)
    moreover have "unat (previous_generation r q) < 2 ^ 63" using u position_bounds(2) [OF assms(1)] by (simp add: q_def)
    ultimately have "slot_ok r s (previous_generation r q) st" by (intro slot_at_position [OF assms(1)])
    from slot_okD(4) [OF this slot_reusable] u h(1) ring_geometry(1) [OF shm_invD(1) [OF assms(1)]] show ?thesis
      by (simp add: q_def word_le_nat_alt)
  qed
  with producer_slot [OF assms(1)] eq show ?thesis by auto
qed

lemma unpublished_slot:
  assumes "shm_inv r s" "rg_consumer (ss_region s) = q" "seq_at r (ss_region s) q \<noteq> encode_sequence q slot_published"
  shows "seq_at r (ss_region s) q = encode_sequence q slot_reusable
    \<or> rt_slot_count r \<le> q \<and> seq_at r (ss_region s) q = encode_sequence (previous_generation r q) slot_published"
  using consumer_slot [OF assms(1), unfolded assms(2)]
proof (elim disjE exE)
  fix st assume "seq_at r (ss_region s) q = encode_sequence q st"
  with assms(3) show ?thesis by (cases st) auto
qed blast

section \<open>Every step keeps the invariant\<close>

lemma seq_at_simps [simp]:
  "seq_at r (g\<lparr>rg_producer := x\<rparr>) q = seq_at r g q" "seq_at r (g\<lparr>rg_consumer := x\<rparr>) q = seq_at r g q"
  "view_of r (g\<lparr>rg_producer := x\<rparr>) q = view_of r g q" "view_of r (g\<lparr>rg_consumer := x\<rparr>) q = view_of r g q"
  by (simp_all add: seq_at_def view_of_def)

lemma upd_slot_simps [simp]:
  "rg_producer (upd_slot r q f g) = rg_producer g" "rg_consumer (upd_slot r q f g) = rg_consumer g"
  "length (rg_slots (upd_slot r q f g)) = length (rg_slots g)"
  by (simp_all add: upd_slot_def)

lemma upd_slot_same:
  "slot_at r q < length (rg_slots g) \<Longrightarrow> slot_at r q' = slot_at r q \<Longrightarrow> rg_slots (upd_slot r q f g) ! slot_at r q' = f (rg_slots g ! slot_at r q)"
  by (simp add: upd_slot_def)

lemma upd_slot_other:
  assumes "slot_at r q' \<noteq> slot_at r q"
  shows "rg_slots (upd_slot r q f g) ! slot_at r q' = rg_slots g ! slot_at r q'" "seq_at r (upd_slot r q f g) q' = seq_at r g q'"
    "view_of r (upd_slot r q f g) q' = view_of r g q'"
  using assms by (simp_all add: upd_slot_def seq_at_def view_of_def)

lemma fill_sequence [simp]: "sl_sequence (fill j m sl) = sl_sequence sl"
  by (simp add: fill_def)

lemma slot_length:
  assumes "shm_inv r s"
  shows "slot_at r q < length (rg_slots (ss_region s))" "length (sl_payload (rg_slots (ss_region s) ! slot_at r q)) = unat (max_payload_size r)"
proof -
  show less: "slot_at r q < length (rg_slots (ss_region s))"
    using shm_invD(7) [OF assms] ring_geometry(4) [OF shm_invD(1) [OF assms], of q] by (simp add: slots_ok_def)
  show "length (sl_payload (rg_slots (ss_region s) ! slot_at r q)) = unat (max_payload_size r)"
    using shm_invD(7) [OF assms] nth_mem [OF less] by (simp add: slots_ok_def)
qed

text \<open>Who holds a position has its slot: it is reserved and reusable for a producer, claimed and published for a consumer.\<close>

lemma producer_holds:
  assumes "shm_inv r s" "i < length (ss_prod s)" "sp_holds (ss_prod s ! i) = Some k"
  shows "\<exists>q. unat q = k \<and> q < rg_producer (ss_region s) \<and> seq_at r (ss_region s) q = encode_sequence q slot_reusable"
  using shm_invD(8) [OF assms(1) nth_mem [OF assms(2)]] assms(3) by (cases "ss_prod s ! i") auto

lemma consumer_holds:
  assumes "shm_inv r s" "i < length (ss_cons s)" "sc_holds (ss_cons s ! i) = Some k"
  shows "\<exists>q. unat q = k \<and> q < rg_consumer (ss_region s) \<and> seq_at r (ss_region s) q = encode_sequence q slot_published"
  using shm_invD(9) [OF assms(1) nth_mem [OF assms(2)]] assms(3) by (cases "ss_cons s ! i") (auto simp: view_ok_def)

lemma holds_ex: "0 < holds f xs k \<Longrightarrow> \<exists>i<length xs. f (xs ! i) = Some k"
  by (auto simp: holds_def filter_empty_conv in_set_conv_nth)

lemma holds_none_above:
  assumes "shm_inv r s"
  shows "unat (rg_producer (ss_region s)) \<le> k \<Longrightarrow> holds sp_holds (ss_prod s) k = 0"
    "unat (rg_consumer (ss_region s)) \<le> k \<Longrightarrow> holds sc_holds (ss_cons s) k = 0"
  using holds_ex [of sp_holds "ss_prod s" k] holds_ex [of sc_holds "ss_cons s" k] producer_holds [OF assms] consumer_holds [OF assms]
  by (fastforce simp: word_less_nat_alt)+

lemma seen_claimed:
  assumes "shm_inv r s" "(q, m) \<in> set (ss_seen s)"
  shows "q < unat (rg_consumer (ss_region s))"
proof -
  have "0 < holds (\<lambda>x. Some (fst x)) (ss_seen s) q" using assms(2) by (force simp: holds_def filter_empty_conv)
  with shm_invD(13) [OF assms(1), of q] show ?thesis by (cases "q < unat (rg_consumer (ss_region s))") auto
qed

text \<open>Two positions whose slots are the same and at their generation are equal.\<close>

lemma same_slot:
  assumes "shm_inv r s" "unat q < 2 ^ 63" "unat q' < 2 ^ 63" "slot_at r q' = slot_at r q"
    and "seq_at r (ss_region s) q = encode_sequence q st" "seq_at r (ss_region s) q' = encode_sequence q' st'"
  shows "q' = q \<and> st' = st"
proof -
  have "encode_sequence q' st' = encode_sequence q st" using assms(4-6) unfolding seq_at_def by metis
  then show ?thesis using encode_sequence_eq_iff [OF assms(3,2), of st' st] by blast
qed

lemma slots_okI:
  assumes "slots_ok r s" "length (rg_slots (ss_region s')) = length (rg_slots (ss_region s))"
    and "\<And>i. i < length (rg_slots (ss_region s)) \<Longrightarrow>
      length (sl_payload (rg_slots (ss_region s') ! i)) = length (sl_payload (rg_slots (ss_region s) ! i))"
    and "\<And>q st. slot_ok r s q st \<Longrightarrow> seq_at r (ss_region s) q = encode_sequence q st \<Longrightarrow>
      \<exists>q' st'. slot_at r q' = slot_at r q \<and> seq_at r (ss_region s') q' = encode_sequence q' st' \<and> slot_ok r s' q' st'"
  shows "slots_ok r s'"
  unfolding slots_ok_def
proof (intro conjI ballI allI impI)
  show "length (rg_slots (ss_region s')) = unat (rt_slot_count r)" using assms(1,2) by (simp add: slots_ok_def)
  show "length (sl_payload sl) = unat (max_payload_size r)" if "sl \<in> set (rg_slots (ss_region s'))" for sl
  proof -
    from that obtain i where i: "i < length (rg_slots (ss_region s))" "sl = rg_slots (ss_region s') ! i"
      using assms(2) by (auto simp: in_set_conv_nth)
    with assms(1) nth_mem [OF i(1)] assms(3) [OF i(1)] show ?thesis by (simp add: slots_ok_def)
  qed
  show "\<exists>q st. slot_at r q = i \<and> seq_at r (ss_region s') q = encode_sequence q st \<and> slot_ok r s' q st" if h: "i < unat (rt_slot_count r)" for i
  proof -
    from assms(1) h obtain q st where "slot_at r q = i" "seq_at r (ss_region s) q = encode_sequence q st" "slot_ok r s q st"
      unfolding slots_ok_def by blast
    with assms(4) [of q st] show ?thesis by blast
  qed
qed

lemma producer_local:
  assumes "shm_inv r s" "i < length (ss_prod s)" "sp_holds p' = sp_holds (ss_prod s ! i)" "sp_ok r (ss_region s) (ss_log s) p'"
  shows "shm_inv r (s\<lparr>ss_prod := (ss_prod s)[i := p']\<rparr>)"
proof -
  have h: "holds sp_holds ((ss_prod s)[i := p']) q = holds sp_holds (ss_prod s) q" for q
    using holds_update [OF assms(2), of sp_holds p' q] assms(3) by simp
  have "slots_ok r (s\<lparr>ss_prod := (ss_prod s)[i := p']\<rparr>)"
    by (rule slots_okI [OF shm_invD(7) [OF assms(1)]]) (simp_all, auto simp: slot_ok_def h)
  then show ?thesis
    using assms(1,2,4) shm_invD(8) [OF assms(1)] h
    by (intro shm_invI) (auto simp: shm_inv_def nth_list_update)
qed

lemma consumer_local:
  assumes "shm_inv r s" "i < length (ss_cons s)" "sc_holds c' = sc_holds (ss_cons s ! i)" "sc_reading c' = sc_reading (ss_cons s ! i)"
    and "sc_ok r (ss_region s) c'"
  shows "shm_inv r (s\<lparr>ss_cons := (ss_cons s)[i := c']\<rparr>)"
proof -
  have h: "holds sc_holds ((ss_cons s)[i := c']) q = holds sc_holds (ss_cons s) q"
    "holds sc_reading ((ss_cons s)[i := c']) q = holds sc_reading (ss_cons s) q" for q
    using holds_update [OF assms(2), of sc_holds c' q] holds_update [OF assms(2), of sc_reading c' q] assms(3,4) by simp_all
  have "slots_ok r (s\<lparr>ss_cons := (ss_cons s)[i := c']\<rparr>)"
    by (rule slots_okI [OF shm_invD(7) [OF assms(1)]]) (simp_all, auto simp: slot_ok_def h)
  then show ?thesis
    using assms(1,2,5) shm_invD(9) [OF assms(1)] h
    by (intro shm_invI) (auto simp: shm_inv_def nth_list_update)
qed

text \<open>The compare-and-exchange that reserves a position.\<close>

lemma sp_ok_reserved:
  assumes "sp_ok r g l p" "length l = unat (rg_producer g)" "unat x = Suc (unat (rg_producer g))"
  shows "sp_ok r (g\<lparr>rg_producer := x\<rparr>) (l @ [m]) p"
  using assms by (cases p) (auto simp: word_le_nat_alt word_less_nat_alt nth_append)

lemma reserve_inv:
  assumes "shm_inv r s" "i < length (ss_prod s)" "ss_prod s ! i = Sp_cas k m q" "rg_producer (ss_region s) = q"
  shows "shm_inv r (s\<lparr>ss_region := (ss_region s)\<lparr>rg_producer := q + 1\<rparr>, ss_prod := (ss_prod s)[i := Sp_check m q],
           ss_log := ss_log s @ [m]\<rparr>)" (is "shm_inv r ?s")
proof -
  note inv = shm_invD [OF assms(1)] note geo = ring_geometry [OF inv(1)]
  let ?n = "unat (rt_slot_count r)"
  have ok: "msg_ok r m" "q < maximum_position" "seq_at r (ss_region s) q = encode_sequence q slot_reusable"
    using inv(8) [OF nth_mem [OF assms(2)]] assms(3,4) by auto
  have q1: "unat (q + 1) = Suc (unat q)" using ok(2) unat_maximum_position by (simp add: word_less_nat_alt unat_word_ariths)
  have len: "length (ss_log s) = unat q" using inv(3) assms(4) by simp
  have none: "holds sp_holds (ss_prod s) (unat q) = 0" using holds_none_above(1) [OF assms(1), of "unat q"] assms(4) by simp
  have h: "holds sp_holds ((ss_prod s)[i := Sp_check m q]) k = holds sp_holds (ss_prod s) k + (if k = unat q then 1 else 0)" for k
    using holds_update [OF assms(2), of sp_holds "Sp_check m q" k] assms(3) by auto
  have slots: "slots_ok r ?s"
  proof (rule slots_okI [OF inv(7)])
    fix q' st assume q': "slot_ok r s q' st" "seq_at r (ss_region s) q' = encode_sequence q' st"
    note o = slot_okD [OF q'(1)]
    have "unat q' + ?n \<noteq> unat q"
    proof
      assume e: "unat q' + ?n = unat q"
      then have "slot_at r q' = slot_at r q" using geo(3) by (metis mod_add_self2)
      from same_slot [OF assms(1) _ o(1) this ok(3) q'(2)] e geo(1) position_bounds(1) [OF assms(1)] assms(4) show False by auto
    qed
    then have "unat q < unat q' + ?n" using o(2) assms(4) by simp
    moreover have "q' < q + 1 \<Longrightarrow> q' = q \<or> q' < q" using q1 by (auto simp: word_less_nat_alt word_unat_eq_iff)
    moreover have "q' < q + 1" if "q' < q" using that q1 by (simp add: word_less_nat_alt)
    ultimately have "slot_ok r ?s q' st"
      using o assms(4) q1 h len by (auto simp: slot_ok_def Let_def nth_append word_less_nat_alt)
    with q'(2) show "\<exists>q'' st'. slot_at r q'' = slot_at r q' \<and> seq_at r (ss_region ?s) q'' = encode_sequence q'' st' \<and> slot_ok r ?s q'' st'"
      by auto
  qed simp_all
  have P: "sp_ok r ((ss_region s)\<lparr>rg_producer := q + 1\<rparr>) (ss_log s @ [m]) ((ss_prod s)[i := Sp_check m q] ! j)" if "j < length (ss_prod s)" for j
    using sp_ok_reserved [OF inv(8) [OF nth_mem [OF that]], of "q + 1" m] len q1 assms(2,4) ok(3)
    by (cases "j = i") (auto simp: nth_append word_less_nat_alt)
  have C: "sc_ok r ((ss_region s)\<lparr>rg_producer := q + 1\<rparr>) (ss_cons s ! j)" if "j < length (ss_cons s)" for j
    using inv(9) [OF nth_mem [OF that]] by (cases "ss_cons s ! j") (auto simp: view_ok_def)
  have S: "m' = (ss_log s @ [m]) ! k" if "(k, m') \<in> set (ss_seen s)" for k m'
    using inv(12) [OF that] seen_claimed [OF assms(1) that] position_bounds(3) [OF assms(1)] inv(3) by (simp add: nth_append)
  have le: "rg_consumer (ss_region s) \<le> q + 1" "q + 1 \<le> maximum_position"
    using inv(4) assms(4) q1 ok(2) by (simp_all add: word_le_nat_alt word_less_nat_alt)
  show ?thesis
    by (rule shm_invI) (use inv slots P C S le len q1 h none ok(1) in \<open>auto split: if_splits\<close>)
qed

text \<open>
  A store into the slot of position \<open>q\<close> by the one who holds it.  No other thread depends on the slot:
  what the others know of a slot they know of its generation and state.
\<close>

lemma fill_filled:
  assumes "filled j m sl" "length (mg_bytes m) \<le> length (sl_payload sl)" "j < 4"
  shows "filled (Suc j) m (fill j m sl)" "length (sl_payload (fill j m sl)) = length (sl_payload sl)"
proof -
  from assms(3) consider "j = 0" | "j = 1" | "j = 2" | "j = 3" by linarith
  then show "filled (Suc j) m (fill j m sl)" using assms(1) by cases (auto simp: filled_def fill_def)
  show "length (sl_payload (fill j m sl)) = length (sl_payload sl)" using assms(2) by (auto simp: fill_def)
qed

lemma sp_ok_other:
  assumes "shm_inv r s" "j < length (ss_prod s)" "unat q < 2 ^ 63" "q < rg_producer (ss_region s)"
    and "seq_at r (ss_region s) q = encode_sequence q st" "sp_holds (ss_prod s ! j) \<noteq> Some (unat q)"
  shows "sp_ok r (upd_slot r q f (ss_region s)) (ss_log s) (ss_prod s ! j)"
proof -
  note inv = shm_invD [OF assms(1)]
  have ok: "sp_ok r (ss_region s) (ss_log s) (ss_prod s ! j)" by (rule inv(8) [OF nth_mem [OF assms(2)]])
  have b: "unat q' < 2 ^ 63" if "q' \<le> rg_producer (ss_region s)" for q'
    using that position_bounds(1) [OF assms(1)] by (simp add: word_le_nat_alt)
  have diff: "slot_at r q' \<noteq> slot_at r q" if "q' \<le> rg_producer (ss_region s)" "q' \<noteq> q" "seq_at r (ss_region s) q' = encode_sequence q' st'" for q' st'
    using same_slot [OF assms(1,3) b [OF that(1)] _ assms(5) that(3)] that(2) by blast
  show ?thesis
  proof (cases "ss_prod s ! j")
    case (Sp_cas k m q')
    show ?thesis
    proof (cases "rg_producer (ss_region s) = q'")
      case True
      with ok Sp_cas diff [of q' slot_reusable] assms(4) show ?thesis by (auto simp: upd_slot_other)
    qed (use ok Sp_cas in simp)
  next
    case (Sp_check m q')
    with ok assms(6) have "slot_at r q' \<noteq> slot_at r q" by (intro diff [of q' slot_reusable]) auto
    with ok Sp_check show ?thesis by (simp add: upd_slot_other)
  next
    case (Sp_write l m q')
    with ok assms(6) have "slot_at r q' \<noteq> slot_at r q" by (intro diff [of q' slot_reusable]) auto
    with ok Sp_write show ?thesis by (simp add: upd_slot_other)
  qed (use ok in simp_all)
qed

lemma sc_ok_other:
  assumes "shm_inv r s" "j < length (ss_cons s)" "unat q < 2 ^ 63" "seq_at r (ss_region s) q = encode_sequence q st"
    and "st = slot_published \<longrightarrow> q < rg_consumer (ss_region s) \<and> sc_holds (ss_cons s ! j) \<noteq> Some (unat q)"
  shows "sc_ok r (upd_slot r q f (ss_region s)) (ss_cons s ! j)"
proof -
  note inv = shm_invD [OF assms(1)]
  have ok: "sc_ok r (ss_region s) (ss_cons s ! j)" by (rule inv(9) [OF nth_mem [OF assms(2)]])
  have b: "unat q' < 2 ^ 63" if "q' \<le> rg_consumer (ss_region s)" for q'
    using that position_bounds(2) [OF assms(1)] by (simp add: word_le_nat_alt)
  have diff: "slot_at r q' \<noteq> slot_at r q" if "q' \<le> rg_consumer (ss_region s)" "seq_at r (ss_region s) q' = encode_sequence q' slot_published"
    "q' = q \<Longrightarrow> st \<noteq> slot_published" for q'
    using same_slot [OF assms(1,3) b [OF that(1)] _ assms(4) that(2)] that(3) by blast
  have view: "view_ok r (upd_slot r q f (ss_region s)) v" if "view_ok r (ss_region s) v" "sc_holds (ss_cons s ! j) = Some (unat (rv_position v))" for v
  proof -
    have "slot_at r (rv_position v) \<noteq> slot_at r q" using that assms(5) by (intro diff) (auto simp: view_ok_def)
    with that(1) show ?thesis by (simp add: view_ok_def upd_slot_other)
  qed
  show ?thesis
  proof (cases "ss_cons s ! j")
    case (Sc_cas k q')
    show ?thesis
    proof (cases "rg_consumer (ss_region s) = q'")
      case True
      with ok Sc_cas diff [of q'] assms(5) show ?thesis by (auto simp: upd_slot_other)
    qed (use ok Sc_cas in simp)
  next
    case (Sc_read q')
    with ok assms(5) have "slot_at r q' \<noteq> slot_at r q" by (intro diff) auto
    with ok Sc_read show ?thesis by (simp add: upd_slot_other)
  qed (use ok view in simp_all)
qed

lemma fill_inv:
  assumes "shm_inv r s" "i < length (ss_prod s)" "ss_prod s ! i = Sp_write j m q" "j < 4"
  shows "shm_inv r (s\<lparr>ss_region := upd_slot r q (fill j m) (ss_region s), ss_prod := (ss_prod s)[i := Sp_write (Suc j) m q]\<rparr>)"
    (is "shm_inv r ?s")
proof -
  note inv = shm_invD [OF assms(1)]
  let ?g = "upd_slot r q (fill j m) (ss_region s)"
  have ok: "q < rg_producer (ss_region s)" "ss_log s ! unat q = m" "seq_at r (ss_region s) q = encode_sequence q slot_reusable"
    "filled j m (rg_slots (ss_region s) ! slot_at r q)"
    using inv(8) [OF nth_mem [OF assms(2)]] assms(3) by auto
  have qb: "unat q < 2 ^ 63" "unat q < length (ss_log s)"
    using ok(1) position_bounds(1) [OF assms(1)] inv(3) by (simp_all add: word_less_nat_alt)
  have mo: "length (mg_bytes m) \<le> unat (max_payload_size r)" using inv(6) [OF nth_mem [OF qb(2)]] ok(2) by (simp add: msg_ok_def)
  note sl = slot_length [OF assms(1), of q]
  note ff = fill_filled [OF ok(4) _ assms(4), unfolded sl(2), OF mo]
  have seq: "seq_at r ?g q' = seq_at r (ss_region s) q'" for q'
    using upd_slot_other(2) [of r q' q] upd_slot_same [OF sl(1), of q'] by (cases "slot_at r q' = slot_at r q") (auto simp: seq_at_def)
  have h: "holds sp_holds ((ss_prod s)[i := Sp_write (Suc j) m q]) k = holds sp_holds (ss_prod s) k" for k
    using holds_update [OF assms(2), of sp_holds "Sp_write (Suc j) m q" k] assms(3) by auto
  have slots: "slots_ok r ?s"
  proof (rule slots_okI [OF inv(7)])
    fix q' st assume q': "slot_ok r s q' st" "seq_at r (ss_region s) q' = encode_sequence q' st"
    have "slot_at r q' \<noteq> slot_at r q" if "st = slot_published"
      using same_slot [OF assms(1) qb(1) slot_okD(1) [OF q'(1)] _ ok(3) q'(2)] that by auto
    then have "slot_ok r ?s q' st" using q'(1) h upd_slot_other(1) [of r q' q] by (auto simp: slot_ok_def Let_def)
    with q'(2) seq show "\<exists>q'' st'. slot_at r q'' = slot_at r q' \<and> seq_at r (ss_region ?s) q'' = encode_sequence q'' st' \<and> slot_ok r ?s q'' st'"
      by auto
  next
    fix k assume "k < length (rg_slots (ss_region s))"
    then show "length (sl_payload (rg_slots (ss_region ?s) ! k)) = length (sl_payload (rg_slots (ss_region s) ! k))"
      using ff(2) sl(2) by (cases "k = slot_at r q") (simp_all add: upd_slot_def)
  qed simp
  have P: "sp_ok r ?g (ss_log s) ((ss_prod s)[i := Sp_write (Suc j) m q] ! k)" if "k < length (ss_prod s)" for k
  proof (cases "k = i")
    case True
    then show ?thesis using ok ff(1) sl upd_slot_same [OF sl(1), of q] assms(2) seq by simp
  next
    case False
    then have "sp_holds (ss_prod s ! k) \<noteq> Some (unat q)" using holds_one [OF inv(10) that assms(2), of "unat q"] assms(3) by auto
    from sp_ok_other [OF assms(1) that qb(1) ok(1,3) this] False show ?thesis by simp
  qed
  have C: "sc_ok r ?g (ss_cons s ! k)" if "k < length (ss_cons s)" for k
    using sc_ok_other [OF assms(1) that qb(1) ok(3)] by simp
  show ?thesis
    by (rule shm_invI) (use inv slots P C h in auto)
qed

text \<open>The store that publishes the slot.\<close>

lemma publish_inv:
  assumes "shm_inv r s" "i < length (ss_prod s)" "ss_prod s ! i = Sp_write j m q" "4 \<le> j"
  shows "shm_inv r (s\<lparr>ss_region := upd_slot r q (\<lambda>sl. sl\<lparr>sl_sequence := encode_sequence q slot_published\<rparr>) (ss_region s),
      ss_prod := (ss_prod s)[i := Sp_ret ec_done]\<rparr>)" (is "shm_inv r ?s")
proof -
  note inv = shm_invD [OF assms(1)]
  let ?g = "upd_slot r q (\<lambda>sl. sl\<lparr>sl_sequence := encode_sequence q slot_published\<rparr>) (ss_region s)"
  have ok: "q < rg_producer (ss_region s)" "ss_log s ! unat q = m" "seq_at r (ss_region s) q = encode_sequence q slot_reusable"
    "filled 4 m (rg_slots (ss_region s) ! slot_at r q)"
    using inv(8) [OF nth_mem [OF assms(2)]] assms(3,4) by (auto simp: filled_def)
  have qb: "unat q < 2 ^ 63" using ok(1) position_bounds(1) [OF assms(1)] by (simp add: word_less_nat_alt)
  note sl = slot_length [OF assms(1), of q] note o = slot_okD [OF slot_at_position [OF assms(1) qb ok(3)]]
  have h: "k \<noteq> unat q \<Longrightarrow> holds sp_holds ((ss_prod s)[i := Sp_ret ec_done]) k = holds sp_holds (ss_prod s) k"
    "holds sp_holds ((ss_prod s)[i := Sp_ret ec_done]) k \<le> holds sp_holds (ss_prod s) k" for k
    using holds_update [OF assms(2), of sp_holds "Sp_ret ec_done" k] assms(3) by (auto split: if_splits)
  have slots: "slots_ok r ?s"
  proof (rule slots_okI [OF inv(7)])
    fix q' st assume q': "slot_ok r s q' st" "seq_at r (ss_region s) q' = encode_sequence q' st"
    show "\<exists>q'' st'. slot_at r q'' = slot_at r q' \<and> seq_at r (ss_region ?s) q'' = encode_sequence q'' st' \<and> slot_ok r ?s q'' st'"
    proof (cases "slot_at r q' = slot_at r q")
      case True
      have new: "rg_slots ?g ! slot_at r q = (rg_slots (ss_region s) ! slot_at r q)\<lparr>sl_sequence := encode_sequence q slot_published\<rparr>"
        using upd_slot_same [OF sl(1)] by simp
      then have "slot_ok r ?s q slot_published"
        using o(1-4) ok(1,2,4) by (auto simp: slot_ok_def Let_def filled_def)
      moreover have "seq_at r ?g q = encode_sequence q slot_published" using new by (simp add: seq_at_def)
      ultimately show ?thesis using True by auto
    next
      case False
      then have "unat q' \<noteq> unat q" by (auto simp: word_unat_eq_iff [symmetric])
      then have "slot_ok r ?s q' st" using q'(1) h(1) [of "unat q'"] upd_slot_other(1) [OF False] by (simp add: slot_ok_def Let_def)
      moreover have "seq_at r ?g q' = encode_sequence q' st" using q'(2) upd_slot_other(2) [OF False] by simp
      ultimately show ?thesis by auto
    qed
  next
    fix k assume "k < length (rg_slots (ss_region s))"
    then show "length (sl_payload (rg_slots (ss_region ?s) ! k)) = length (sl_payload (rg_slots (ss_region s) ! k))"
      by (cases "k = slot_at r q") (simp_all add: upd_slot_def)
  qed simp
  have P: "sp_ok r ?g (ss_log s) ((ss_prod s)[i := Sp_ret ec_done] ! k)" if "k < length (ss_prod s)" for k
  proof (cases "k = i")
    case False
    then have "sp_holds (ss_prod s ! k) \<noteq> Some (unat q)" using holds_one [OF inv(10) that assms(2), of "unat q"] assms(3) by auto
    from sp_ok_other [OF assms(1) that qb ok(1,3) this] False show ?thesis by simp
  qed (use assms(2) in simp)
  have C: "sc_ok r ?g (ss_cons s ! k)" if "k < length (ss_cons s)" for k
    using sc_ok_other [OF assms(1) that qb ok(3)] by simp
  show ?thesis
    by (rule shm_invI) (use inv slots P C le_trans [OF h(2) inv(10)] in auto)
qed

text \<open>The compare-and-exchange that claims a position.\<close>

lemma claim_inv:
  assumes "shm_inv r s" "i < length (ss_cons s)" "ss_cons s ! i = Sc_cas k q" "rg_consumer (ss_region s) = q"
  shows "shm_inv r (s\<lparr>ss_region := (ss_region s)\<lparr>rg_consumer := q + 1\<rparr>, ss_cons := (ss_cons s)[i := Sc_read q]\<rparr>)" (is "shm_inv r ?s")
proof -
  note inv = shm_invD [OF assms(1)]
  have sq: "seq_at r (ss_region s) q = encode_sequence q slot_published"
    using inv(9) [OF nth_mem [OF assms(2)]] assms(3,4) by auto
  have qb: "unat q < 2 ^ 63" using position_bounds(2) [OF assms(1)] assms(4) by simp
  have lt: "q < rg_producer (ss_region s)" by (rule slot_okD(6) [OF slot_at_position [OF assms(1) qb sq] refl])
  have q1: "unat (q + 1) = Suc (unat q)" using qb by (simp add: unat_word_ariths)
  have none: "holds sc_holds (ss_cons s) (unat q) = 0" using holds_none_above(2) [OF assms(1), of "unat q"] assms(4) by simp
  have h: "holds sc_holds ((ss_cons s)[i := Sc_read q]) k = holds sc_holds (ss_cons s) k + (if k = unat q then 1 else 0)"
    "holds sc_reading ((ss_cons s)[i := Sc_read q]) k = holds sc_reading (ss_cons s) k + (if k = unat q then 1 else 0)" for k
    using holds_update [OF assms(2), of sc_holds "Sc_read q" k] holds_update [OF assms(2), of sc_reading "Sc_read q" k] assms(3) by auto
  have slots: "slots_ok r ?s"
  proof (rule slots_okI [OF inv(7)])
    fix q' st assume q': "slot_ok r s q' st" "seq_at r (ss_region s) q' = encode_sequence q' st"
    note o = slot_okD [OF q'(1)]
    have ne: "q' \<noteq> q" if "st = slot_reusable" using same_slot [OF assms(1) qb o(1) _ sq q'(2)] that by auto
    then have "q + 1 \<le> q'" if "st = slot_reusable"
      using o(4) [OF that] ne [OF that] assms(4) q1 by (simp add: word_le_nat_alt word_unat_eq_iff)
    moreover have "q' < q + 1 \<Longrightarrow> q' = q \<or> q' < q" using q1 by (auto simp: word_less_nat_alt word_unat_eq_iff)
    ultimately have "slot_ok r ?s q' st" using o h(1) assms(4) q1 by (auto simp: slot_ok_def Let_def)
    with q'(2) show "\<exists>q'' st'. slot_at r q'' = slot_at r q' \<and> seq_at r (ss_region ?s) q'' = encode_sequence q'' st' \<and> slot_ok r ?s q'' st'"
      by auto
  qed simp_all
  have P: "sp_ok r ((ss_region s)\<lparr>rg_consumer := q + 1\<rparr>) (ss_log s) (ss_prod s ! j)" if "j < length (ss_prod s)" for j
    using inv(8) [OF nth_mem [OF that]] by (cases "ss_prod s ! j") auto
  have C: "sc_ok r ((ss_region s)\<lparr>rg_consumer := q + 1\<rparr>) ((ss_cons s)[i := Sc_read q] ! j)" if "j < length (ss_cons s)" for j
    using inv(9) [OF nth_mem [OF that]] assms(2,4) q1 sq
    by (cases "j = i"; cases "ss_cons s ! j") (auto simp: view_ok_def word_le_nat_alt word_less_nat_alt)
  have le: "q + 1 \<le> rg_producer (ss_region s)" using lt q1 by (simp add: word_le_nat_alt word_less_nat_alt)
  have R: "holds sc_reading ((ss_cons s)[i := Sc_read q]) k + holds (\<lambda>x. Some (fst x)) (ss_seen s) k = of_bool (k < unat (q + 1))" for k
    using inv(13) [of k] h(2) [of k] q1 assms(4) by (auto simp: of_bool_def split: if_splits)
  show ?thesis
    by (rule shm_invI) (use inv slots P C R le h(1) none in \<open>auto split: if_splits\<close>)
qed

text \<open>What a claimed slot shows is the message it was reserved for.\<close>

lemma claimed_message:
  assumes "shm_inv r s" "unat q < 2 ^ 63" "seq_at r (ss_region s) q = encode_sequence q slot_published"
  shows "\<not> metadata_corrupted r (rg_slots (ss_region s) ! slot_at r q)"
    "view_msg (ss_region s) (view_of r (ss_region s) q) = ss_log s ! unat q"
proof -
  note inv = shm_invD [OF assms(1)]
  let ?m = "ss_log s ! unat q"
  note o = slot_okD [OF slot_at_position [OF assms]]
  have "unat q < length (ss_log s)" using o(6) inv(3) by (simp add: word_less_nat_alt)
  then have ok: "msg_ok r ?m" by (intro inv(6) nth_mem)
  have f: "filled 4 ?m (rg_slots (ss_region s) ! slot_at r q)" by (rule o(7) [OF refl])
  have "length (mg_bytes ?m) < 2 ^ 32" using ok ring_geometry(5) [OF inv(1)] by (simp add: msg_ok_def)
  then have size: "unat (ucast (of_nat (length (mg_bytes ?m)) :: u32) :: u64) = length (mg_bytes ?m)"
    by (simp add: unsigned_ucast_eq take_bit_eq_mod unat_of_nat)
  show "\<not> metadata_corrupted r (rg_slots (ss_region s) ! slot_at r q)"
    using ok f size by (simp add: metadata_corrupted_def filled_def msg_ok_def word_less_nat_alt)
  show "view_msg (ss_region s) (view_of r (ss_region s) q) = ?m"
    using f size by (simp add: view_msg_def view_of_def filled_def Let_def)
qed

lemma read_inv:
  assumes "shm_inv r s" "i < length (ss_cons s)" "ss_cons s ! i = Sc_read q"
  shows "shm_inv r (s\<lparr>ss_cons := (ss_cons s)[i := Sc_view (view_of r (ss_region s) q)],
      ss_seen := ss_seen s @ [(unat q, view_msg (ss_region s) (view_of r (ss_region s) q))]\<rparr>)" (is "shm_inv r ?s")
proof -
  note inv = shm_invD [OF assms(1)]
  let ?c = "Sc_view (view_of r (ss_region s) q)"
  have pos: "rv_position (view_of r (ss_region s) q) = q" by (simp add: view_of_def Let_def)
  have ok: "q < rg_consumer (ss_region s)" "seq_at r (ss_region s) q = encode_sequence q slot_published"
    using inv(9) [OF nth_mem [OF assms(2)]] assms(3) by auto
  have qb: "unat q < 2 ^ 63" using ok(1) position_bounds(2) [OF assms(1)] by (simp add: word_less_nat_alt)
  note m = claimed_message(2) [OF assms(1) qb ok(2)]
  have h: "holds sc_holds ((ss_cons s)[i := ?c]) k = holds sc_holds (ss_cons s) k"
    "holds sc_reading ((ss_cons s)[i := ?c]) k + (if k = unat q then 1 else 0) = holds sc_reading (ss_cons s) k" for k
    using holds_update [OF assms(2), of sc_holds ?c k] holds_update [OF assms(2), of sc_reading ?c k] assms(3) pos by auto
  have slots: "slots_ok r ?s"
    by (rule slots_okI [OF inv(7)]) (simp_all, auto simp: slot_ok_def h)
  have C: "sc_ok r (ss_region s) ((ss_cons s)[i := ?c] ! j)" if "j < length (ss_cons s)" for j
    using inv(9) [OF nth_mem [OF that]] assms(2) ok pos by (cases "j = i") (auto simp: view_ok_def)
  have R: "holds sc_reading ((ss_cons s)[i := ?c]) k + holds (\<lambda>x. Some (fst x)) (ss_seen ?s) k = of_bool (k < unat (rg_consumer (ss_region s)))" for k
    using inv(13) [of k] h(2) [of k] ok(1) by (auto simp: word_less_nat_alt split: if_splits)
  show ?thesis
    by (rule shm_invI) (use inv slots C R h(1) m in auto)
qed

text \<open>The store that gives the slot back for its next position, or the end of its life.\<close>

lemma releasing:
  assumes "shm_inv r s" "i < length (ss_cons s)" "ss_cons s ! i = Sc_store v"
  shows "rv_position v < rg_consumer (ss_region s)" "unat (rv_position v) < 2 ^ 63" "rv_position v < rg_producer (ss_region s)"
    "seq_at r (ss_region s) (rv_position v) = encode_sequence (rv_position v) slot_published"
    "k \<noteq> unat (rv_position v) \<Longrightarrow> holds sc_holds ((ss_cons s)[i := Sc_idle]) k = holds sc_holds (ss_cons s) k"
    "holds sc_holds ((ss_cons s)[i := Sc_idle]) k \<le> holds sc_holds (ss_cons s) k"
    "holds sc_reading ((ss_cons s)[i := Sc_idle]) k = holds sc_reading (ss_cons s) k"
proof -
  show ok: "rv_position v < rg_consumer (ss_region s)"
    "seq_at r (ss_region s) (rv_position v) = encode_sequence (rv_position v) slot_published"
    using shm_invD(9) [OF assms(1) nth_mem [OF assms(2)]] assms(3) by (auto simp: view_ok_def)
  then show "unat (rv_position v) < 2 ^ 63" "rv_position v < rg_producer (ss_region s)"
    using position_bounds(2,3) [OF assms(1)] by (simp_all add: word_less_nat_alt)
  show "k \<noteq> unat (rv_position v) \<Longrightarrow> holds sc_holds ((ss_cons s)[i := Sc_idle]) k = holds sc_holds (ss_cons s) k"
    "holds sc_holds ((ss_cons s)[i := Sc_idle]) k \<le> holds sc_holds (ss_cons s) k"
    "holds sc_reading ((ss_cons s)[i := Sc_idle]) k = holds sc_reading (ss_cons s) k"
    using holds_update [OF assms(2), of sc_holds Sc_idle k] holds_update [OF assms(2), of sc_reading Sc_idle k] assms(3)
    by (auto split: if_splits)
qed

text \<open>The slot has no next position: nothing is stored.\<close>

lemma give_back_slots_dead:
  assumes "shm_inv r s" "i < length (ss_cons s)" "ss_cons s ! i = Sc_store v"
    and "unat maximum_position < unat (rv_position v) + unat (rt_slot_count r)"
  shows "slots_ok r (s\<lparr>ss_cons := (ss_cons s)[i := Sc_idle]\<rparr>)" (is "slots_ok r ?s")
proof (rule slots_okI [OF shm_invD(7) [OF assms(1)]])
  fix q' st assume q': "slot_ok r s q' st" "seq_at r (ss_region s) q' = encode_sequence q' st"
  have "slot_ok r ?s q' st"
    using q'(1) releasing(5) [OF assms(1-3), of "unat q'"] assms(4) by (cases "unat q' = unat (rv_position v)") (auto simp: slot_ok_def Let_def)
  with q'(2) show "\<exists>q'' st'. slot_at r q'' = slot_at r q' \<and> seq_at r (ss_region ?s) q'' = encode_sequence q'' st' \<and> slot_ok r ?s q'' st'" by auto
qed simp_all

lemma give_back_slots:
  assumes "shm_inv r s" "i < length (ss_cons s)" "ss_cons s ! i = Sc_store v"
  defines "q \<equiv> rv_position v" and "n \<equiv> rt_slot_count r"
  assumes sum: "unat q + unat n \<le> unat maximum_position"
  shows "slots_ok r (s\<lparr>ss_region := upd_slot r q (\<lambda>sl. sl\<lparr>sl_sequence := encode_sequence (q + n) slot_reusable\<rparr>) (ss_region s),
      ss_cons := (ss_cons s)[i := Sc_idle]\<rparr>)" (is "slots_ok r ?s")
proof (rule slots_okI [OF shm_invD(7) [OF assms(1)]])
  note inv = shm_invD [OF assms(1)] note rel = releasing [OF assms(1-3), folded q_def]
  note sl = slot_length [OF assms(1), of q] note o = slot_okD [OF slot_at_position [OF assms(1) rel(2,4)]]
  have nxt: "unat (q + n) = unat q + unat n" using sum unat_maximum_position by (simp add: unat_word_ariths)
  have slot: "slot_at r (q + n) = slot_at r q" using ring_geometry(3) [OF inv(1)] nxt by (simp add: n_def)
  have ready: "slot_ok r ?s (q + n) slot_reusable"
    using o(2) rel(1) position_bounds(3) [OF assms(1)] sum nxt unat_maximum_position
    by (auto simp: slot_ok_def Let_def word_le_nat_alt word_less_nat_alt n_def)
  fix q' st assume q': "slot_ok r s q' st" "seq_at r (ss_region s) q' = encode_sequence q' st"
  show "\<exists>q'' st'. slot_at r q'' = slot_at r q' \<and> seq_at r (ss_region ?s) q'' = encode_sequence q'' st' \<and> slot_ok r ?s q'' st'"
  proof (cases "slot_at r q' = slot_at r q")
    case True
    have "seq_at r (ss_region ?s) (q + n) = encode_sequence (q + n) slot_reusable"
      using upd_slot_same [OF sl(1) slot] by (simp add: seq_at_def)
    with ready slot True show ?thesis by metis
  next
    case False
    then have "unat q' \<noteq> unat q" by (auto simp: word_unat_eq_iff [symmetric])
    then have "slot_ok r ?s q' st"
      using q'(1) rel(5) [of "unat q'"] upd_slot_other(1) [OF False] by (simp add: slot_ok_def Let_def)
    moreover have "seq_at r (ss_region ?s) q' = encode_sequence q' st" using q'(2) upd_slot_other(2) [OF False] by simp
    ultimately show ?thesis by blast
  qed
next
  fix k assume "k < length (rg_slots (ss_region s))"
  then show "length (sl_payload (rg_slots (ss_region ?s) ! k)) = length (sl_payload (rg_slots (ss_region s) ! k))"
    by (cases "k = slot_at r q") (simp_all add: upd_slot_def)
qed simp

lemma give_back_inv:
  assumes "shm_inv r s" "i < length (ss_cons s)" "ss_cons s ! i = Sc_store v"
  shows "shm_inv r (s\<lparr>ss_region := give_back r (rv_position v) (ss_region s), ss_cons := (ss_cons s)[i := Sc_idle]\<rparr>)" (is "shm_inv r ?s")
proof -
  note inv = shm_invD [OF assms(1)] note rel = releasing [OF assms]
  let ?n = "rt_slot_count r" let ?q = "rv_position v"
  have n: "unat (maximum_position - ?n) = unat maximum_position - unat ?n" "unat ?n \<le> unat maximum_position"
    using ring_geometry(2) [OF inv(1)] unat_maximum_position by (simp_all add: unat_sub word_le_nat_alt)
  have other: "sc_holds (ss_cons s ! k) \<noteq> Some (unat ?q)" if "k < length (ss_cons s)" "k \<noteq> i" for k
    using holds_one [OF inv(11) that(1) assms(2), of "unat ?q"] assms(3) that(2) by auto
  have unheld: "sp_holds (ss_prod s ! k) \<noteq> Some (unat ?q)" if "k < length (ss_prod s)" for k
    using producer_holds [OF assms(1) that, of "unat ?q"] rel(4) encode_sequence_eq_iff [OF rel(2) rel(2)] by (auto simp: word_unat_eq_iff [symmetric])
  have P: "sp_ok r (ss_region ?s) (ss_log s) (ss_prod s ! k)" if "k < length (ss_prod s)" for k
    using inv(8) [OF nth_mem [OF that]] sp_ok_other [OF assms(1) that rel(2,3,4) unheld [OF that]] by (simp add: give_back_def)
  have C: "sc_ok r (ss_region ?s) (ss_cons ?s ! k)" if "k < length (ss_cons s)" for k
    using inv(9) [OF nth_mem [OF that]] sc_ok_other [OF assms(1) that rel(2,4)] other [OF that] rel(1) assms(2)
    by (cases "k = i") (auto simp: give_back_def)
  have S: "slots_ok r ?s"
    using give_back_slots_dead [OF assms] give_back_slots [OF assms] n
    by (cases "?q \<le> maximum_position - ?n") (simp_all add: give_back_def word_le_nat_alt)
  have same: "rg_producer (ss_region ?s) = rg_producer (ss_region s)" "rg_consumer (ss_region ?s) = rg_consumer (ss_region s)"
    by (simp_all add: give_back_def)
  show ?thesis
    by (rule shm_invI) (use inv S P C same le_trans [OF rel(6) inv(11)] rel(7) in auto)
qed

lemma sys_same_region [simp]:
  "s\<lparr>ss_region := ss_region s, ss_prod := ps, ss_log := ss_log s\<rparr> = s\<lparr>ss_prod := ps\<rparr>"
  "s\<lparr>ss_region := ss_region s, ss_cons := cs, ss_seen := ss_seen s\<rparr> = s\<lparr>ss_cons := cs\<rparr>"
  "s\<lparr>ss_region := ss_region s, ss_cons := cs, ss_seen := l\<rparr> = s\<lparr>ss_cons := cs, ss_seen := l\<rparr>"
  "s\<lparr>ss_region := g, ss_prod := ps, ss_log := ss_log s\<rparr> = s\<lparr>ss_region := g, ss_prod := ps\<rparr>"
  "s\<lparr>ss_region := g, ss_cons := cs, ss_seen := ss_seen s\<rparr> = s\<lparr>ss_region := g, ss_cons := cs\<rparr>"
  by (cases s; simp)+

lemma is_previous_generationI:
  "rt_slot_count r \<le> q \<Longrightarrow> seq = encode_sequence (previous_generation r q) st \<Longrightarrow> is_previous_generation r seq q"
  by (cases st) (simp_all add: is_previous_generation_def Let_def not_less [symmetric])

lemma produce_inv:
  assumes "shm_inv r s" "i < length (ss_prod s)" "sp_step r w (ss_region s) (ss_prod s ! i) = Inr (g', p')"
  shows "shm_inv r (s\<lparr>ss_region := g', ss_prod := (ss_prod s)[i := p'], ss_log := ss_log s @ reserved_by (ss_prod s ! i) p'\<rparr>)"
proof -
  note inv = shm_invD [OF assms(1)] note loc = producer_local [OF assms(1,2)]
  have ok: "sp_ok r (ss_region s) (ss_log s) (ss_prod s ! i)" by (rule inv(8) [OF nth_mem [OF assms(2)]])
  show ?thesis
  proof (cases "ss_prod s ! i")
    case (Sp_load k m)
    with assms(3) ok loc [of p'] show ?thesis by (cases k) auto
  next
    case (Sp_seq k m q)
    have "rg_producer (ss_region s) = q \<Longrightarrow> seq_at r (ss_region s) q \<noteq> encode_sequence q slot_reusable \<Longrightarrow>
        is_previous_generation r (seq_at r (ss_region s) q) q"
      using producer_slot [OF assms(1)] is_previous_generationI by blast
    with Sp_seq assms(3) ok loc [of p'] show ?thesis by auto
  next
    case (Sp_reload k m q sq)
    with assms(3) ok loc [of p'] show ?thesis by auto
  next
    case (Sp_cas k m q)
    with assms(3) ok loc [of p'] reserve_inv [OF assms(1,2) Sp_cas] show ?thesis by (auto split: if_splits)
  next
    case (Sp_check m q)
    with assms(3) ok loc [of p'] show ?thesis by (auto simp: filled_def split: if_splits)
  next
    case (Sp_write j m q)
    with assms(3) ok fill_inv [OF assms(1,2) Sp_write] publish_inv [OF assms(1,2) Sp_write] show ?thesis
      by (auto split: if_splits)
  next
    case Sp_idle
    with assms(3) ok loc [of p'] show ?thesis by clarsimp
  next
    case (Sp_ret e)
    with assms(3) have "g' = ss_region s" "p' = Sp_ret e" by simp_all
    with loc [of "Sp_ret e"] Sp_ret show ?thesis by simp
  qed
qed

lemma view_okD:
  assumes "view_ok r g v"
  shows "rv_position v < rg_consumer g" "seq_at r g (rv_position v) = encode_sequence (rv_position v) slot_published"
    "rv_shared_slot v = Some (slot_at r (rv_position v))" "v = view_of r g (rv_position v)"
proof -
  show v: "v = view_of r g (rv_position v)" using assms unfolding view_ok_def by blast
  have "rv_shared_slot (view_of r g q) = Some (slot_at r q)" for q by (simp add: view_of_def Let_def)
  with v show "rv_shared_slot v = Some (slot_at r (rv_position v))" by metis
  show "rv_position v < rg_consumer g" "seq_at r g (rv_position v) = encode_sequence (rv_position v) slot_published"
    using assms unfolding view_ok_def by blast+
qed

lemma consume_inv:
  assumes "shm_inv r s" "i < length (ss_cons s)" "sc_step r w (ss_region s) (ss_cons s ! i) = Inr (g', c')"
  shows "shm_inv r (s\<lparr>ss_region := g', ss_cons := (ss_cons s)[i := c'], ss_seen := ss_seen s @ shown_to g' (ss_cons s ! i) c'\<rparr>)"
proof -
  note inv = shm_invD [OF assms(1)] note loc = consumer_local [OF assms(1,2)]
  have ok: "sc_ok r (ss_region s) (ss_cons s ! i)" by (rule inv(9) [OF nth_mem [OF assms(2)]])
  show ?thesis
  proof (cases "ss_cons s ! i")
    case (Sc_load k)
    with assms(3) ok loc [of c'] show ?thesis by (cases k) auto
  next
    case (Sc_seq k q)
    have "seq_at r (ss_region s) q = encode_sequence q slot_reusable
        \<or> rt_slot_count r \<le> q \<and> seq_at r (ss_region s) q = encode_sequence (previous_generation r q) slot_published"
      if "rg_consumer (ss_region s) = q" "seq_at r (ss_region s) q \<noteq> encode_sequence q slot_published"
      using unpublished_slot [OF assms(1)] that by blast
    with Sc_seq assms(3) ok loc [of c'] show ?thesis by auto
  next
    case (Sc_reload k q sq)
    with assms(3) ok loc [of c'] show ?thesis by (auto split: if_splits)
  next
    case (Sc_cas k q)
    with assms(3) ok loc [of c'] claim_inv [OF assms(1,2) Sc_cas] show ?thesis by (auto split: if_splits)
  next
    case (Sc_read q)
    with assms(3) ok read_inv [OF assms(1,2) Sc_read] show ?thesis by (auto split: if_splits)
  next
    case (Sc_check v)
    with ok have "view_ok r (ss_region s) v" by simp
    with view_okD(2,3) [OF this] Sc_check assms(3) loc [of c'] show ?thesis by (clarsimp split: if_splits)
  next
    case (Sc_store v)
    with assms(3) have "g' = give_back r (rv_position v) (ss_region s)" "c' = Sc_idle" by simp_all
    with give_back_inv [OF assms(1,2) Sc_store] Sc_store show ?thesis by simp
  next
    case Sc_idle
    with assms(3) ok loc [of c'] show ?thesis by clarsimp
  next
    case (Sc_view v)
    with assms(3) have "g' = ss_region s" "c' = Sc_view v" by simp_all
    with loc [of "Sc_view v"] Sc_view ok show ?thesis by simp
  qed
qed

text \<open>Nothing throws: the states that the code reports as corrupted do not occur.\<close>

lemma no_producer_fault:
  assumes "shm_inv r s" "i < length (ss_prod s)"
  shows "sp_step r w (ss_region s) (ss_prod s ! i) \<noteq> Inl e"
proof (cases "ss_prod s ! i")
  case (Sp_load k m)
  then show ?thesis by (cases k) auto
next
  case (Sp_check m q)
  with shm_invD(8) [OF assms(1) nth_mem [OF assms(2)]] show ?thesis by simp
qed auto

lemma no_consumer_fault:
  assumes "shm_inv r s" "i < length (ss_cons s)"
  shows "sc_step r w (ss_region s) (ss_cons s ! i) \<noteq> Inl e"
proof -
  have ok: "sc_ok r (ss_region s) (ss_cons s ! i)" by (rule shm_invD(9) [OF assms(1) nth_mem [OF assms(2)]])
  show ?thesis
  proof (cases "ss_cons s ! i")
    case (Sc_load k)
    then show ?thesis by (cases k) auto
  next
    case (Sc_read q)
    then have "unat q < 2 ^ 63" using ok position_bounds(2) [OF assms(1)] by (simp add: word_less_nat_alt)
    with claimed_message(1) [OF assms(1), of q] ok Sc_read show ?thesis by auto
  qed (use ok view_okD(2) [of r "ss_region s"] in \<open>auto split: if_splits\<close>)
qed

lemma initialize_inv:
  assumes "initialize raw region (rt_slot_count r) (rt_slot_size r) = Inr g" "\<forall>i. length (raw i) = unat (max_payload_size r)"
  shows "shm_inv r \<lparr>ss_region = g, ss_prod = replicate np Sp_idle, ss_cons = replicate nc Sc_idle, ss_log = [], ss_seen = [], ss_fault = None\<rparr>"
    (is "shm_inv r ?s")
proof -
  let ?n = "rt_slot_count r"
  have req: "required_size ?n (rt_slot_size r) \<noteq> 0"
    and g: "rg_producer g = 0" "rg_consumer g = 0" "length (rg_slots g) = unat ?n"
      "\<And>i. i < unat ?n \<Longrightarrow> rg_slots g ! i = \<lparr>sl_sequence = encode_sequence (of_nat i AND (?n - 1)) slot_reusable, sl_payload_size = 0,
         sl_imm_data = 0, sl_source = -1, sl_payload = raw i\<rparr>"
    using assms(1) by (auto simp: initialize_def initialize_at_def Let_def bind_assert split: if_splits)
  note geo = ring_geometry [OF req]
  have u: "unat (of_nat i :: u64) = i" if "i < unat ?n" for i using that geo(2) by (simp add: unat_of_nat)
  have at: "slot_at r (of_nat i) = i" if "i < unat ?n" for i using geo(3) u [OF that] that by simp
  have mask: "of_nat i AND (?n - 1) = (of_nat i :: u64)" if "i < unat ?n" for i
    using at [OF that] u [OF that] by (simp add: slot_at_def word_unat_eq_iff)
  have "slot_at r (of_nat i) = i \<and> seq_at r g (of_nat i) = encode_sequence (of_nat i) slot_reusable \<and> slot_ok r ?s (of_nat i) slot_reusable"
    if "i < unat ?n" for i
    using that at [OF that] mask [OF that] g u [OF that] geo(2) by (simp add: seq_at_def slot_ok_def)
  then have "slots_ok r ?s" using g(3,4) assms(2) by (auto simp: slots_ok_def in_set_conv_nth)
  then show ?thesis using req g by (intro shm_invI) (simp_all add: holds_def)
qed

text \<open>What an attaching process checks, and what a poller learns before it takes packets.\<close>

lemma initialize_consistent:
  assumes "initialize raw region (rt_slot_count r) (rt_slot_size r) = Inr g"
  shows "is_consistent_empty r g"
proof -
  let ?n = "rt_slot_count r"
  have req: "required_size ?n (rt_slot_size r) \<noteq> 0"
    and g: "rg_producer g = 0" "rg_consumer g = 0"
      "\<And>i. i < unat ?n \<Longrightarrow> sl_sequence (rg_slots g ! i) = encode_sequence (of_nat i AND (?n - 1)) slot_reusable"
    using assms(1) by (auto simp: initialize_def initialize_at_def Let_def bind_assert split: if_splits)
  note geo = ring_geometry [OF req]
  have "seq_at r g (of_nat i) = encode_sequence (of_nat i) slot_reusable" if "i < unat ?n" for i
  proof -
    have u: "unat (of_nat i :: u64) = i" using that geo(2) by (simp add: unat_of_nat)
    then have at: "slot_at r (of_nat i) = i" using geo(3) that by simp
    then have "of_nat i AND (?n - 1) = (of_nat i :: u64)" using u by (simp add: slot_at_def word_unat_eq_iff)
    with at g(3) [OF that] show ?thesis by (simp add: seq_at_def)
  qed
  then show ?thesis using g by (simp add: is_consistent_empty_def)
qed

lemma reach_inv: "shm_reach r s \<Longrightarrow> shm_inv r s"
proof (induction rule: shm_reach.induct)
  case (init raw region g np nc)
  then show ?case by (intro initialize_inv) simp_all
next
  case (step s s')
  from step.hyps(2) step.IH show ?case
  proof cases
    case (send i null m)
    have "sp_ok r (ss_region s) (ss_log s) (sp_enter r null m)" by (auto simp: sp_enter_def post_refused_def msg_ok_def)
    moreover have "sp_holds (sp_enter r null m) = sp_holds (ss_prod s ! i)" using send(3) by (auto simp: sp_enter_def)
    ultimately show ?thesis using producer_local [OF step.IH send(2)] send(1) by simp
  next
    case (produce i w g' p')
    with produce_inv [OF step.IH] show ?thesis by simp
  next
    case (produce_fault i w e)
    with no_producer_fault [OF step.IH] show ?thesis by blast
  next
    case (poll i)
    with consumer_local [OF step.IH poll(2), of "Sc_load (rt_consumer_attempts r)"] show ?thesis by simp
  next
    case (consume i w g' c')
    with consume_inv [OF step.IH] show ?thesis by simp
  next
    case (consume_fault i w e)
    with no_consumer_fault [OF step.IH] show ?thesis by blast
  next
    case (release i v)
    with consumer_local [OF step.IH release(2), of "Sc_check v"] shm_invD(9) [OF step.IH nth_mem [OF release(2)]] show ?thesis by simp
  qed
qed

text \<open>No more positions are reserved and not yet claimed than there are slots.\<close>

lemma reserved_bound:
  assumes "shm_inv r s"
  shows "unat (rg_producer (ss_region s)) \<le> unat (rg_consumer (ss_region s)) + unat (rt_slot_count r)"
proof (rule ccontr)
  let ?n = "unat (rt_slot_count r)" let ?P = "rg_producer (ss_region s)" let ?C = "rg_consumer (ss_region s)"
  assume "\<not> unat ?P \<le> unat ?C + ?n"
  then have big: "unat ?C + ?n < unat ?P" by simp
  note geo = ring_geometry [OF shm_invD(1) [OF assms]]
  have "?C \<le> ?C" "?C < ?P" using big by (simp_all add: word_less_nat_alt)
  from window_slot [OF assms this] obtain st where "seq_at r (ss_region s) ?C = encode_sequence ?C st" by blast
  from slot_okD(2) [OF slot_at_position [OF assms position_bounds(2) [OF assms] this]] big show False by simp
qed

lemma available_exact:
  assumes "shm_inv r s"
  shows "unat (recv_available_approx r (ss_region s)) = length (ss_log s) - unat (rg_consumer (ss_region s))"
proof -
  let ?P = "rg_producer (ss_region s)" let ?C = "rg_consumer (ss_region s)"
  have "unat (?P - ?C) = unat ?P - unat ?C" using shm_invD(4) [OF assms] by (simp add: unat_sub)
  moreover from this have "?P - ?C \<le> rt_slot_count r" using reserved_bound [OF assms] by (simp add: word_le_nat_alt)
  ultimately show ?thesis using shm_invD(3) [OF assms] by (simp add: recv_available_approx_def min_def)
qed

lemma holds_fst_distinct: "(\<And>q. holds (\<lambda>x. Some (fst x)) l q \<le> 1) \<Longrightarrow> distinct (map fst l)"
proof (induction l)
  case (Cons x l)
  have "fst x \<notin> fst ` set l"
  proof
    assume "fst x \<in> fst ` set l"
    then obtain y where "y \<in> set l" "fst y = fst x" by (metis imageE)
    then have "0 < holds (\<lambda>x. Some (fst x)) l (fst x)" by (auto simp: holds_def filter_empty_conv)
    with Cons.prems [of "fst x"] show False by simp
  qed
  moreover have "holds (\<lambda>x. Some (fst x)) l q \<le> 1" for q using Cons.prems [of q] by (simp split: if_splits)
  ultimately show ?case using Cons.IH by simp
qed simp

section \<open>A schedule as a function\<close>

datatype shm_act = Act_send nat msg_t | Act_prod nat | Act_poll nat | Act_cons nat | Act_release nat

fun do_act :: "ring_t \<Rightarrow> shm_act \<Rightarrow> shm_sys \<Rightarrow> shm_sys" where
  "do_act r (Act_send i m) s = (if i < length (ss_prod s) \<and> ss_prod s ! i = Sp_idle
     then s\<lparr>ss_prod := (ss_prod s)[i := sp_enter r False m]\<rparr> else s)"
| "do_act r (Act_prod i) s = (if i < length (ss_prod s) then
     (case sp_step r (\<lambda>_. True) (ss_region s) (ss_prod s ! i) of Inl e \<Rightarrow> s\<lparr>ss_fault := Some e\<rparr>
      | Inr (g', p') \<Rightarrow> s\<lparr>ss_region := g', ss_prod := (ss_prod s)[i := p'], ss_log := ss_log s @ reserved_by (ss_prod s ! i) p'\<rparr>) else s)"
| "do_act r (Act_poll i) s = (if i < length (ss_cons s) \<and> ss_cons s ! i = Sc_idle
     then s\<lparr>ss_cons := (ss_cons s)[i := Sc_load (rt_consumer_attempts r)]\<rparr> else s)"
| "do_act r (Act_cons i) s = (if i < length (ss_cons s) then
     (case sc_step r (\<lambda>_. True) (ss_region s) (ss_cons s ! i) of Inl e \<Rightarrow> s\<lparr>ss_fault := Some e\<rparr>
      | Inr (g', c') \<Rightarrow> s\<lparr>ss_region := g', ss_cons := (ss_cons s)[i := c'], ss_seen := ss_seen s @ shown_to g' (ss_cons s ! i) c'\<rparr>) else s)"
| "do_act r (Act_release i) s = (if i < length (ss_cons s) then
     (case ss_cons s ! i of Sc_view v \<Rightarrow> s\<lparr>ss_cons := (ss_cons s)[i := Sc_check v]\<rparr> | _ \<Rightarrow> s) else s)"

lemma do_act_reach: "shm_reach r s \<Longrightarrow> shm_reach r (do_act r a s)"
proof (cases a)
  case (Act_send i m)
  assume "shm_reach r s"
  with Act_send show ?thesis by (auto intro: shm_reach.step shm_step.send)
next
  case (Act_prod i)
  assume s: "shm_reach r s"
  with Act_prod show ?thesis
    by (auto intro: shm_reach.step shm_step.produce shm_step.produce_fault split: sum.splits)
next
  case (Act_poll i)
  assume "shm_reach r s"
  with Act_poll show ?thesis by (auto intro: shm_reach.step shm_step.poll)
next
  case (Act_cons i)
  assume "shm_reach r s"
  with Act_cons show ?thesis
    by (auto intro: shm_reach.step shm_step.consume shm_step.consume_fault split: sum.splits)
next
  case (Act_release i)
  assume "shm_reach r s"
  with Act_release show ?thesis by (auto intro: shm_reach.step shm_step.release split: shm_consumer.splits)
qed

lemma shm_run_reach: "shm_reach r s \<Longrightarrow> shm_reach r (fold (do_act r) as s)"
  by (induction "as" arbitrary: s) (simp_all add: do_act_reach)

text \<open>A ring with one slot of 64 bytes, one producer and one consumer.\<close>

definition ring_example :: ring_t where
  "ring_example = \<lparr>rt_slot_count = 1, rt_slot_size = 64, rt_producer_attempts = 4, rt_consumer_attempts = 1\<rparr>"

definition region_example :: region_t where
  "region_example = \<lparr>rg_producer = 0, rg_consumer = 0,
     rg_slots = [\<lparr>sl_sequence = 0, sl_payload_size = 0, sl_imm_data = 0, sl_source = -1, sl_payload = replicate 40 0\<rparr>]\<rparr>"

definition sys_example :: shm_sys where
  "sys_example = \<lparr>ss_region = region_example, ss_prod = [Sp_idle], ss_cons = [Sc_idle], ss_log = [], ss_seen = [], ss_fault = None\<rparr>"

definition msg_example :: msg_t where
  "msg_example = \<lparr>mg_source = 3, mg_bytes = [7, 9], mg_imm = 5\<rparr>"

definition run_example :: "shm_act list" where
  "run_example = Act_send 0 msg_example # replicate 9 (Act_prod 0) @ Act_poll 0 # replicate 4 (Act_cons 0)"

lemma sys_example_reach: "shm_reach ring_example sys_example"
proof -
  have "initialize (\<lambda>_. replicate 40 0) 64 1 64 = Inr region_example"
    by (simp add: initialize_def initialize_at_def Let_def required_size_def is_power_of_two_def maximum_position_def
        sizeof_slot_header_def cache_line_def control_size_def region_example_def encode_sequence_def)
  from shm_reach.init [of "\<lambda>_. replicate 40 0" 64 ring_example region_example 1 1] this show ?thesis
    by (simp add: ring_example_def sys_example_def max_payload_size_def payload_capacity_def sizeof_slot_header_def)
qed

lemma run_example_result:
  "ss_seen (fold (do_act ring_example) run_example sys_example) = [(0, msg_example)]"
  "ss_log (fold (do_act ring_example) run_example sys_example) = [msg_example]"
  by code_simp+

section \<open>Properties\<close>

text \<open>C10.  In every interleaving of any number of producers and consumers nothing throws, at most as many
  positions are outstanding as there are slots, each claimed position is shown to exactly one consumer,
  what it is shown is the whole message for which the position was reserved, and a view keeps showing it
  until it is released.\<close>

theorem shm_ring_delivers:
  assumes "shm_reach r s"
  shows "ss_fault s = None
    \<and> length (ss_log s) \<le> unat (rg_consumer (ss_region s)) + unat (rt_slot_count r)
    \<and> distinct (map fst (ss_seen s))
    \<and> (\<forall>(q, m)\<in>set (ss_seen s). q < length (ss_log s) \<and> m = ss_log s ! q)
    \<and> (\<forall>q<unat (rg_consumer (ss_region s)). q \<in> fst ` set (ss_seen s) \<or> Sc_read (of_nat q) \<in> set (ss_cons s))
    \<and> (\<forall>v. Sc_view v \<in> set (ss_cons s) \<longrightarrow> view_msg (ss_region s) v = ss_log s ! unat (rv_position v))"
proof (intro conjI)
  note inv = shm_invD [OF reach_inv [OF assms]] note I = reach_inv [OF assms]
  show "ss_fault s = None" by (fact inv(2))
  show "length (ss_log s) \<le> unat (rg_consumer (ss_region s)) + unat (rt_slot_count r)" using reserved_bound [OF I] inv(3) by simp
  have one: "holds (\<lambda>x. Some (fst x)) (ss_seen s) q \<le> 1" for q using inv(13) [of q] by (cases "q < unat (rg_consumer (ss_region s))") auto
  then show "distinct (map fst (ss_seen s))" by (rule holds_fst_distinct)
  show "\<forall>(q, m)\<in>set (ss_seen s). q < length (ss_log s) \<and> m = ss_log s ! q"
  proof clarify
    fix q m assume h: "(q, m) \<in> set (ss_seen s)"
    show "q < length (ss_log s) \<and> m = ss_log s ! q"
      using inv(12) [OF h] seen_claimed [OF I h] position_bounds(3) [OF I] inv(3) by simp
  qed
  show "\<forall>q<unat (rg_consumer (ss_region s)). q \<in> fst ` set (ss_seen s) \<or> Sc_read (of_nat q) \<in> set (ss_cons s)"
  proof (intro allI impI)
    fix q assume "q < unat (rg_consumer (ss_region s))"
    then have "0 < holds sc_reading (ss_cons s) q \<or> 0 < holds (\<lambda>x. Some (fst x)) (ss_seen s) q" using inv(13) [of q] by auto
    then show "q \<in> fst ` set (ss_seen s) \<or> Sc_read (of_nat q) \<in> set (ss_cons s)"
    proof
      assume "0 < holds sc_reading (ss_cons s) q"
      then obtain c where c: "c \<in> set (ss_cons s)" "sc_reading c = Some q" using holds_ex nth_mem by metis
      have "c = Sc_read (of_nat q)" using c(2) by (cases c) auto
      with c(1) show ?thesis by simp
    qed (auto simp: holds_def filter_empty_conv)
  qed
  show "\<forall>v. Sc_view v \<in> set (ss_cons s) \<longrightarrow> view_msg (ss_region s) v = ss_log s ! unat (rv_position v)"
  proof (intro allI impI)
    fix v assume "Sc_view v \<in> set (ss_cons s)"
    then have "view_ok r (ss_region s) v" using inv(9) by fastforce
    note v = view_okD [OF this]
    have "unat (rv_position v) < 2 ^ 63" using v(1) position_bounds(2) [OF I] by (simp add: word_less_nat_alt)
    from claimed_message(2) [OF I this v(2)] v(4) show "view_msg (ss_region s) v = ss_log s ! unat (rv_position v)" by simp
  qed
qed

theorem shm_ring_delivers_witness:
  "ss_fault (fold (do_act ring_example) run_example sys_example) = None
   \<and> ss_seen (fold (do_act ring_example) run_example sys_example) = [(0, msg_example)]
   \<and> 0 < length (ss_log (fold (do_act ring_example) run_example sys_example))
   \<and> ss_log (fold (do_act ring_example) run_example sys_example) ! 0 = msg_example"
  using shm_ring_delivers [OF shm_run_reach [OF sys_example_reach, of run_example]] run_example_result(1) by simp

text \<open>A ring that no thread is working on.\<close>

definition quiet :: "shm_sys \<Rightarrow> bool" where
  "quiet s \<longleftrightarrow> (\<forall>p\<in>set (ss_prod s). sp_holds p = None) \<and> (\<forall>c\<in>set (ss_cons s). sc_holds c = None)"

lemma quiet_holds: "quiet s \<Longrightarrow> holds sp_holds (ss_prod s) q = 0 \<and> holds sc_holds (ss_cons s) q = 0"
  by (auto simp: quiet_def holds_def filter_empty_conv)

lemma quiet_producer_slot:
  assumes "shm_inv r s" "quiet s"
  defines "P \<equiv> rg_producer (ss_region s)" and "C \<equiv> rg_consumer (ss_region s)" and "n \<equiv> unat (rt_slot_count r)"
  shows "unat P < unat C + n \<Longrightarrow> seq_at r (ss_region s) P = encode_sequence P slot_reusable"
    "unat P = unat C + n \<Longrightarrow> is_previous_generation r (seq_at r (ss_region s) P) P \<and> seq_at r (ss_region s) P \<noteq> encode_sequence P slot_reusable"
proof -
  note inv = shm_invD [OF assms(1)] note geo = ring_geometry [OF inv(1)]
  show "seq_at r (ss_region s) P = encode_sequence P slot_reusable" if lt: "unat P < unat C + n"
  proof (rule ccontr)
    assume "seq_at r (ss_region s) P \<noteq> encode_sequence P slot_reusable"
    then obtain st where le: "rt_slot_count r \<le> P" and st: "seq_at r (ss_region s) P = encode_sequence (previous_generation r P) st"
      using producer_slot [OF assms(1)] by (auto simp: P_def)
    let ?q = "previous_generation r P"
    have u: "unat ?q = unat P - n" "n \<le> unat P" using unat_previous_generation [OF le] le by (simp_all add: n_def word_le_nat_alt)
    have qb: "unat ?q < 2 ^ 63" using u position_bounds(1) [OF assms(1)] by (simp add: P_def)
    have "slot_at r ?q = slot_at r P" using geo(3) u by (simp add: n_def mod_if)
    then have sq: "seq_at r (ss_region s) ?q = encode_sequence ?q st" using st by (simp add: seq_at_def)
    note o = slot_okD [OF slot_at_position [OF assms(1) qb sq]]
    have "?q < C" using u lt by (simp add: word_less_nat_alt)
    moreover have "\<not> unat maximum_position < unat ?q + n" using u inv(5) by (simp add: P_def word_le_nat_alt)
    ultimately show False using o(4,8) quiet_holds [OF assms(2), of "unat ?q"] by (cases st) (auto simp: C_def n_def)
  qed
  assume eq: "unat P = unat C + n"
  have "C < P" using eq geo(1) by (simp add: n_def word_less_nat_alt)
  with window_slot [OF assms(1), of C] obtain st where sq: "seq_at r (ss_region s) C = encode_sequence C st" by (auto simp: C_def P_def)
  have same: "slot_at r P = slot_at r C" using geo(3) eq by (simp add: n_def)
  have prev: "rt_slot_count r \<le> P" "previous_generation r P = C"
  proof -
    show le: "rt_slot_count r \<le> P" using eq by (simp add: n_def word_le_nat_alt)
    show "previous_generation r P = C" using unat_previous_generation [OF le] eq by (simp add: n_def word_unat_eq_iff)
  qed
  have s: "seq_at r (ss_region s) P = encode_sequence (previous_generation r P) st" using sq same prev(2) by (simp add: seq_at_def)
  moreover have "encode_sequence C st \<noteq> encode_sequence P slot_reusable"
    using encode_sequence_eq_iff [of C P] position_bounds [OF assms(1)] \<open>C < P\<close> by (auto simp: C_def P_def)
  ultimately show "is_previous_generation r (seq_at r (ss_region s) P) P \<and> seq_at r (ss_region s) P \<noteq> encode_sequence P slot_reusable"
    using is_previous_generationI [OF prev(1) s] prev(2) by simp
qed

lemma quiet_post:
  assumes "shm_inv r s" "quiet s" "0 < rt_producer_attempts r" "\<not> post_refused r null m" "rg_producer (ss_region s) < maximum_position"
  defines "P \<equiv> rg_producer (ss_region s)" and "C \<equiv> rg_consumer (ss_region s)"
  shows "unat P < unat C + unat (rt_slot_count r) \<Longrightarrow> \<exists>g'. ring_post_send r (\<lambda>_. True) null m (ss_region s) = Inr (ec_done, g') \<and> rg_producer g' = P + 1"
    "unat P = unat C + unat (rt_slot_count r) \<Longrightarrow> ring_post_send r (\<lambda>_. True) null m (ss_region s) = Inr (ec_retry_nomem, ss_region s)"
proof -
  obtain k where k: "rt_producer_attempts r = Suc k" using assms(3) gr0_conv_Suc by auto
  show "\<exists>g'. ring_post_send r (\<lambda>_. True) null m (ss_region s) = Inr (ec_done, g') \<and> rg_producer g' = P + 1"
    if "unat P < unat C + unat (rt_slot_count r)"
    using quiet_producer_slot(1) [OF assms(1,2)] that assms(4,5) k
    by (simp add: ring_post_send_def reserve_def publish_def P_def C_def Let_def)
  show "ring_post_send r (\<lambda>_. True) null m (ss_region s) = Inr (ec_retry_nomem, ss_region s)"
    if "unat P = unat C + unat (rt_slot_count r)"
    using quiet_producer_slot(2) [OF assms(1,2)] that assms(4,5) k
    by (simp add: ring_post_send_def reserve_def P_def C_def Let_def)
qed

lemma quiet_poll:
  assumes "shm_inv r s" "quiet s" "0 < rt_consumer_attempts r"
  defines "P \<equiv> rg_producer (ss_region s)" and "C \<equiv> rg_consumer (ss_region s)"
  shows "C < P \<Longrightarrow> \<exists>v g'. ring_poll r (\<lambda>_. True) recv_slot_empty (ss_region s) = Inr (True, v, g') \<and> view_msg g' v = ss_log s ! unat C"
    "C = P \<Longrightarrow> ring_poll r (\<lambda>_. True) recv_slot_empty (ss_region s) = Inr (False, recv_slot_empty, ss_region s)"
proof -
  obtain k where k: "rt_consumer_attempts r = Suc k" using assms(3) gr0_conv_Suc by auto
  have cb: "unat C < 2 ^ 63" using position_bounds(2) [OF assms(1)] by (simp add: C_def)
  show "\<exists>v g'. ring_poll r (\<lambda>_. True) recv_slot_empty (ss_region s) = Inr (True, v, g') \<and> view_msg g' v = ss_log s ! unat C" if lt: "C < P"
  proof -
    obtain st where st: "seq_at r (ss_region s) C = encode_sequence C st" using window_slot [OF assms(1), of C] lt by (auto simp: C_def P_def)
    have "st = slot_published"
      using slot_okD(5) [OF slot_at_position [OF assms(1) cb st]] lt quiet_holds [OF assms(2), of "unat C"] by (cases st) (auto simp: P_def)
    with st have sq: "seq_at r (ss_region s) C = encode_sequence C slot_published" by simp
    note m = claimed_message [OF assms(1) cb sq]
    have "view_msg ((ss_region s)\<lparr>rg_consumer := x\<rparr>) v = view_msg (ss_region s) v" for x v by (simp add: view_msg_def split: option.split)
    with sq m k show ?thesis by (simp add: ring_poll_def recv_slot_empty_def C_def Let_def)
  qed
  show "ring_poll r (\<lambda>_. True) recv_slot_empty (ss_region s) = Inr (False, recv_slot_empty, ss_region s)" if eq: "C = P"
  proof -
    have "seq_at r (ss_region s) C \<noteq> encode_sequence C slot_published"
      using slot_okD(6) [OF slot_at_position [OF assms(1) cb], of slot_published] eq by (auto simp: P_def)
    moreover have "seq_at r (ss_region s) C = encode_sequence C slot_reusable
        \<or> rt_slot_count r \<le> C \<and> seq_at r (ss_region s) C = encode_sequence (previous_generation r C) slot_published"
      using unpublished_slot [OF assms(1) _ calculation] by (simp add: C_def)
    ultimately show ?thesis using k by (simp add: ring_poll_def recv_slot_empty_def C_def Let_def)
  qed
qed

text \<open>C20.  On a ring that no other thread is working on, in whatever state the threads left it, \<^verbatim>\<open>post_send\<close>
  succeeds exactly if there are fewer unclaimed messages than slots and otherwise reports a full ring
  without a trace, and \<^verbatim>\<open>poll\<close> returns the oldest unclaimed message, or nothing if there is none: no slot is ever lost.\<close>

theorem shm_ring_quiet:
  assumes "shm_reach r s" "quiet s" "0 < rt_producer_attempts r" "0 < rt_consumer_attempts r"
    and "\<not> post_refused r null m" "rg_producer (ss_region s) < maximum_position"
  shows "(if length (ss_log s) < unat (rg_consumer (ss_region s)) + unat (rt_slot_count r)
      then \<exists>g'. ring_post_send r (\<lambda>_. True) null m (ss_region s) = Inr (ec_done, g') \<and> rg_producer g' = rg_producer (ss_region s) + 1
      else ring_post_send r (\<lambda>_. True) null m (ss_region s) = Inr (ec_retry_nomem, ss_region s))
    \<and> (if unat (rg_consumer (ss_region s)) < length (ss_log s)
      then \<exists>v g'. ring_poll r (\<lambda>_. True) recv_slot_empty (ss_region s) = Inr (True, v, g')
        \<and> view_msg g' v = ss_log s ! unat (rg_consumer (ss_region s))
      else ring_poll r (\<lambda>_. True) recv_slot_empty (ss_region s) = Inr (False, recv_slot_empty, ss_region s))"
proof -
  note I = reach_inv [OF assms(1)]
  have len: "length (ss_log s) = unat (rg_producer (ss_region s))" using shm_invD(3) [OF I] by simp
  have full: "unat (rg_producer (ss_region s)) = unat (rg_consumer (ss_region s)) + unat (rt_slot_count r)"
    if "\<not> unat (rg_producer (ss_region s)) < unat (rg_consumer (ss_region s)) + unat (rt_slot_count r)"
    using that reserved_bound [OF I] by simp
  have empty: "rg_consumer (ss_region s) = rg_producer (ss_region s)"
    if "\<not> unat (rg_consumer (ss_region s)) < unat (rg_producer (ss_region s))"
    using that position_bounds(3) [OF I] by (simp add: word_unat_eq_iff)
  show ?thesis
    using quiet_post [OF I assms(2,3,5,6)] quiet_poll [OF I assms(2,4)] full empty len by (simp add: word_less_nat_alt)
qed

theorem shm_ring_quiet_witness:
  "(\<exists>g'. ring_post_send ring_example (\<lambda>_. True) False msg_example region_example = Inr (ec_done, g') \<and> rg_producer g' = 1)
   \<and> ring_poll ring_example (\<lambda>_. True) recv_slot_empty region_example = Inr (False, recv_slot_empty, region_example)"
proof -
  have "quiet sys_example" by (simp add: quiet_def sys_example_def)
  moreover have "\<not> post_refused ring_example False msg_example"
    by (simp add: post_refused_def ring_example_def msg_example_def max_payload_size_def payload_capacity_def sizeof_slot_header_def)
  moreover have "rg_producer (ss_region sys_example) < maximum_position"
    by (simp add: sys_example_def region_example_def maximum_position_def)
  ultimately show ?thesis
    using shm_ring_quiet [OF sys_example_reach] by (simp add: sys_example_def region_example_def ring_example_def)
qed

end
