(* ===== verification/LCI_Strings.thy ===== *)
theory LCI_Strings
  imports LCI_Prelude
begin

text \<open>
  C strings and the printing of numbers, shared by the theories whose code builds and takes apart
  strings.  A buffer is a list of characters in which the first \<^verbatim>\<open>NUL\<close> ends the string.  Numbers are printed
  in several bases by the same loop, whose properties are proved once, in a locale, for
  all of them.
\<close>

section \<open>C strings\<close>

definition NUL :: char where "NUL = CHR 0x00"

fun find_index :: "('a \<Rightarrow> bool) \<Rightarrow> 'a list \<Rightarrow> nat option" where
  "find_index P [] = None"
| "find_index P (x # xs) = (if P x then Some 0 else map_option Suc (find_index P xs))"

lemma find_index_append_first: "(\<forall>x\<in>set xs. \<not> P x) \<Longrightarrow> P y \<Longrightarrow> find_index P (xs @ y # ys) = Some (length xs)"
  by (induction xs) auto

lemma find_index_None: "find_index P xs = None \<longleftrightarrow> (\<forall>x\<in>set xs. \<not> P x)"
  by (induction xs) auto

lemma find_index_Some:
  "find_index P xs = Some i \<Longrightarrow> i < length xs \<and> P (xs ! i) \<and> (\<forall>j<i. \<not> P (xs ! j))"
proof (induction xs arbitrary: i)
  case (Cons x xs)
  show ?case
  proof (cases "P x")
    case False
    with Cons.prems obtain k where k: "find_index P xs = Some k" "i = Suc k" by auto
    have "\<not> P ((x # xs) ! j)" if "j < i" for j
      using that Cons.IH [OF k(1)] k(2) False by (cases j) auto
    with Cons.IH [OF k(1)] k(2) show ?thesis by simp
  qed (use Cons.prems in auto)
qed simp

text \<open>The string with its terminator, and the string that a buffer holds.\<close>

definition c_str :: "string \<Rightarrow> string" where
  "c_str s = s @ [NUL]"

definition str_of :: "string \<Rightarrow> string" where
  "str_of buf = takeWhile (\<lambda>c. c \<noteq> NUL) buf"

lemma str_of_c_str [simp]: "NUL \<notin> set s \<Longrightarrow> str_of (c_str s @ rest) = s"
  by (auto simp: str_of_def c_str_def takeWhile_append)

section \<open>Printing a number\<close>

text \<open>\<open>put\<close> prints the digits of a number from the least significant one on.\<close>

locale radix =
  fixes base :: nat and digits :: string and put :: "nat \<Rightarrow> string"
  assumes base: "1 < base" "length digits = base" "distinct digits"
    and put_rec: "put v = digits ! (v mod base) # (if v div base \<noteq> 0 then put (v div base) else [])"
begin

lemma put_ne: "put v \<noteq> []"
  by (subst put_rec) simp

lemma put_chars: "set (put v) \<subseteq> set digits"
proof (induction v rule: less_induct)
  case (less v)
  have "digits ! (v mod base) \<in> set digits" by (rule nth_mem) (use base in simp)
  moreover have "v div base < v" if "v div base \<noteq> 0" using that base(1) by (cases v) simp_all
  ultimately show ?case using less by (subst put_rec) auto
qed

lemma put_length: "v < base ^ Suc k \<Longrightarrow> length (put v) \<le> Suc k"
proof (induction k arbitrary: v)
  case 0
  then show ?case by (subst put_rec) simp
next
  case (Suc k)
  then have "v div base < base ^ Suc k" by (simp add: less_mult_imp_div_less mult.commute)
  with Suc.IH [OF this] show ?case by (subst put_rec) simp
qed

lemma put_inj: "put v = put v' \<Longrightarrow> v = v'"
proof (induction v arbitrary: v' rule: less_induct)
  case (less v)
  have eq: "digits ! (v mod base) # (if v div base \<noteq> 0 then put (v div base) else []) =
      digits ! (v' mod base) # (if v' div base \<noteq> 0 then put (v' div base) else [])"
    using less.prems by (simp only: put_rec [of v, symmetric] put_rec [of v', symmetric])
  have len: "v mod base < length digits" "v' mod base < length digits" using base(1,2) by simp_all
  have m: "v mod base = v' mod base" using eq nth_eq_iff_index_eq [OF base(3) len] by simp
  have rest: "(if v div base \<noteq> 0 then put (v div base) else []) = (if v' div base \<noteq> 0 then put (v' div base) else [])"
    using eq by blast
  have "v div base = v' div base"
  proof (cases "v div base = 0")
    case True
    with rest put_ne [of "v' div base"] show ?thesis by (cases "v' div base = 0") auto
  next
    case False
    then have "v div base < v" using base(1) by (cases v) simp_all
    moreover have "put (v div base) = put (v' div base)"
      using False rest put_ne [of "v div base"] by (cases "v' div base = 0") auto
    ultimately show ?thesis by (rule less.IH)
  qed
  with m show ?case by (metis div_mult_mod_eq)
qed

end

definition dec_digits :: string where "dec_digits = ''0123456789''"

fun dec_reversed :: "nat \<Rightarrow> string" where
  "dec_reversed v = dec_digits ! (v mod 10) # (if v div 10 \<noteq> 0 then dec_reversed (v div 10) else [])"

declare dec_reversed.simps [simp del]

interpretation dec_radix: radix 10 dec_digits dec_reversed
proof unfold_locales
  show "dec_reversed v = dec_digits ! (v mod 10) # (if v div 10 \<noteq> 0 then dec_reversed (v div 10) else [])" for v
    by (rule dec_reversed.simps)
qed (simp_all add: dec_digits_def)

text \<open>The conversion \<^verbatim>\<open>%d\<close> of \<^verbatim>\<open>printf\<close>.\<close>

definition print_d :: "int \<Rightarrow> string" where
  "print_d i = (if i < 0 then CHR ''-'' # rev (dec_reversed (nat (- i))) else rev (dec_reversed (nat i)))"

lemma print_d_chars: "set (print_d i) \<subseteq> set dec_digits \<union> {CHR ''-''}"
  using dec_radix.put_chars by (auto simp: print_d_def)

lemma print_d_nonneg_chars: "0 \<le> i \<Longrightarrow> set (print_d i) \<subseteq> set dec_digits"
  using dec_radix.put_chars by (auto simp: print_d_def)

lemma print_d_sign: "rev (dec_reversed v) \<noteq> CHR ''-'' # xs"
proof
  assume "rev (dec_reversed v) = CHR ''-'' # xs"
  then have "CHR ''-'' \<in> set (rev (dec_reversed v))" by simp
  then have "CHR ''-'' \<in> set dec_digits" using dec_radix.put_chars [of v] unfolding set_rev by blast
  then show False by (simp add: dec_digits_def)
qed

lemma print_d_inj:
  assumes "print_d i = print_d j"
  shows "i = j"
proof (cases "i < 0 \<longleftrightarrow> j < 0")
  case True
  then show ?thesis
    using assms dec_radix.put_inj [of "nat (- i)" "nat (- j)"] dec_radix.put_inj [of "nat i" "nat j"] by (auto simp: print_d_def split: if_splits)
next
  case False
  then show ?thesis
    using assms print_d_sign [of "nat i" "rev (dec_reversed (nat (- j)))"] print_d_sign [of "nat j" "rev (dec_reversed (nat (- i)))"]
    by (cases "i < 0") (simp_all add: print_d_def)
qed

end
