(* ===== verification/LCI_Posix_Ring.thy ===== *)
theory LCI_Posix_Ring
  imports LCI_Shm_Ring LCI_Strings
begin

text \<open>
  The POSIX shared-memory objects that hold the rings, from \<^verbatim>\<open>src/shm/posix_ring.cpp\<close>: how an object is named and
  sized, what is checked of a handle that arrives from another process, and how the owner creates and a
  peer attaches to an object.  The operating system is a small state of names, descriptors and mappings;
  which of its calls fail is an argument.
\<close>

section \<open>Names and sizes\<close>

definition posix_ring_handle_version :: u32 where "posix_ring_handle_version = 1"

definition posix_ring_portable_name_max :: nat where "posix_ring_portable_name_max = 30"

definition posix_ring_name_capacity :: nat where "posix_ring_name_capacity = posix_ring_portable_name_max + 1"

text \<open>\<^verbatim>\<open>memchr\<close> looks for the first terminator among the first \<^verbatim>\<open>capacity\<close> characters of a buffer.\<close>

definition valid_object_name :: "string \<Rightarrow> nat \<Rightarrow> bool" where
  "valid_object_name name capacity =
     (case find_index (\<lambda>c. c = NUL) (take capacity name) of
        None \<Rightarrow> False
      | Some len \<Rightarrow>
          if len < 2 \<or> name ! 0 \<noteq> CHR ''/'' then False
          else if CHR ''/'' \<in> set (take (len - 1) (drop 1 name)) then False
          else (\<forall>i\<in>set [len + 1..<capacity]. name ! i = NUL))"

definition posix_ring_mapping_size :: "int \<Rightarrow> u64 \<Rightarrow> u64 \<Rightarrow> u64" where
  "posix_ring_mapping_size page_size_long slot_count slot_size =
     (let required = required_size slot_count slot_size in
      if required = 0 then 0
      else if page_size_long \<le> 0 then 0
      else let page_size = word_of_int page_size_long in
        if required > 0xFFFFFFFFFFFFFFFF - (page_size - 1) then 0
        else ((required + page_size - 1) div page_size) * page_size)"

definition mix64 :: "u64 \<Rightarrow> u64" where
  "mix64 v = (let v = v XOR drop_bit 30 v; v = v * 0xbf58476d1ce4e5b9;
                  v = v XOR drop_bit 27 v; v = v * 0x94d049bb133111eb in
              v XOR drop_bit 31 v)"

definition mix_into :: "u64 \<Rightarrow> u64 \<Rightarrow> u64" where
  "mix_into v state = mix64 (state XOR (v + 0x9e3779b97f4a7c15 + push_bit 6 state + drop_bit 2 state))"

definition base36_digits :: string where "base36_digits = ''0123456789abcdefghijklmnopqrstuvwxyz''"

definition base32hex_digits :: string where "base32hex_digits = ''0123456789abcdefghijklmnopqrstuv''"

fun base36_reversed :: "nat \<Rightarrow> string" where
  "base36_reversed v = base36_digits ! (v mod 36) # (if v div 36 \<noteq> 0 then base36_reversed (v div 36) else [])"

declare base36_reversed.simps [simp del]

definition encode_base36 :: "u32 \<Rightarrow> string" where
  "encode_base36 v = rev (base36_reversed (unat v))"

definition digest_bytes :: "u64 \<Rightarrow> u16 \<Rightarrow> u8 list" where
  "digest_bytes high64 low16 = map (\<lambda>i. ucast (drop_bit ((7 - i) * 8) high64)) [0..<8] @ [ucast (drop_bit 8 low16), ucast low16]"

definition base32_step :: "u8 list \<Rightarrow> nat \<Rightarrow> nat \<Rightarrow> u8 \<Rightarrow> u8" where
  "base32_step bytes i b v =
     (let source_bit = i * 5 + b; byte_index = source_bit div 8; bit_index = 7 - source_bit mod 8 in
      push_bit 1 v OR (drop_bit bit_index (bytes ! byte_index) AND 1))"

definition encode_base32hex_80 :: "u64 \<Rightarrow> u16 \<Rightarrow> string" where
  "encode_base32hex_80 high64 low16 =
     (let bytes = digest_bytes high64 low16 in
      map (\<lambda>i. base32hex_digits ! unat (fold (base32_step bytes i) [0..<5] 0)) [0..<16])"

definition make_posix_ring_name :: "u64 \<times> u64 \<Rightarrow> u64 \<Rightarrow> int \<Rightarrow> string" where
  "make_posix_ring_name job_nonce device_uid owner_global_rank =
     (let rank = (if owner_global_rank < 0 then 0 else word_of_int owner_global_rank :: u32);
          h0 = mix_into (ucast rank) (mix_into device_uid (mix_into (snd job_nonce) (mix_into (fst job_nonce) 0x6c63692d73686d30)));
          h1 = mix_into (fst job_nonce) (mix_into (snd job_nonce) (mix_into (ucast rank) (mix_into device_uid 0x6c63692d73686d31))) in
      ''/lci-'' @ encode_base36 rank @ ''-'' @ encode_base32hex_80 h0 (ucast (drop_bit 48 h1)))"

section \<open>Handles\<close>

record posix_ring_handle_t =
  ph_version :: u32
  ph_owner :: int
  ph_device_uid :: u64
  ph_mapping_size :: u64
  ph_slot_count :: u64
  ph_slot_size :: u64
  ph_max_message_size :: u64
  ph_name :: string

record posix_ring_expected_t =
  px_owner :: int
  px_device_uid :: u64
  px_mapping_size :: u64
  px_slot_count :: u64
  px_slot_size :: u64
  px_max_message_size :: u64
  px_name :: string

definition handle_new :: posix_ring_handle_t where
  "handle_new = \<lparr>ph_version = posix_ring_handle_version, ph_owner = -1, ph_device_uid = 0, ph_mapping_size = 0,
     ph_slot_count = 0, ph_slot_size = 0, ph_max_message_size = 0, ph_name = replicate posix_ring_name_capacity NUL\<rparr>"

text \<open>The result of a check is the error message, empty if there is none.  The comparison of a
  64-bit geometry with the largest \<^verbatim>\<open>size_t\<close> never fails here.\<close>

definition valid_expected :: "int \<Rightarrow> posix_ring_expected_t \<Rightarrow> string" where
  "valid_expected page x =
     (if px_owner x < 0 \<or> px_device_uid x = 0 then ''invalid expected POSIX ring owner or device UID''
      else if length (px_name x) \<ge> posix_ring_name_capacity \<or> NUL \<in> set (px_name x)
        \<or> \<not> valid_object_name (c_str (px_name x)) (length (px_name x) + 1)
      then ''invalid expected POSIX shared-memory object name''
      else let mapping_size = posix_ring_mapping_size page (px_slot_count x) (px_slot_size x) in
        if mapping_size = 0 \<or> px_mapping_size x \<noteq> mapping_size
          \<or> px_max_message_size x > payload_capacity (px_slot_size x)
        then ''invalid expected POSIX ring geometry'' else [])"

definition validate_handle :: "int \<Rightarrow> posix_ring_handle_t \<Rightarrow> string" where
  "validate_handle page h =
     (if ph_version h \<noteq> posix_ring_handle_version then ''unsupported POSIX ring handle version''
      else if ph_owner h < 0 \<or> ph_device_uid h = 0 then ''invalid POSIX ring owner or device UID''
      else if \<not> valid_object_name (ph_name h) posix_ring_name_capacity then ''invalid POSIX shared-memory object name''
      else let mapping_size = posix_ring_mapping_size page (ph_slot_count h) (ph_slot_size h) in
        if mapping_size = 0 \<or> ph_mapping_size h \<noteq> mapping_size
          \<or> ph_max_message_size h > payload_capacity (ph_slot_size h)
        then ''inconsistent POSIX ring geometry or mapping size'' else [])"

definition validate_handle_against :: "int \<Rightarrow> posix_ring_handle_t \<Rightarrow> posix_ring_expected_t \<Rightarrow> string" where
  "validate_handle_against page h x =
     (if valid_expected page x \<noteq> [] then valid_expected page x
      else if validate_handle page h \<noteq> [] then validate_handle page h
      else if ph_owner h \<noteq> px_owner x \<or> ph_device_uid h \<noteq> px_device_uid x \<or> ph_mapping_size h \<noteq> px_mapping_size x
        \<or> ph_slot_count h \<noteq> px_slot_count x \<or> ph_slot_size h \<noteq> px_slot_size x
        \<or> ph_max_message_size h \<noteq> px_max_message_size x \<or> px_name x \<noteq> str_of (ph_name h)
      then ''received POSIX ring handle does not match expected identity and geometry'' else [])"

section \<open>The operating system\<close>

text \<open>The names that are linked, with the size of their objects, and the descriptors and mappings of this process.\<close>

record shm_os =
  os_names :: "string \<rightharpoonup> u64"
  os_fds :: nat
  os_maps :: "u64 list"

text \<open>The outcome of each system call that can fail.\<close>

record os_calls =
  oc_open :: bool
  oc_truncate :: bool
  oc_fstat :: "int option"
  oc_mmap :: "u64 option"
  oc_close :: bool

definition unlink :: "string \<Rightarrow> shm_os \<Rightarrow> shm_os" where
  "unlink name os = os\<lparr>os_names := (os_names os)(name := None)\<rparr>"

definition munmap :: "u64 \<Rightarrow> shm_os \<Rightarrow> shm_os" where
  "munmap region os = os\<lparr>os_maps := remove1 region (os_maps os)\<rparr>"

definition close_fd :: "shm_os \<Rightarrow> shm_os" where
  "close_fd os = os\<lparr>os_fds := os_fds os - 1\<rparr>"

definition mmap :: "u64 option \<Rightarrow> shm_os \<Rightarrow> shm_os" where
  "mmap region os = (case region of None \<Rightarrow> os | Some a \<Rightarrow> os\<lparr>os_maps := a # os_maps os\<rparr>)"

record mapping_t =
  mp_region :: u64
  mp_handle :: posix_ring_handle_t
  mp_ring :: ring_t
  mp_linked :: bool

text \<open>The constructor throws if the ring does; what was mapped and linked is undone before the exception goes on.\<close>

definition owner_create :: "int \<Rightarrow> os_calls \<Rightarrow> (nat \<Rightarrow> u8 list) \<Rightarrow> string \<Rightarrow> int \<Rightarrow> u64 \<Rightarrow> u64 \<Rightarrow> u64 \<Rightarrow> u64 \<Rightarrow> nat \<Rightarrow> nat \<Rightarrow> shm_os
    \<Rightarrow> ((string + mapping_t \<times> region_t) res) \<times> shm_os" where
  "owner_create page oc raw name owner device_uid slot_count slot_size max_message_size producer_attempts consumer_attempts os =
     (if length name \<ge> posix_ring_name_capacity \<or> NUL \<in> set name
      then (Inr (Inl ''POSIX shared-memory object name is too long''), os)
      else
        let h = handle_new\<lparr>ph_owner := owner, ph_device_uid := device_uid, ph_slot_count := slot_count, ph_slot_size := slot_size,
              ph_max_message_size := max_message_size, ph_mapping_size := posix_ring_mapping_size page slot_count slot_size,
              ph_name := c_str name @ drop (length name + 1) (ph_name handle_new)\<rparr> in
        if validate_handle page h \<noteq> [] \<or> ph_mapping_size h > 0x7FFFFFFFFFFFFFFF
        then (Inr (Inl (if validate_handle page h = [] then ''invalid POSIX ring allocation arguments'' else validate_handle page h)), os)
        else if \<not> oc_open oc \<or> name \<in> dom (os_names os) then (Inr (Inl ''shm_open(create)''), os)
        else
          let os = os\<lparr>os_names := (os_names os)(name \<mapsto> 0), os_fds := os_fds os + 1\<rparr>;
              region = (if oc_truncate oc then oc_mmap oc else None);
              os = (if oc_truncate oc then os\<lparr>os_names := (os_names os)(name \<mapsto> ph_mapping_size h)\<rparr> else os);
              os = close_fd (mmap region os) in
          case region of
            None \<Rightarrow> (Inr (Inl (if oc_truncate oc then ''mmap(owner)'' else ''ftruncate'')), unlink name os)
          | Some a \<Rightarrow>
              if \<not> oc_close oc then (Inr (Inl ''close(owner fd)''), unlink name (munmap a os))
              else (case initialize raw a slot_count slot_size of
                  Inl e \<Rightarrow> (Inl e, os)
                | Inr mem \<Rightarrow>
                    (case ring_new a slot_count slot_size producer_attempts consumer_attempts of
                       Inl e \<Rightarrow> (Inl e, unlink name (munmap a os))
                     | Inr r \<Rightarrow>
                         if \<not> is_consistent_empty r mem then (Inl Assert_failed, unlink name (munmap a os))
                         else (Inr (Inr (\<lparr>mp_region = a, mp_handle = h, mp_ring = r, mp_linked = True\<rparr>, mem)), os))))"

definition owner_destroy :: "mapping_t \<Rightarrow> shm_os \<Rightarrow> shm_os" where
  "owner_destroy m os = (let os = (if mp_region m \<noteq> 0 then munmap (mp_region m) os else os) in
     if mp_linked m then unlink (str_of (ph_name (mp_handle m))) os else os)"

text \<open>\<^verbatim>\<open>shm_unlink\<close> fails with \<^verbatim>\<open>ENOENT\<close> if the name is not there, and for other reasons as \<^verbatim>\<open>ok\<close> says.\<close>

definition unlink_name :: "bool \<Rightarrow> mapping_t \<Rightarrow> shm_os \<Rightarrow> bool \<times> mapping_t \<times> shm_os" where
  "unlink_name ok m os =
     (if \<not> mp_linked m then (True, m, os)
      else if \<not> ok then (False, m, os)
      else (True, m\<lparr>mp_linked := False\<rparr>, unlink (str_of (ph_name (mp_handle m))) os))"

definition peer_attach :: "int \<Rightarrow> os_calls \<Rightarrow> region_t \<Rightarrow> posix_ring_handle_t \<Rightarrow> posix_ring_expected_t \<Rightarrow> nat \<Rightarrow> nat \<Rightarrow> shm_os
    \<Rightarrow> ((string + mapping_t) res) \<times> shm_os" where
  "peer_attach page oc mem h x producer_attempts consumer_attempts os =
     (if validate_handle_against page h x \<noteq> [] then (Inr (Inl (validate_handle_against page h x)), os)
      else if \<not> oc_open oc \<or> str_of (ph_name h) \<notin> dom (os_names os) then (Inr (Inl ''shm_open(attach)''), os)
      else
        let os = os\<lparr>os_fds := os_fds os + 1\<rparr> in
        case oc_fstat oc of
          None \<Rightarrow> (Inr (Inl ''fstat''), close_fd os)
        | Some sz \<Rightarrow>
            if sz < 0 \<or> word_of_int sz \<noteq> ph_mapping_size h
            then (Inr (Inl ''POSIX shared-memory object has an unexpected size''), close_fd os)
            else case oc_mmap oc of
              None \<Rightarrow> (Inr (Inl ''mmap(peer)''), close_fd os)
            | Some a \<Rightarrow>
                let os = close_fd (mmap (Some a) os) in
                if \<not> oc_close oc then (Inr (Inl ''close(peer fd)''), munmap a os)
                else (case ring_new a (ph_slot_count h) (ph_slot_size h) producer_attempts consumer_attempts of
                    Inl e \<Rightarrow> (Inl e, munmap a os)
                  | Inr r \<Rightarrow>
                      if \<not> is_consistent_empty r mem
                      then (Inr (Inl ''attached POSIX ring is not in the initialized empty state''), munmap a os)
                      else (Inr (Inr \<lparr>mp_region = a, mp_handle = h, mp_ring = r, mp_linked = False\<rparr>), os)))"

definition peer_destroy :: "mapping_t \<Rightarrow> shm_os \<Rightarrow> shm_os" where
  "peer_destroy m os = (if mp_region m \<noteq> 0 then munmap (mp_region m) os else os)"

section \<open>Names are short, valid and tell the ranks apart\<close>

interpretation base36_radix: radix 36 base36_digits base36_reversed
proof unfold_locales
  show "base36_reversed v = base36_digits ! (v mod 36) # (if v div 36 \<noteq> 0 then base36_reversed (v div 36) else [])" for v
    by (rule base36_reversed.simps)
qed (simp_all add: base36_digits_def)

lemma encode_base36_facts:
  shows "length (encode_base36 v) \<le> 7" "1 \<le> length (encode_base36 v)" "set (encode_base36 v) \<subseteq> set base36_digits"
    "encode_base36 v = encode_base36 v' \<Longrightarrow> v = v'"
proof -
  have "unat v < 36 ^ Suc 6" using unsigned_less [of v, where ?'a = nat] by simp
  from base36_radix.put_length [OF this] show "length (encode_base36 v) \<le> 7" by (simp add: encode_base36_def)
  show "1 \<le> length (encode_base36 v)" by (simp add: encode_base36_def base36_reversed.simps [of "unat v"])
  show "set (encode_base36 v) \<subseteq> set base36_digits" using base36_radix.put_chars by (simp add: encode_base36_def)
  show "v = v'" if "encode_base36 v = encode_base36 v'"
    using base36_radix.put_inj [of "unat v" "unat v'"] that by (simp add: encode_base36_def word_unat_eq_iff)
qed

lemma base32_step_bound:
  assumes "unat v < 2 ^ k" "k < 8"
  shows "unat (base32_step bytes i b v) < 2 ^ Suc k"
proof -
  let ?b = "drop_bit (7 - (i * 5 + b) mod 8) (bytes ! ((i * 5 + b) div 8)) AND 1 :: u8"
  have low: "unat ?b \<le> 1" by (simp add: and_one_eq unat_mod)
  have "unat (push_bit 1 v) \<le> 2 * unat v" by (simp add: push_bit_eq_mult unat_word_ariths)
  then have "take_bit (Suc k) (unat (push_bit 1 v)) = unat (push_bit 1 v)" using assms(1) by (simp add: take_bit_nat_eq_self)
  moreover have "take_bit (Suc k) (unat ?b) = unat ?b"
    by (rule take_bit_nat_eq_self, rule le_less_trans [OF low], rule one_less_power) simp_all
  ultimately have "take_bit (Suc k) (unat (push_bit 1 v) OR unat ?b) = unat (push_bit 1 v) OR unat ?b" by (simp only: take_bit_or)
  then have "unat (push_bit 1 v) OR unat ?b < 2 ^ Suc k" by (metis take_bit_nat_less_exp)
  then show ?thesis by (simp only: base32_step_def Let_def unsigned_or_eq)
qed

lemma base32_value: "unat (fold (base32_step bytes i) [0..<5] 0) < 32"
proof -
  have "unat (fold (base32_step bytes i) [0..<k] 0) < 2 ^ k" if "k \<le> 5" for k
    using that
  proof (induction k)
    case (Suc k)
    with base32_step_bound [of "fold (base32_step bytes i) [0..<k] 0" k bytes i k] show ?case by simp
  qed simp
  from this [of 5] show ?thesis by simp
qed

lemma encode_base32hex_80_facts:
  "length (encode_base32hex_80 h l) = 16" "set (encode_base32hex_80 h l) \<subseteq> set base32hex_digits"
proof -
  show "length (encode_base32hex_80 h l) = 16" by (simp add: encode_base32hex_80_def)
  have "base32hex_digits ! unat (fold (base32_step bytes i) [0..<5] 0) \<in> set base32hex_digits" for bytes i
    by (rule nth_mem) (use base32_value [of bytes i] in \<open>simp add: base32hex_digits_def\<close>)
  then show "set (encode_base32hex_80 h l) \<subseteq> set base32hex_digits" by (auto simp: encode_base32hex_80_def Let_def)
qed

lemma valid_name_padded:
  assumes "NUL \<notin> set s" "CHR ''/'' \<notin> set s" "s \<noteq> []" "length s + 1 + k = capacity - 1"
  shows "valid_object_name (CHR ''/'' # s @ NUL # replicate k NUL) capacity"
proof -
  have cap: "capacity = Suc (length s + 1 + k)" using assms(4) by simp
  let ?h = "CHR ''/'' # s" let ?n = "?h @ replicate (Suc k) NUL"
  have "find_index (\<lambda>c. c = NUL) (?h @ NUL # replicate k NUL) = Some (length ?h)"
    by (rule find_index_append_first) (use assms(1) in \<open>auto simp: NUL_def\<close>)
  then have found: "find_index (\<lambda>c. c = NUL) (take capacity ?n) = Some (length ?h)" using cap by simp
  have pad: "?n ! i = NUL" if "i \<in> set [length ?h + 1..<capacity]" for i
    using that cap nth_append [of ?h "replicate (Suc k) NUL" i] by (auto simp del: replicate.simps)
  have "\<not> length ?h < 2" "?n ! 0 = CHR ''/''" "take (length ?h - 1) (drop 1 ?n) = s" using assms(3) by (cases s; simp)+
  then have "valid_object_name ?n capacity"
    unfolding valid_object_name_def found using assms(2) pad by (simp del: append_Cons replicate.simps)
  then show ?thesis by simp
qed

text \<open>What follows the slash of a name.\<close>

definition ring_name_tail :: "u64 \<times> u64 \<Rightarrow> u64 \<Rightarrow> int \<Rightarrow> string" where
  "ring_name_tail nonce uid rank = tl (make_posix_ring_name nonce uid rank)"

lemma ring_name_shape:
  "\<exists>h l. ring_name_tail nonce uid rank = ''lci-'' @ encode_base36 (if rank < 0 then 0 else word_of_int rank) @ ''-'' @ encode_base32hex_80 h l"
  "make_posix_ring_name nonce uid rank = CHR ''/'' # ring_name_tail nonce uid rank"
  by (auto simp: ring_name_tail_def make_posix_ring_name_def Let_def)

lemma digits_plain: "NUL \<notin> set base36_digits" "CHR ''/'' \<notin> set base36_digits" "CHR ''-'' \<notin> set base36_digits"
  "set base32hex_digits \<subseteq> set base36_digits"
  by (auto simp: base36_digits_def base32hex_digits_def NUL_def)

lemma ring_name_facts:
  "NUL \<notin> set (ring_name_tail nonce uid rank)" "CHR ''/'' \<notin> set (ring_name_tail nonce uid rank)"
  "ring_name_tail nonce uid rank \<noteq> []" "length (make_posix_ring_name nonce uid rank) \<le> 29"
proof -
  obtain h l where sh: "ring_name_tail nonce uid rank = ''lci-'' @ encode_base36 (if rank < 0 then 0 else word_of_int rank) @ ''-'' @ encode_base32hex_80 h l"
    using ring_name_shape(1) by metis
  have "set (ring_name_tail nonce uid rank) \<subseteq> set base36_digits \<union> {CHR ''-''}"
  proof -
    have "set ''lci-'' \<subseteq> set base36_digits \<union> {CHR ''-''}" by (simp add: base36_digits_def)
    moreover have "set (encode_base32hex_80 h l) \<subseteq> set base36_digits" using encode_base32hex_80_facts(2) digits_plain(4) by (rule subset_trans)
    ultimately show ?thesis unfolding sh set_append using encode_base36_facts(3) by (simp add: subset_insertI2)
  qed
  then show "NUL \<notin> set (ring_name_tail nonce uid rank)" "CHR ''/'' \<notin> set (ring_name_tail nonce uid rank)"
    using digits_plain(1,2) by (auto simp only: NUL_def Un_iff singleton_iff subset_iff char.inject)
  show "ring_name_tail nonce uid rank \<noteq> []" by (simp add: sh)
  show "length (make_posix_ring_name nonce uid rank) \<le> 29"
    unfolding ring_name_shape(2) sh using encode_base36_facts(1) encode_base32hex_80_facts(1) by simp
qed

lemma ring_name_rank:
  assumes "make_posix_ring_name nonce uid rank = make_posix_ring_name nonce' uid' rank'"
    and "0 \<le> rank" "rank < 2 ^ 31" "0 \<le> rank'" "rank' < 2 ^ 31"
  shows "rank = rank'"
proof -
  have tw: "takeWhile (\<lambda>c. c \<noteq> CHR ''-'') (xs @ CHR ''-'' # ys) = xs" if "CHR ''-'' \<notin> set xs" for xs ys
    using that by (subst takeWhile_append2) auto
  have split: "xs = xs'" if "xs @ CHR ''-'' # ys = xs' @ CHR ''-'' # ys'" "CHR ''-'' \<notin> set xs" "CHR ''-'' \<notin> set xs'" for xs xs' ys ys'
    using arg_cong [OF that(1), of "takeWhile (\<lambda>c. c \<noteq> CHR ''-'')"] tw [OF that(2)] tw [OF that(3)] by simp
  have plain: "CHR ''-'' \<notin> set (encode_base36 v)" for v using encode_base36_facts(3) digits_plain(3) by blast
  have "encode_base36 (word_of_int rank) = encode_base36 (word_of_int rank')"
    using assms(1,2,4) by (intro split [OF _ plain plain]) (simp add: make_posix_ring_name_def Let_def)
  from encode_base36_facts(4) [OF this] have "uint (word_of_int rank :: u32) = uint (word_of_int rank' :: u32)" by simp
  then show ?thesis using assms(2-5) by (simp add: uint_word_of_int_eq take_bit_int_eq_self)
qed

lemma mapping_size_facts:
  assumes "posix_ring_mapping_size page n sz \<noteq> 0" "0 < page" "page < 2 ^ 63"
  shows "required_size n sz \<noteq> 0" "required_size n sz \<le> posix_ring_mapping_size page n sz"
    "unat (posix_ring_mapping_size page n sz) mod nat page = 0"
    "unat (posix_ring_mapping_size page n sz) < unat (required_size n sz) + nat page"
proof -
  let ?p = "word_of_int page :: u64" let ?r = "required_size n sz"
  have p: "unat ?p = nat page" using assms(2,3) by (simp add: unat_eq_nat_uint uint_word_of_int_eq take_bit_int_eq_self)
  show r: "?r \<noteq> 0" using assms(1) by (auto simp: posix_ring_mapping_size_def Let_def split: if_splits)
  have m: "posix_ring_mapping_size page n sz = ((?r + ?p - 1) div ?p) * ?p" and nofl: "\<not> ?r > 0xFFFFFFFFFFFFFFFF - (?p - 1)"
    using assms(1,2) r by (auto simp: posix_ring_mapping_size_def Let_def split: if_splits)
  have p1: "unat (?p - 1) = nat page - 1" using p assms(2) unat_minus_one [of ?p] by (auto simp: unat_eq_0 [symmetric])
  have le: "unat ?r \<le> 2 ^ 64 - 1 - (nat page - 1)"
  proof -
    have b: "?p - 1 \<le> 0xFFFFFFFFFFFFFFFF" using word_le_nat_alt [of "?p - 1" "0xFFFFFFFFFFFFFFFF"] p1 assms(3) by simp
    have "unat (0xFFFFFFFFFFFFFFFF - (?p - 1)) = 2 ^ 64 - 1 - (nat page - 1)" using unat_sub [OF b] p1 by simp
    then show ?thesis using nofl by (simp add: word_less_nat_alt)
  qed
  have sum: "unat (?r + (?p - 1)) = unat ?r + (nat page - 1)"
    using le p1 assms(2,3) by (subst unat_add_lem [THEN iffD1]) simp_all
  let ?q = "(unat ?r + (nat page - 1)) div nat page"
  have q: "unat ((?r + ?p - 1) div ?p) = ?q" using sum p by (simp add: unat_div algebra_simps)
  have "?q * nat page \<le> unat ?r + (nat page - 1)" by simp
  moreover have "unat ?r + (nat page - 1) < 2 ^ 64" using le assms(2,3) by simp
  ultimately have lt: "?q * nat page < 2 ^ 64" by linarith
  have u: "unat (posix_ring_mapping_size page n sz) = ?q * nat page"
    unfolding m using q p lt by (simp add: unat_word_ariths)
  show "unat (posix_ring_mapping_size page n sz) mod nat page = 0" by (simp add: u)
  have "unat ?r + (nat page - 1) < ?q * nat page + nat page"
    using assms(2) mod_less_divisor [of "nat page" "unat ?r + (nat page - 1)"] div_mult_mod_eq [of "unat ?r + (nat page - 1)" "nat page"] by linarith
  then show "?r \<le> posix_ring_mapping_size page n sz" unfolding word_le_nat_alt u using assms(2) by linarith
  show "unat (posix_ring_mapping_size page n sz) < unat ?r + nat page"
    unfolding u using \<open>?q * nat page \<le> unat ?r + (nat page - 1)\<close> assms(2) by linarith
qed

section \<open>Creating and attaching\<close>

text \<open>A mapping starts at an address that is not null and a multiple of a cache line, as \<^verbatim>\<open>mmap\<close> promises.\<close>

definition mmap_ok :: "os_calls \<Rightarrow> bool" where
  "mmap_ok oc \<longleftrightarrow> (\<forall>a. oc_mmap oc = Some a \<longrightarrow> a \<noteq> 0 \<and> a mod cache_line = 0)"

lemma initialize_returns:
  assumes "required_size n sz \<noteq> 0" "a \<noteq> 0" "a mod cache_line = 0"
  shows "\<exists>mem. initialize raw a n sz = Inr mem"
proof -
  have "unat n < 2 ^ 63" "0 < unat n" using required_size_ok(1,2) [OF assms(1)] by (auto simp: is_power_of_two_def unat_gt_0)
  then have "(0 :: u64) \<le> maximum_position - (n - 1)" by simp
  then show ?thesis using assms by (simp add: initialize_def initialize_at_def Let_def)
qed

lemma os_undo [simp]:
  "name \<notin> dom (os_names os) \<Longrightarrow> (os_names os)(name := None) = os_names os"
  by (auto simp: fun_eq_iff domIff)

text \<open>The handle that an owner makes.\<close>

definition owner_handle :: "int \<Rightarrow> string \<Rightarrow> int \<Rightarrow> u64 \<Rightarrow> u64 \<Rightarrow> u64 \<Rightarrow> u64 \<Rightarrow> posix_ring_handle_t" where
  "owner_handle page name owner device_uid slot_count slot_size max_message_size =
     handle_new\<lparr>ph_owner := owner, ph_device_uid := device_uid, ph_slot_count := slot_count, ph_slot_size := slot_size,
       ph_max_message_size := max_message_size, ph_mapping_size := posix_ring_mapping_size page slot_count slot_size,
       ph_name := c_str name @ drop (length name + 1) (ph_name handle_new)\<rparr>"

lemma create_cases:
  assumes "owner_create page oc raw name owner uid n sz mx pa ca os = (res, os')" "mmap_ok oc"
  shows "(case res of
      Inr (Inr (m, mem)) \<Rightarrow> (\<exists>a. oc_mmap oc = Some a \<and> name \<notin> dom (os_names os) \<and> NUL \<notin> set name \<and> validate_handle page (owner_handle page name owner uid n sz mx) = []
        \<and> initialize raw a n sz = Inr mem
        \<and> m = \<lparr>mp_region = a, mp_handle = owner_handle page name owner uid n sz mx,
               mp_ring = \<lparr>rt_slot_count = n, rt_slot_size = sz, rt_producer_attempts = pa, rt_consumer_attempts = ca\<rparr>, mp_linked = True\<rparr>
        \<and> os' = os\<lparr>os_names := (os_names os)(name \<mapsto> posix_ring_mapping_size page n sz), os_maps := a # os_maps os\<rparr>)
    | _ \<Rightarrow> os' = os)"
proof (cases "length name \<ge> posix_ring_name_capacity \<or> NUL \<in> set name \<or> validate_handle page (owner_handle page name owner uid n sz mx) \<noteq> []
    \<or> posix_ring_mapping_size page n sz > 0x7FFFFFFFFFFFFFFF \<or> \<not> oc_open oc \<or> name \<in> dom (os_names os) \<or> \<not> oc_truncate oc
    \<or> oc_mmap oc = None \<or> \<not> oc_close oc")
  case True
  then show ?thesis using assms(1)
    by (auto simp: owner_create_def owner_handle_def Let_def mmap_def munmap_def close_fd_def unlink_def split: if_splits option.splits)
next
  case False
  then obtain a where a: "oc_mmap oc = Some a" by auto
  have "required_size n sz \<noteq> 0" using False
    by (auto simp: validate_handle_def owner_handle_def posix_ring_mapping_size_def Let_def split: if_splits)
  then obtain mem where mem: "initialize raw a n sz = Inr mem" using initialize_returns [of n sz a raw] assms(2) a by (auto simp: mmap_ok_def)
  show ?thesis
  proof (cases "ring_new a n sz pa ca")
    case (Inl e)
    with assms(1) False a mem show ?thesis
      by (auto simp: owner_create_def owner_handle_def Let_def mmap_def munmap_def close_fd_def unlink_def split: if_splits)
  next
    case (Inr r)
    then have r: "r = \<lparr>rt_slot_count = n, rt_slot_size = sz, rt_producer_attempts = pa, rt_consumer_attempts = ca\<rparr>"
      by (auto simp: ring_new_def Let_def bind_assert split: if_splits)
    have "is_consistent_empty r mem" using initialize_consistent [of raw a r mem] mem r by simp
    with assms(1) False a mem Inr r show ?thesis
      by (auto simp: owner_create_def owner_handle_def Let_def mmap_def close_fd_def split: if_splits)
  qed
qed

text \<open>An attachment that fails leaves nothing behind; one that succeeds is to the object that was expected.\<close>

lemma attach_cases:
  assumes "peer_attach page oc mem h x pa ca os = (res, os')"
  shows "(case res of
      Inr (Inr m) \<Rightarrow> (\<exists>a. oc_mmap oc = Some a \<and> validate_handle_against page h x = [] \<and> is_consistent_empty (mp_ring m) mem
        \<and> m = \<lparr>mp_region = a, mp_handle = h, mp_ring = \<lparr>rt_slot_count = ph_slot_count h, rt_slot_size = ph_slot_size h,
               rt_producer_attempts = pa, rt_consumer_attempts = ca\<rparr>, mp_linked = False\<rparr>
        \<and> os' = os\<lparr>os_maps := a # os_maps os\<rparr>)
    | _ \<Rightarrow> os' = os)"
proof (cases "validate_handle_against page h x \<noteq> [] \<or> \<not> oc_open oc \<or> str_of (ph_name h) \<notin> dom (os_names os) \<or> oc_fstat oc = None
    \<or> oc_mmap oc = None \<or> \<not> oc_close oc")
  case True
  then show ?thesis using assms
    by (auto simp: peer_attach_def Let_def mmap_def munmap_def close_fd_def split: if_splits option.splits)
next
  case False
  then obtain a sz where a: "oc_mmap oc = Some a" "oc_fstat oc = Some sz" by auto
  have undo: "munmap a (close_fd (mmap (Some a) (os\<lparr>os_fds := os_fds os + 1\<rparr>))) = os" "close_fd (os\<lparr>os_fds := os_fds os + 1\<rparr>) = os"
    by (simp_all add: munmap_def close_fd_def mmap_def)
  show ?thesis
  proof (cases "ring_new a (ph_slot_count h) (ph_slot_size h) pa ca")
    case (Inl e)
    with assms False a undo show ?thesis by (auto simp: peer_attach_def Let_def split: if_splits)
  next
    case (Inr r)
    then have "r = \<lparr>rt_slot_count = ph_slot_count h, rt_slot_size = ph_slot_size h, rt_producer_attempts = pa, rt_consumer_attempts = ca\<rparr>"
      by (auto simp: ring_new_def Let_def bind_assert split: if_splits)
    with assms False a undo Inr show ?thesis
      by (auto simp: peer_attach_def Let_def mmap_def close_fd_def split: if_splits)
  qed
qed

text \<open>What a peer expects of the owner's object.\<close>

definition expects :: "int \<Rightarrow> string \<Rightarrow> int \<Rightarrow> u64 \<Rightarrow> u64 \<Rightarrow> u64 \<Rightarrow> u64 \<Rightarrow> posix_ring_expected_t" where
  "expects page name owner uid n sz mx = \<lparr>px_owner = owner, px_device_uid = uid, px_mapping_size = posix_ring_mapping_size page n sz,
     px_slot_count = n, px_slot_size = sz, px_max_message_size = mx, px_name = name\<rparr>"

lemma own_handle_expected:
  assumes "validate_handle page (owner_handle page name owner uid n sz mx) = []" "name = CHR ''/'' # t" "NUL \<notin> set t" "CHR ''/'' \<notin> set t" "t \<noteq> []"
    and "length name < posix_ring_name_capacity"
  shows "validate_handle_against page (owner_handle page name owner uid n sz mx) (expects page name owner uid n sz mx) = []"
    "str_of (ph_name (owner_handle page name owner uid n sz mx)) = name"
proof -
  let ?h = "owner_handle page name owner uid n sz mx"
  have plain: "NUL \<notin> set name" using assms(2,3) by (simp add: NUL_def)
  show str: "str_of (ph_name ?h) = name"
    using plain by (simp add: owner_handle_def)
  have "valid_object_name (CHR ''/'' # t @ NUL # replicate 0 NUL) (length name + 1)"
    by (rule valid_name_padded) (use assms in simp_all)
  then have "valid_object_name (c_str name) (length name + 1)" using assms(2) by (simp add: c_str_def)
  then have "valid_expected page (expects page name owner uid n sz mx) = []"
    using assms(1,6) plain
    by (auto simp: validate_handle_def valid_expected_def expects_def owner_handle_def Let_def split: if_splits)
  with assms(1) str show "validate_handle_against page ?h (expects page name owner uid n sz mx) = []"
    by (simp add: validate_handle_against_def expects_def owner_handle_def)
qed

lemma attach_own:
  assumes h_def: "h = owner_handle page name owner uid n sz mx"
    and r_def: "r = \<lparr>rt_slot_count = n, rt_slot_size = sz, rt_producer_attempts = pa, rt_consumer_attempts = ca\<rparr>"
    and own: "validate_handle_against page h (expects page name owner uid n sz mx) = []" "str_of (ph_name h) = name"
    and mem: "initialize raw a n sz = Inr mem" "\<And>e. ring_new a n sz pa ca \<noteq> Inl e" "is_consistent_empty r mem"
    and calls: "oc_open oc'" "oc_fstat oc' = Some (uint (posix_ring_mapping_size page n sz))" "oc_mmap oc' = Some b" "oc_close oc'" "mmap_ok oc'"
      "name \<in> dom (os_names ps)"
  shows "\<exists>m' ps'. peer_attach page oc' mem h (expects page name owner uid n sz mx) pa ca ps = (Inr (Inr m'), ps') \<and> mp_ring m' = r \<and> peer_destroy m' ps' = ps"
proof -
  have fields: "ph_slot_count h = n" "ph_slot_size h = sz" "ph_mapping_size h = posix_ring_mapping_size page n sz" by (simp_all add: h_def owner_handle_def)
  have req: "required_size n sz \<noteq> 0" using mem(1) by (auto simp: initialize_def initialize_at_def Let_def bind_assert split: if_splits)
  have "ring_new b n sz pa ca = Inr r"
    using mem(2) [of Assert_failed] req calls(3,5) by (auto simp: ring_new_def r_def Let_def bind_assert mmap_ok_def split: if_splits)
  then show ?thesis
    using own calls fields mem(3) by (auto simp: peer_attach_def Let_def mmap_def close_fd_def peer_destroy_def munmap_def mmap_ok_def)
qed

lemma create_undo:
  assumes "owner_create page oc raw (make_posix_ring_name nonce uid rank) rank uid n sz mx pa ca os = (Inr (Inr (m, mem)), os')" "mmap_ok oc"
  shows "owner_destroy m os' = os"
proof -
  let ?name = "make_posix_ring_name nonce uid rank" let ?h = "owner_handle page ?name rank uid n sz mx"
  note nf = ring_name_facts [of nonce uid rank] note sh = ring_name_shape(2) [of nonce uid rank]
  have len: "length ?name < posix_ring_name_capacity" using nf(4) by (simp add: posix_ring_name_capacity_def posix_ring_portable_name_max_def)
  obtain a where a: "oc_mmap oc = Some a" "?name \<notin> dom (os_names os)" "validate_handle page ?h = []" "mp_region m = a" "mp_handle m = ?h" "mp_linked m"
      "os' = os\<lparr>os_names := (os_names os)(?name \<mapsto> posix_ring_mapping_size page n sz), os_maps := a # os_maps os\<rparr>"
    using create_cases [OF assms] that by (simp, elim exE conjE) simp
  note own = own_handle_expected [OF a(3) sh nf(1,2,3) len]
  have "a \<noteq> 0" using assms(2) a(1) by (simp add: mmap_ok_def)
  then show ?thesis using a(2,4-6) own(2) unfolding a(7) by (simp add: owner_destroy_def munmap_def unlink_def)
qed

lemma ring_new_returns:
  "required_size n sz \<noteq> 0 \<Longrightarrow> a \<noteq> 0 \<Longrightarrow> a mod cache_line = 0 \<Longrightarrow> pa \<noteq> 0 \<Longrightarrow> ca \<noteq> 0 \<Longrightarrow>
    ring_new a n sz pa ca = Inr \<lparr>rt_slot_count = n, rt_slot_size = sz, rt_producer_attempts = pa, rt_consumer_attempts = ca\<rparr>"
  by (simp add: ring_new_def Let_def)

lemma validated_size: "validate_handle page h = [] \<Longrightarrow> required_size (ph_slot_count h) (ph_slot_size h) \<noteq> 0"
  by (auto simp: validate_handle_def posix_ring_mapping_size_def Let_def split: if_splits)

text \<open>Neither operation throws if the numbers of attempts are positive.\<close>

lemma create_no_throw:
  assumes "owner_create page oc raw name owner uid n sz mx pa ca os = (Inl e, os')" "mmap_ok oc" "pa \<noteq> 0" "ca \<noteq> 0"
  shows False
proof -
  let ?h = "owner_handle page name owner uid n sz mx"
  obtain a where a: "validate_handle page ?h = []" "oc_mmap oc = Some a"
    using assms(1) by (auto simp: owner_create_def owner_handle_def Let_def split: if_splits option.splits)
  have req: "required_size n sz \<noteq> 0" using validated_size [OF a(1)] by (simp add: owner_handle_def)
  obtain mem where mem: "initialize raw a n sz = Inr mem"
    using initialize_returns [OF req, of a raw] assms(2) a(2) by (auto simp: mmap_ok_def)
  let ?r = "\<lparr>rt_slot_count = n, rt_slot_size = sz, rt_producer_attempts = pa, rt_consumer_attempts = ca\<rparr>"
  have "ring_new a n sz pa ca = Inr ?r" using ring_new_returns [OF req, of a pa ca] assms(2-4) a(2) by (simp add: mmap_ok_def)
  moreover have "is_consistent_empty ?r mem" using initialize_consistent [of raw a ?r mem] mem by simp
  ultimately show False
    using assms(1) a(2) mem by (auto simp: owner_create_def Let_def split: if_splits option.splits)
qed

lemma attach_no_throw:
  assumes "peer_attach page oc mem h x pa ca os = (Inl e, os')" "mmap_ok oc" "pa \<noteq> 0" "ca \<noteq> 0"
  shows False
proof -
  obtain a where a: "validate_handle_against page h x = []" "oc_mmap oc = Some a"
    using assms(1) by (auto simp: peer_attach_def Let_def split: if_splits option.splits)
  then have "required_size (ph_slot_count h) (ph_slot_size h) \<noteq> 0"
    by (intro validated_size [of page]) (auto simp: validate_handle_against_def split: if_splits)
  from ring_new_returns [OF this, of a pa ca] assms(2-4) a(2)
  have "ring_new a (ph_slot_count h) (ph_slot_size h) pa ca = Inr \<lparr>rt_slot_count = ph_slot_count h, rt_slot_size = ph_slot_size h,
      rt_producer_attempts = pa, rt_consumer_attempts = ca\<rparr>" by (simp add: mmap_ok_def)
  with assms(1) a(2) show False by (auto simp: peer_attach_def Let_def split: if_splits option.splits)
qed

section \<open>Properties\<close>

text \<open>C19.  The object of a ring: its name is a valid object name of at most 29 characters that no other rank of
  any job or device can have; creating it either fails and leaves no name, descriptor or mapping
  behind, or gives an empty ring, which destruction undoes completely and to which every peer that
  expects this owner and geometry attaches, if its system calls succeed.\<close>

theorem posix_ring_lifecycle:
  fixes rank :: int
  assumes "0 \<le> rank" "rank < 2 ^ 31" "mmap_ok oc"
    and "owner_create page oc raw (make_posix_ring_name nonce uid rank) rank uid n sz mx pa ca os = (res, os')"
  shows "length (make_posix_ring_name nonce uid rank) < posix_ring_name_capacity
    \<and> valid_object_name (c_str (make_posix_ring_name nonce uid rank)) (length (make_posix_ring_name nonce uid rank) + 1)
    \<and> (\<forall>rank' nonce' uid'. 0 \<le> rank' \<and> rank' < 2 ^ 31 \<and> rank' \<noteq> rank \<longrightarrow> make_posix_ring_name nonce' uid' rank' \<noteq> make_posix_ring_name nonce uid rank)
    \<and> (case res of
         Inr (Inr (m, mem)) \<Rightarrow> is_consistent_empty (mp_ring m) mem \<and> owner_destroy m os' = os
           \<and> (\<forall>oc' ps a. oc_open oc' \<and> oc_fstat oc' = Some (uint (posix_ring_mapping_size page n sz)) \<and> oc_mmap oc' = Some a \<and> oc_close oc'
               \<and> mmap_ok oc' \<and> make_posix_ring_name nonce uid rank \<in> dom (os_names ps) \<longrightarrow>
               (\<exists>m' ps'. peer_attach page oc' mem (mp_handle m) (expects page (make_posix_ring_name nonce uid rank) rank uid n sz mx) pa ca ps = (Inr (Inr m'), ps')
                  \<and> mp_ring m' = mp_ring m \<and> peer_destroy m' ps' = ps))
       | _ \<Rightarrow> os' = os)"
proof (intro conjI)
  let ?name = "make_posix_ring_name nonce uid rank" let ?t = "ring_name_tail nonce uid rank"
  note nf = ring_name_facts [of nonce uid rank] note sh = ring_name_shape(2) [of nonce uid rank]
  show len: "length ?name < posix_ring_name_capacity" using nf(4) by (simp add: posix_ring_name_capacity_def posix_ring_portable_name_max_def)
  have "valid_object_name (CHR ''/'' # ?t @ NUL # replicate 0 NUL) (length ?name + 1)"
    by (rule valid_name_padded) (use nf sh in simp_all)
  then show "valid_object_name (c_str ?name) (length ?name + 1)" using sh by (simp add: c_str_def)
  show "\<forall>rank' nonce' uid'. 0 \<le> rank' \<and> rank' < 2 ^ 31 \<and> rank' \<noteq> rank \<longrightarrow> make_posix_ring_name nonce' uid' rank' \<noteq> ?name"
    using ring_name_rank assms(1,2) by blast
  show "case res of Inr (Inr (m, mem)) \<Rightarrow> is_consistent_empty (mp_ring m) mem \<and> owner_destroy m os' = os
           \<and> (\<forall>oc' ps a. oc_open oc' \<and> oc_fstat oc' = Some (uint (posix_ring_mapping_size page n sz)) \<and> oc_mmap oc' = Some a \<and> oc_close oc'
               \<and> mmap_ok oc' \<and> ?name \<in> dom (os_names ps) \<longrightarrow>
               (\<exists>m' ps'. peer_attach page oc' mem (mp_handle m) (expects page ?name rank uid n sz mx) pa ca ps = (Inr (Inr m'), ps')
                  \<and> mp_ring m' = mp_ring m \<and> peer_destroy m' ps' = ps))
       | _ \<Rightarrow> os' = os"
  proof (cases "\<exists>m mem. res = Inr (Inr (m, mem))")
    case False
    with create_cases [OF assms(4,3)] show ?thesis by (auto split: sum.splits)
  next
    case True
    then obtain m mem where res: "res = Inr (Inr (m, mem))" by blast
    let ?h = "owner_handle page ?name rank uid n sz mx"
    let ?r = "\<lparr>rt_slot_count = n, rt_slot_size = sz, rt_producer_attempts = pa, rt_consumer_attempts = ca\<rparr>"
    obtain a where a: "oc_mmap oc = Some a" "?name \<notin> dom (os_names os)" "validate_handle page ?h = []" "initialize raw a n sz = Inr mem"
      "m = \<lparr>mp_region = a, mp_handle = ?h, mp_ring = ?r, mp_linked = True\<rparr>"
      "os' = os\<lparr>os_names := (os_names os)(?name \<mapsto> posix_ring_mapping_size page n sz), os_maps := a # os_maps os\<rparr>"
      using create_cases [OF assms(4,3)] res by auto
    note own = own_handle_expected [OF a(3) sh nf(1,2,3) len]
    have empty: "is_consistent_empty ?r mem" using initialize_consistent [of raw a ?r mem] a(4) by simp
    have "owner_destroy m os' = os" using create_undo assms(3,4) res by blast
    moreover have "ring_new a n sz pa ca \<noteq> Inl e" for e
      using assms(4) res a(1,4) by (auto simp: owner_create_def Let_def split: if_splits option.splits)
    ultimately have "owner_destroy m os' = os \<and> (\<forall>oc' ps b. oc_open oc' \<and> oc_fstat oc' = Some (uint (posix_ring_mapping_size page n sz))
        \<and> oc_mmap oc' = Some b \<and> oc_close oc' \<and> mmap_ok oc' \<and> ?name \<in> dom (os_names ps) \<longrightarrow>
          (\<exists>m' ps'. peer_attach page oc' mem ?h (expects page ?name rank uid n sz mx) pa ca ps = (Inr (Inr m'), ps') \<and> mp_ring m' = ?r \<and> peer_destroy m' ps' = ps))"
      using attach_own [OF refl refl own a(4) _ empty] by blast
    then show ?thesis unfolding res using a(5) empty by simp
  qed
qed

definition calls_example :: os_calls where
  "calls_example = \<lparr>oc_open = True, oc_truncate = True, oc_fstat = Some 4096, oc_mmap = Some 4096, oc_close = True\<rparr>"

lemma valid_ring_name: "valid_object_name (CHR ''/'' # t @ NUL # replicate k NUL) 31"
  if "NUL \<notin> set t" "CHR ''/'' \<notin> set t" "t \<noteq> []" "length t + 2 + k = 31"
  by (rule valid_name_padded) (use that in simp_all)

lemma example_geometry:
  "posix_ring_mapping_size 4096 1 64 = 4096" "required_size 1 64 = 192" "is_consistent_empty ring_example region_example"
  by code_simp+

lemma example_valid:
  assumes "0 \<le> rank" "uid \<noteq> 0"
  shows "validate_handle 4096 (owner_handle 4096 (make_posix_ring_name nonce uid rank) rank uid 1 64 40) = []"
proof -
  let ?name = "make_posix_ring_name nonce uid rank" let ?t = "ring_name_tail nonce uid rank"
  note nf = ring_name_facts [of nonce uid rank] note sh = ring_name_shape(2) [of nonce uid rank]
  have "c_str ?name @ drop (length ?name + 1) (ph_name handle_new) = CHR ''/'' # ?t @ NUL # replicate (29 - length ?t) NUL"
    using sh by (simp add: c_str_def handle_new_def posix_ring_name_capacity_def posix_ring_portable_name_max_def)
  moreover have "valid_object_name (CHR ''/'' # ?t @ NUL # replicate (29 - length ?t) NUL) 31"
    by (rule valid_ring_name) (use nf sh in simp_all)
  ultimately show ?thesis using assms
    by (simp add: validate_handle_def owner_handle_def handle_new_def Let_def example_geometry posix_ring_name_capacity_def
        posix_ring_portable_name_max_def payload_capacity_def sizeof_slot_header_def)
qed

lemma example_created:
  assumes "0 \<le> rank" "uid \<noteq> 0" "make_posix_ring_name nonce uid rank \<notin> dom (os_names os)"
  shows "owner_create 4096 calls_example (\<lambda>_. replicate 40 0) (make_posix_ring_name nonce uid rank) rank uid 1 64 40 4 1 os =
     (Inr (Inr (\<lparr>mp_region = 4096, mp_handle = owner_handle 4096 (make_posix_ring_name nonce uid rank) rank uid 1 64 40, mp_ring = ring_example,
        mp_linked = True\<rparr>, region_example)),
      os\<lparr>os_names := (os_names os)(make_posix_ring_name nonce uid rank \<mapsto> 4096), os_maps := 4096 # os_maps os\<rparr>)"
proof -
  let ?name = "make_posix_ring_name nonce uid rank"
  have len: "length ?name < 31" "NUL \<notin> set ?name"
    using ring_name_facts [of nonce uid rank] ring_name_shape(2) [of nonce uid rank] by (auto simp: NUL_def)
  have "initialize (\<lambda>_. replicate 40 0) 4096 1 64 = Inr region_example"
    by (simp add: initialize_def initialize_at_def Let_def example_geometry maximum_position_def cache_line_def region_example_def encode_sequence_def)
  moreover have "ring_new 4096 1 64 4 1 = Inr ring_example" by (simp add: ring_new_def example_geometry cache_line_def ring_example_def Let_def)
  ultimately show ?thesis using example_valid [OF assms(1,2), of nonce] len assms(3)
    by (simp add: owner_create_def owner_handle_def calls_example_def Let_def example_geometry posix_ring_name_capacity_def
        posix_ring_portable_name_max_def close_fd_def mmap_def domIff)
qed

lemma calls_example_mmap: "mmap_ok calls_example"
  by (simp add: mmap_ok_def calls_example_def cache_line_def)

theorem posix_ring_lifecycle_witness:
  "\<exists>m mem os'. owner_create 4096 calls_example (\<lambda>_. replicate 40 0) (make_posix_ring_name (1, 2) 3 0) 0 3 1 64 40 4 1
      \<lparr>os_names = Map.empty, os_fds = 0, os_maps = []\<rparr> = (Inr (Inr (m, mem)), os')
    \<and> owner_destroy m os' = \<lparr>os_names = Map.empty, os_fds = 0, os_maps = []\<rparr>"
proof -
  have run: "owner_create 4096 calls_example (\<lambda>_. replicate 40 0) (make_posix_ring_name (1, 2) 3 0) 0 3 1 64 40 4 1 \<lparr>os_names = Map.empty, os_fds = 0, os_maps = []\<rparr> =
    (Inr (Inr (\<lparr>mp_region = 4096, mp_handle = owner_handle 4096 (make_posix_ring_name (1, 2) 3 0) 0 3 1 64 40, mp_ring = ring_example, mp_linked = True\<rparr>, region_example)),
     \<lparr>os_names = [make_posix_ring_name (1, 2) 3 0 \<mapsto> 4096], os_fds = 0, os_maps = [4096]\<rparr>)"
    using example_created [of 0 3 "(1, 2)" "\<lparr>os_names = Map.empty, os_fds = 0, os_maps = []\<rparr>"] by simp
  from posix_ring_lifecycle [OF _ _ calls_example_mmap run] run show ?thesis by auto
qed

end
