(* ===== verification/LCI_Protocol.thy ===== *)
theory LCI_Protocol
  imports LCI_Matching_Map LCI_Registry LCI_Backlog LCI_Packet
begin

text \<open>
  The state of one process that the posting and the progress of communication share: byte memory,
  the internal contexts of \<^verbatim>\<open>src/core/protocol.hpp\<close>, the local contexts of packets
  (\<^verbatim>\<open>src/packet_pool/packet.hpp\<close>), the matching engines, the handler registry, the archive of the
  rendezvous protocol and the endpoint; and the small operations on it: allocating, deleting and
  completing a context.  Packets go back to the packet pool and completions to their completion
  objects; the state records both in the order in which they happen.
\<close>

section \<open>Bytes\<close>

text \<open>Little-endian bytes of an integer of a given width, as \<^verbatim>\<open>memcpy\<close> of an object writes them.\<close>

primrec le_bytes :: "nat \<Rightarrow> nat \<Rightarrow> u8 list" where
  "le_bytes 0 n = []"
| "le_bytes (Suc k) n = of_nat n # le_bytes k (n div 256)"

primrec le_nat :: "u8 list \<Rightarrow> nat" where
  "le_nat [] = 0"
| "le_nat (b # bs) = unat b + 256 * le_nat bs"

lemma length_le_bytes [simp]: "length (le_bytes k n) = k"
  by (induction k arbitrary: n) simp_all

lemma le_nat_le_bytes: "le_nat (le_bytes k n) = n mod 256 ^ k"
proof (induction k arbitrary: n)
  case (Suc k)
  have "unat (of_nat n :: u8) = n mod 256"
    by (simp add: unsigned_of_nat take_bit_eq_mod)
  with Suc show ?case by (simp add: mod_mult2_eq)
qed simp

lemma le_nat_le_bytes_u64 [simp]: "le_nat (le_bytes 8 (unat (w :: u64))) = unat w"
proof -
  have "unat w < 2 ^ LENGTH(64)" by (rule unsigned_less)
  then show ?thesis by (simp add: le_nat_le_bytes)
qed

lemma le_nat_le_bytes_u32 [simp]: "le_nat (le_bytes 4 (unat (w :: u32))) = unat w"
proof -
  have "unat w < 2 ^ LENGTH(32)" by (rule unsigned_less)
  then show ?thesis by (simp add: le_nat_le_bytes)
qed

definition read_bytes :: "(addr \<Rightarrow> u8) \<Rightarrow> addr \<Rightarrow> nat \<Rightarrow> u8 list" where
  "read_bytes m a n = map (\<lambda>i. m (a + i)) [0..<n]"

definition write_bytes :: "(addr \<Rightarrow> u8) \<Rightarrow> addr \<Rightarrow> u8 list \<Rightarrow> (addr \<Rightarrow> u8)" where
  "write_bytes m a bs = (\<lambda>x. if a \<le> x \<and> x < a + length bs then bs ! (x - a) else m x)"

lemma length_read_bytes [simp]: "length (read_bytes m a n) = n"
  by (simp add: read_bytes_def)

lemma read_write_same [simp]: "length bs = n \<Longrightarrow> read_bytes (write_bytes m a bs) a n = bs"
  by (auto simp: read_bytes_def write_bytes_def intro: nth_equalityI)

lemma read_write_other [simp]:
  "a + n \<le> b \<or> b + length bs \<le> a \<Longrightarrow> read_bytes (write_bytes m b bs) a n = read_bytes m a n"
  by (auto simp: read_bytes_def write_bytes_def)

lemma read_bytes_append: "read_bytes m a (n + k) = read_bytes m a n @ read_bytes m (a + n) k"
  by (rule nth_equalityI) (auto simp: read_bytes_def nth_append)

lemma write_bytes_append:
  "write_bytes (write_bytes m a xs) (a + length xs) ys = write_bytes m a (xs @ ys)"
  by (auto simp: write_bytes_def nth_append fun_eq_iff)

lemma write_bytes_Nil [simp]: "write_bytes m a [] = m"
  by (auto simp: write_bytes_def fun_eq_iff)

lemma read_bytes_0 [simp]: "read_bytes m a 0 = []"
  by (simp add: read_bytes_def)

section \<open>Contexts and packets\<close>

text \<open>\<^verbatim>\<open>internal_context_t\<close> and \<^verbatim>\<open>internal_context_extended_t\<close>; their first bit tells them apart.\<close>

record internal_context_t =
  ic_mr_on_the_fly :: bool
  ic_is_user_posted_op :: bool
  ic_rank :: int
  ic_comp :: addr
  ic_tag :: tag_t
  ic_buffer :: addr
  ic_size :: nat
  ic_user_context :: addr
  ic_packet_to_free :: addr
  ic_mr :: addr

definition new_internal_context :: internal_context_t where
  "new_internal_context = \<lparr>ic_mr_on_the_fly = False, ic_is_user_posted_op = False, ic_rank = -1,
     ic_comp = 0, ic_tag = 0, ic_buffer = 0, ic_size = 0, ic_user_context = 0, ic_packet_to_free = 0,
     ic_mr = 0\<rparr>"

record internal_context_extended_t =
  xc_internal_ctx :: addr
  xc_signal_count :: int
  xc_recv_ctx :: addr
  xc_imm_data_rank :: int
  xc_imm_data :: net_imm_data_t

definition new_internal_context_extended :: internal_context_extended_t where
  "new_internal_context_extended = \<lparr>xc_internal_ctx = 0, xc_signal_count = 0, xc_recv_ctx = 0,
     xc_imm_data_rank = -1, xc_imm_data = 0\<rparr>"

datatype ctx = Simple internal_context_t | Extended internal_context_extended_t

text \<open>The part of \<^verbatim>\<open>packet_local_context_t\<close> that describes the ongoing communication.\<close>

record packet_ctx_t =
  pc_local_id :: int
  pc_is_eager :: bool
  pc_rank :: int
  pc_tag :: tag_t
  pc_size :: nat

text \<open>\<^verbatim>\<open>sizeof(packet_local_context_t)\<close> on the 64-bit ABI.\<close>

definition sizeof_packet_local_context :: nat where "sizeof_packet_local_context = 40"

definition get_payload_address :: "addr \<Rightarrow> addr" where
  "get_payload_address packet = packet + sizeof_packet_local_context"

definition address2packet :: "addr \<Rightarrow> addr" where
  "address2packet address = address - sizeof_packet_local_context"

lemma address2packet_payload [simp]: "address2packet (get_payload_address p) = p"
  by (simp add: address2packet_def get_payload_address_def)

section \<open>The state of a process\<close>

text \<open>Memory registration (\<^verbatim>\<open>register_memory_x\<close>, \<^verbatim>\<open>get_rmr\<close>, \<^verbatim>\<open>get_mr\<close>) belongs to the network library:
  \<open>cf_register\<close>, \<open>cf_rmr\<close> and \<open>cf_packet_mr\<close> are what it answers.\<close>

record config =
  cf_max_imm_tag :: tag_t
  cf_max_imm_rcomp :: rcomp_t
  cf_imm_nbits_tag :: int
  cf_imm_nbits_rcomp :: int
  cf_writeimm :: bool
  cf_max_msg_size :: nat
  cf_max_inject_size :: nat
  cf_payload_size :: nat
  cf_packet_return_threshold :: nat
  cf_zero_copy_am :: "addr \<Rightarrow> bool"
  cf_register :: "addr \<Rightarrow> nat \<Rightarrow> addr"
  cf_rmr :: "addr \<Rightarrow> rmr_t"
  cf_packet_mr :: addr

record world =
  w_mem :: "addr \<Rightarrow> u8"
  w_ctxs :: "addr \<Rightarrow> ctx option"
  w_next :: addr
  w_packets :: "addr \<Rightarrow> packet_ctx_t"
  w_returned :: "addr list"
  w_signals :: "(addr \<times> status_t) list"
  w_deregistered :: "addr list"
  w_ep :: endpoint_t
  w_engines :: "addr \<Rightarrow> table_t"
  w_registry :: rhandler_registry_t
  w_archive :: imm_tag_archive_t
  w_network_failed :: bool
  w_recvs_consumed :: nat
  w_freed_comps :: "addr list"

definition mr_is_empty :: "addr \<Rightarrow> bool" where
  "mr_is_empty mr \<longleftrightarrow> mr < 3"

definition put_back :: "addr \<Rightarrow> world \<Rightarrow> world" where
  "put_back p w = w\<lparr>w_returned := w_returned w @ [p]\<rparr>"

definition comp_signal :: "addr \<Rightarrow> status_t \<Rightarrow> world \<Rightarrow> world" where
  "comp_signal cm st w = w\<lparr>w_signals := w_signals w @ [(cm, st)]\<rparr>"

definition deregister_memory :: "addr \<Rightarrow> world \<Rightarrow> world" where
  "deregister_memory mr w = w\<lparr>w_deregistered := w_deregistered w @ [mr]\<rparr>"

text \<open>\<^verbatim>\<open>new\<close>: addresses are handed out in increasing order and are not reused.\<close>

definition new_ctx :: "ctx \<Rightarrow> world \<Rightarrow> addr \<times> world" where
  "new_ctx c w = (w_next w, w\<lparr>w_ctxs := (w_ctxs w)(w_next w \<mapsto> c), w_next := w_next w + 1\<rparr>)"

definition allocate :: "nat \<Rightarrow> world \<Rightarrow> addr \<times> world" where
  "allocate n w = (w_next w, w\<lparr>w_next := w_next w + n + 1\<rparr>)"

definition get_ctx :: "addr \<Rightarrow> world \<Rightarrow> internal_context_t res" where
  "get_ctx a w = (case w_ctxs w a of Some (Simple c) \<Rightarrow> Inr c | _ \<Rightarrow> Inl Undefined_behaviour)"

definition get_ectx :: "addr \<Rightarrow> world \<Rightarrow> internal_context_extended_t res" where
  "get_ectx a w = (case w_ctxs w a of Some (Extended c) \<Rightarrow> Inr c | _ \<Rightarrow> Inl Undefined_behaviour)"

definition set_ctx :: "addr \<Rightarrow> ctx \<Rightarrow> world \<Rightarrow> world" where
  "set_ctx a c w = w\<lparr>w_ctxs := (w_ctxs w)(a \<mapsto> c)\<rparr>"

definition set_mr_on_the_fly :: "addr \<Rightarrow> internal_context_t \<Rightarrow> internal_context_t" where
  "set_mr_on_the_fly mr c = c\<lparr>ic_mr_on_the_fly := True, ic_mr := mr\<rparr>"

text \<open>\<^verbatim>\<open>set_user_posted_op\<close> binds the context to the endpoint and counts it there.\<close>

definition set_user_posted_op :: "internal_context_t \<Rightarrow> world \<Rightarrow> internal_context_t \<times> world" where
  "set_user_posted_op c w = (c\<lparr>ic_is_user_posted_op := True\<rparr>, w\<lparr>w_ep := add_pending_ops 1 (w_ep w)\<rparr>)"

text \<open>\<^verbatim>\<open>delete\<close> with the destructor \<^verbatim>\<open>~internal_context_t\<close>.\<close>

definition ctx_destructor :: "internal_context_t \<Rightarrow> world \<Rightarrow> world" where
  "ctx_destructor c w =
     (let w = (if ic_mr_on_the_fly c then deregister_memory (ic_mr c) w else w);
          w = (if ic_packet_to_free c \<noteq> 0 then put_back (ic_packet_to_free c) w else w)
      in if ic_is_user_posted_op c then w\<lparr>w_ep := sub_pending_ops 1 (w_ep w)\<rparr> else w)"

definition delete_ctx :: "addr \<Rightarrow> world \<Rightarrow> world res" where
  "delete_ctx a w = bindR (get_ctx a w) (\<lambda>c. Inr (ctx_destructor c (w\<lparr>w_ctxs := (w_ctxs w)(a := None)\<rparr>)))"

definition delete_ectx :: "addr \<Rightarrow> world \<Rightarrow> world res" where
  "delete_ectx a w = bindR (get_ectx a w) (\<lambda>_. Inr (w\<lparr>w_ctxs := (w_ctxs w)(a := None)\<rparr>))"

definition ic_get_status :: "internal_context_t \<Rightarrow> status_t" where
  "ic_get_status c = (set_done status_init)\<lparr>st_rank := ic_rank c, st_tag := ic_tag c, st_buffer := ic_buffer c,
     st_size := ic_size c, st_user_context := ic_user_context c\<rparr>"

definition free_ctx_and_signal_comp :: "addr \<Rightarrow> world \<Rightarrow> world res" where
  "free_ctx_and_signal_comp a w =
     bindR (get_ctx a w) (\<lambda>c.
     bindR (delete_ctx a w) (\<lambda>w.
     Inr (if ic_comp c \<noteq> 0 then comp_signal (ic_comp c) (ic_get_status c) w else w)))"

text \<open>Posting a request to the endpoint.\<close>

definition ep_post :: "(endpoint_t \<Rightarrow> (errorcode_t \<times> endpoint_t) res) \<Rightarrow> world \<Rightarrow> (errorcode_t \<times> world) res" where
  "ep_post f w = bindR (f (w_ep w)) (\<lambda>(e, ep). Inr (e, w\<lparr>w_ep := ep\<rparr>))"

text \<open>Inserting into the matching engine at an address.\<close>

definition engine_insert :: "addr \<Rightarrow> key_t \<Rightarrow> val_t \<Rightarrow> insert_type_t \<Rightarrow> world \<Rightarrow> val_t \<times> world" where
  "engine_insert eng key v t w =
     (let (ret, table) = map_insert (w_engines w eng) key v t in (ret, w\<lparr>w_engines := (w_engines w)(eng := table)\<rparr>))"

text \<open>\<^verbatim>\<open>static_cast<matching_policy_t>(entry.metadata)\<close>\<close>

definition policy_of :: "u64 \<Rightarrow> matching_policy_t" where
  "policy_of v = (if v = 0 then mp_none else if v = 1 then mp_rank_only else if v = 2 then mp_tag_only
     else if v = 3 then mp_rank_tag else mp_max)"

lemma policy_of_val [simp]: "policy_of (ucast (policy_val p)) = p"
  by (cases p) (simp_all add: policy_of_def)

text \<open>What deleting a context does to the state.\<close>

lemma ctx_destructor_simps [simp]:
  "w_mem (ctx_destructor c w) = w_mem w"
  "w_ctxs (ctx_destructor c w) = w_ctxs w"
  "w_signals (ctx_destructor c w) = w_signals w"
  "w_next (ctx_destructor c w) = w_next w"
  "w_packets (ctx_destructor c w) = w_packets w"
  "w_engines (ctx_destructor c w) = w_engines w"
  "w_registry (ctx_destructor c w) = w_registry w"
  "w_archive (ctx_destructor c w) = w_archive w"
  "w_returned (ctx_destructor c w) = w_returned w @ (if ic_packet_to_free c \<noteq> 0 then [ic_packet_to_free c] else [])"
  "w_deregistered (ctx_destructor c w) = w_deregistered w @ (if ic_mr_on_the_fly c then [ic_mr c] else [])"
  "ep_posted (w_ep (ctx_destructor c w)) = ep_posted (w_ep w)"
  "bq_queue (w_ep (ctx_destructor c w)) = bq_queue (w_ep w)"
  "ep_pending_ops (w_ep (ctx_destructor c w)) = ep_pending_ops (w_ep w) - (if ic_is_user_posted_op c then 1 else 0)"
  by (simp_all add: ctx_destructor_def Let_def deregister_memory_def put_back_def sub_pending_ops_def)

lemma comp_signal_simps [simp]:
  "w_mem (comp_signal c st w) = w_mem w"
  "w_ctxs (comp_signal c st w) = w_ctxs w"
  "w_signals (comp_signal c st w) = w_signals w @ [(c, st)]"
  "w_returned (comp_signal c st w) = w_returned w"
  "w_deregistered (comp_signal c st w) = w_deregistered w"
  "w_ep (comp_signal c st w) = w_ep w"
  by (simp_all add: comp_signal_def)

lemma put_back_simps [simp]:
  "w_mem (put_back p w) = w_mem w"
  "w_ctxs (put_back p w) = w_ctxs w"
  "w_signals (put_back p w) = w_signals w"
  "w_returned (put_back p w) = w_returned w @ [p]"
  "w_ep (put_back p w) = w_ep w"
  "w_archive (put_back p w) = w_archive w"
  by (simp_all add: put_back_def)

text \<open>Completing a context: it is gone, its resources are released, its completion object is
  signalled once if it has one.\<close>

lemma free_ctx_and_signal_comp_spec:
  assumes "w_ctxs w a = Some (Simple c)"
  shows "\<exists>w'. free_ctx_and_signal_comp a w = Inr w' \<and> w_ctxs w' = (w_ctxs w)(a := None)
     \<and> w_signals w' = w_signals w @ (if ic_comp c \<noteq> 0 then [(ic_comp c, ic_get_status c)] else [])
     \<and> w_returned w' = w_returned w @ (if ic_packet_to_free c \<noteq> 0 then [ic_packet_to_free c] else [])
     \<and> w_deregistered w' = w_deregistered w @ (if ic_mr_on_the_fly c then [ic_mr c] else [])
     \<and> w_mem w' = w_mem w \<and> ep_posted (w_ep w') = ep_posted (w_ep w) \<and> bq_queue (w_ep w') = bq_queue (w_ep w)
     \<and> ep_pending_ops (w_ep w') = ep_pending_ops (w_ep w) - (if ic_is_user_posted_op c then 1 else 0)"
  using assms by (auto simp: free_ctx_and_signal_comp_def delete_ctx_def get_ctx_def)

end
