(* ===== verification/LCI_Rendezvous.thy ===== *)
theory LCI_Rendezvous
  imports LCI_Protocol
begin

text \<open>
  The handlers of \<^verbatim>\<open>src/core/rendezvous.hpp\<close>: completing a matched send and receive, and the three
  messages of the rendezvous protocol, request-to-send, ready-to-receive and finish.  The receiver
  answers a request with the address of its buffer, the sender writes the data there in chunks and
  then tells the receiver, by a message or by the immediate data of the last write.
\<close>

section \<open>Messages\<close>

definition load :: "(addr \<Rightarrow> u8) \<Rightarrow> addr \<Rightarrow> nat \<Rightarrow> nat" where
  "load m a k = le_nat (read_bytes m a k)"

definition store :: "(addr \<Rightarrow> u8) \<Rightarrow> addr \<Rightarrow> nat \<Rightarrow> nat \<Rightarrow> (addr \<Rightarrow> u8)" where
  "store m a k n = write_bytes m a (le_bytes k n)"

record rts_msg_t =
  rts_rcomp :: rcomp_t
  rts_send_ctx :: addr
  rts_tag :: tag_t
  rts_size :: nat

record rtr_msg_t =
  rtr_send_ctx :: addr
  rtr_recv_ctx_or_key :: addr
  rtr_rmr :: rmr_t
  rtr_offset :: u64

definition sizeof_rts :: nat where "sizeof_rts = 32"
definition sizeof_rtr :: nat where "sizeof_rtr = 48"

text \<open>The structs in memory; the padding after the 32-bit handler keeps what was there.\<close>

definition read_rts :: "(addr \<Rightarrow> u8) \<Rightarrow> addr \<Rightarrow> rts_msg_t" where
  "read_rts m p = \<lparr>rts_rcomp = of_nat (load m p 4), rts_send_ctx = load m (p + 8) 8,
     rts_tag = of_nat (load m (p + 16) 8), rts_size = load m (p + 24) 8\<rparr>"

definition write_rts :: "(addr \<Rightarrow> u8) \<Rightarrow> addr \<Rightarrow> rts_msg_t \<Rightarrow> (addr \<Rightarrow> u8)" where
  "write_rts m p r =
     store (store (store (store m (p + 8) 8 (rts_send_ctx r)) (p + 16) 8 (unat (rts_tag r)))
       p 4 (unat (rts_rcomp r))) (p + 24) 8 (rts_size r)"

definition read_rtr :: "(addr \<Rightarrow> u8) \<Rightarrow> addr \<Rightarrow> rtr_msg_t" where
  "read_rtr m p = \<lparr>rtr_send_ctx = load m p 8, rtr_recv_ctx_or_key = load m (p + 8) 8,
     rtr_rmr = \<lparr>rmr_base = of_nat (load m (p + 16) 8), rmr_mr_base = of_nat (load m (p + 24) 8),
                opaque_rkey = of_nat (load m (p + 32) 8)\<rparr>,
     rtr_offset = of_nat (load m (p + 40) 8)\<rparr>"

definition write_rtr :: "(addr \<Rightarrow> u8) \<Rightarrow> addr \<Rightarrow> rtr_msg_t \<Rightarrow> (addr \<Rightarrow> u8)" where
  "write_rtr m p r =
     store (store (store (store (store (store m p 8 (rtr_send_ctx r)) (p + 8) 8 (rtr_recv_ctx_or_key r))
       (p + 16) 8 (unat (rmr_base (rtr_rmr r)))) (p + 24) 8 (unat (rmr_mr_base (rtr_rmr r))))
       (p + 32) 8 (unat (opaque_rkey (rtr_rmr r)))) (p + 40) 8 (unat (rtr_offset r))"

lemma load_store_same [simp]: "load (store m a k n) a k = n mod 256 ^ k"
  by (simp add: load_def store_def le_nat_le_bytes)

lemma load_store_other [simp]: "a + k \<le> b \<or> b + j \<le> a \<Longrightarrow> load (store m b j n) a k = load m a k"
  by (auto simp: load_def store_def)

lemma mod_u64 [simp]: "unat (w :: u64) mod 18446744073709551616 = unat w"
  using le_nat_le_bytes_u64 [of w] by (simp add: le_nat_le_bytes)

lemma mod_u32 [simp]: "unat (w :: u32) mod 4294967296 = unat w"
  using le_nat_le_bytes_u32 [of w] by (simp add: le_nat_le_bytes)

lemma read_write_rts [simp]:
  assumes "rts_send_ctx r < 2 ^ 64" "rts_size r < 2 ^ 64"
  shows "read_rts (write_rts m p r) p = r"
  using assms by (cases r) (simp add: read_rts_def write_rts_def)

lemma read_write_rtr [simp]:
  assumes "rtr_send_ctx r < 2 ^ 64" "rtr_recv_ctx_or_key r < 2 ^ 64"
  shows "read_rtr (write_rtr m p r) p = r"
  using assms by (cases r; cases "rtr_rmr r") (simp add: read_rtr_def write_rtr_def)

section \<open>Handlers\<close>

text \<open>The context of the receive: for an active message a new one with an allocated buffer, for a
  matched receive the posted one, which must be large enough.\<close>

definition rdv_recv_ctx :: "rts_msg_t \<Rightarrow> addr \<Rightarrow> world \<Rightarrow> (addr \<times> internal_context_t \<times> world) res" where
  "rdv_recv_ctx rts rdv_ctx w =
     (if rdv_ctx = 0 then
        let (c, w) = set_user_posted_op new_internal_context w;
            (buf, w) = (if 0 < rts_size rts then allocate (rts_size rts) w else (0, w)) in
        bindR (rr_get (rts_rcomp rts) (w_registry w)) (\<lambda>entry.
        let c = c\<lparr>ic_size := rts_size rts, ic_buffer := buf, ic_user_context := 0, ic_comp := re_value entry\<rparr>;
            (a, w) = new_ctx (Simple c) w in
        Inr (a, c, w))
      else
        bindR (get_ctx rdv_ctx w) (\<lambda>c.
        bindR (lci_assert (rts_size rts \<le> ic_size c)) (\<lambda>_.
        Inr (rdv_ctx, c\<lparr>ic_size := rts_size rts\<rparr>, w))))"

definition handle_rdv_rts_common :: "config \<Rightarrow> backend \<Rightarrow> addr \<Rightarrow> addr \<Rightarrow> world \<Rightarrow> world res" where
  "handle_rdv_rts_common cf be packet rdv_ctx w =
     (let pl = get_payload_address packet; rts = read_rts (w_mem w) pl in
      bindR (rdv_recv_ctx rts rdv_ctx w) (\<lambda>(a, c, w).
      let c = c\<lparr>ic_tag := rts_tag rts, ic_rank := pc_rank (w_packets w packet)\<rparr>;
          c = (if 0 < ic_size c \<and> mr_is_empty (ic_mr c)
               then set_mr_on_the_fly (cf_register cf (ic_buffer c) (ic_size c)) c else c);
          w = set_ctx a (Simple c) w;
          w = w\<lparr>w_packets := (w_packets w)(packet := (w_packets w packet)\<lparr>pc_local_id := LOCAL_SET_ID_NULL\<rparr>)\<rparr>;
          rmr = cf_rmr cf (ic_mr c) in
      bindR (if cf_writeimm cf
             then bindR (archive_insert (of_nat a) (w_archive w)) (\<lambda>(key, ar). Inr (unat key, w\<lparr>w_archive := ar\<rparr>))
             else Inr (a, w)) (\<lambda>(key, w).
      let rtr = \<lparr>rtr_send_ctx = rts_send_ctx rts, rtr_recv_ctx_or_key = key, rtr_rmr = rmr,
                 rtr_offset = of_nat (ic_buffer c) - rmr_base rmr\<rparr>;
          w = w\<lparr>w_mem := write_rtr (w_mem w) pl rtr\<rparr>;
          (rtr_ctx, w) = new_ctx (Simple (new_internal_context\<lparr>ic_packet_to_free := packet\<rparr>)) w in
      bindR (encode_msg_type IMM_DATA_MSG_RTR) (\<lambda>imm.
      bindR (ep_post (post_send be (mk_send (ic_rank c) pl sizeof_rtr (cf_packet_mr cf) imm (Ctx rtr_ctx)) False False) w)
        (\<lambda>(e, w). bindR (lci_assert (is_posted e)) (\<lambda>_. Inr w))))))"

text \<open>\<open>p_status\<close> is the status of the caller, if it asks for the result instead of a signal.\<close>

definition handle_matched_sendrecv :: "config \<Rightarrow> backend \<Rightarrow> addr \<Rightarrow> addr \<Rightarrow> status_t option \<Rightarrow> world
    \<Rightarrow> (status_t option \<times> world) res" where
  "handle_matched_sendrecv cf be packet recv_ctx p_status w =
     (if pc_is_eager (w_packets w packet) then
        bindR (get_ctx recv_ctx w) (\<lambda>rc.
        bindR (delete_ctx recv_ctx w) (\<lambda>w.
        let pc = w_packets w packet;
            st = (set_done status_init)\<lparr>st_buffer := ic_buffer rc, st_user_context := ic_user_context rc,
                   st_rank := pc_rank pc, st_tag := pc_tag pc, st_size := pc_size pc\<rparr>;
            w = (if 0 < pc_size pc
                 then w\<lparr>w_mem := write_bytes (w_mem w) (st_buffer st)
                          (read_bytes (w_mem w) (get_payload_address packet) (pc_size pc))\<rparr>
                 else w);
            w = put_back packet w in
        case p_status of
          None \<Rightarrow> Inr (None, comp_signal (ic_comp rc) st w)
        | Some _ \<Rightarrow> Inr (Some st, w)))
      else
        bindR (handle_rdv_rts_common cf be packet recv_ctx w) (\<lambda>w. Inr (map_option set_posted p_status, w)))"

definition handle_rdv_rts :: "config \<Rightarrow> backend \<Rightarrow> addr \<Rightarrow> world \<Rightarrow> world res" where
  "handle_rdv_rts cf be packet w =
     (let rts = read_rts (w_mem w) (get_payload_address packet) in
      bindR (rr_get (rts_rcomp rts) (w_registry w)) (\<lambda>entry.
      if re_type entry = rh_matching_engine then
        let pc = (w_packets w packet)\<lparr>pc_tag := rts_tag rts, pc_is_eager := False\<rparr>;
            w = w\<lparr>w_packets := (w_packets w)(packet := pc)\<rparr> in
        bindR (make_key (pc_rank pc) (pc_tag pc) (policy_of (re_metadata entry))) (\<lambda>key.
        let (ret, w) = engine_insert (re_value entry) key packet it_send w in
        if ret = 0 then Inr w else handle_rdv_rts_common cf be packet ret w)
      else handle_rdv_rts_common cf be packet 0 w))"

text \<open>The loop over the chunks.\<close>

function rdv_puts :: "backend \<Rightarrow> nat \<Rightarrow> bool \<Rightarrow> int \<Rightarrow> addr \<Rightarrow> nat \<Rightarrow> addr \<Rightarrow> rtr_msg_t \<Rightarrow> net_imm_data_t \<Rightarrow> addr
    \<Rightarrow> nat \<Rightarrow> world \<Rightarrow> world res" where
  "rdv_puts be max_msg use_writeimm rank buffer sz mr rtr imm ectx off w =
     (if max_msg = 0 \<or> sz \<le> off then Inr w
      else
        let len = min (sz - off) max_msg;
            roff = rtr_offset rtr + of_nat off in
        bindR (if use_writeimm \<and> sz \<le> off + len
               then ep_post (post_putImm be (mk_putImm rank (buffer + off) len mr roff (rtr_rmr rtr) imm (Ctx ectx)) False False) w
               else ep_post (post_put be (mk_put rank (buffer + off) len mr roff (rtr_rmr rtr) (Ctx ectx)) False False) w)
          (\<lambda>(e, w).
          bindR (lci_assert (is_posted e)) (\<lambda>_.
          rdv_puts be max_msg use_writeimm rank buffer sz mr rtr imm ectx (off + max_msg) w)))"
  by pat_completeness auto
termination
  by (relation "measure (\<lambda>(be, max_msg, use_writeimm, rank, buffer, sz, mr, rtr, imm, ectx, off, w). sz - off)") auto

declare rdv_puts.simps [simp del]

definition handle_rdv_rtr :: "config \<Rightarrow> backend \<Rightarrow> addr \<Rightarrow> world \<Rightarrow> world res" where
  "handle_rdv_rtr cf be packet w =
     (let rtr = read_rtr (w_mem w) (get_payload_address packet) in
      bindR (get_ctx (rtr_send_ctx rtr) w) (\<lambda>c.
      if cf_max_msg_size cf = 0 then Inl Undefined_behaviour
      else
        let count = (ic_size c + cf_max_msg_size cf - 1) div cf_max_msg_size cf;
            tag_bits = ar_tag_bits (w_archive w);
            recv_key = (of_nat (rtr_recv_ctx_or_key rtr) :: u32) in
        bindR (if cf_writeimm cf
               then bindR (lci_assert (recv_key < push_bit tag_bits 1)) (\<lambda>_. encode_writeimm (int tag_bits) recv_key)
               else Inr 0) (\<lambda>writeimm_data.
        let x = new_internal_context_extended\<lparr>xc_internal_ctx := rtr_send_ctx rtr,
                  xc_signal_count := sint (of_nat count :: u32),
                  xc_recv_ctx := (if cf_writeimm cf then 0 else rtr_recv_ctx_or_key rtr)\<rparr>;
            (ectx, w) = new_ctx (Extended x) w;
            c' = (if mr_is_empty (ic_mr c) then set_mr_on_the_fly (cf_register cf (ic_buffer c) (ic_size c)) c else c);
            w = set_ctx (rtr_send_ctx rtr) (Simple c') w in
        bindR (rdv_puts be (cf_max_msg_size cf) (cf_writeimm cf) (ic_rank c) (ic_buffer c) (ic_size c) (ic_mr c')
                 rtr writeimm_data ectx 0 w) (\<lambda>w.
        Inr (put_back packet w)))))"

definition handle_rdv_local_write :: "backend \<Rightarrow> internal_context_extended_t \<Rightarrow> world \<Rightarrow> world res" where
  "handle_rdv_local_write be x w =
     bindR (lci_assert (xc_recv_ctx x \<noteq> 0)) (\<lambda>_.
     bindR (get_ctx (xc_internal_ctx x) w) (\<lambda>c.
     bindR (encode_msg_type IMM_DATA_MSG_FIN) (\<lambda>imm.
     bindR (ep_post (post_sends be (mk_sends (ic_rank c) (le_bytes 8 (xc_recv_ctx x)) imm No_ctx) False False) w) (\<lambda>(e, w).
     bindR (lci_assert (is_done e)) (\<lambda>_. Inr w)))))"

definition handle_rdv_remote_comp :: "addr \<Rightarrow> world \<Rightarrow> world res" where
  "handle_rdv_remote_comp a w = free_ctx_and_signal_comp a w"

definition handle_rdv_fin :: "addr \<Rightarrow> world \<Rightarrow> world res" where
  "handle_rdv_fin packet w =
     (let a = load (w_mem w) (get_payload_address packet) 8 in
      handle_rdv_remote_comp a (put_back packet w))"

section \<open>Posting from a handler\<close>

text \<open>The endpoint of a process is in a state in which requests for a peer are taken.\<close>

definition ep_ok :: "int \<Rightarrow> world \<Rightarrow> bool" where
  "ep_ok r w \<longleftrightarrow> ep_inv (w_ep w) \<and> ep_support_putimm (w_ep w) \<and> rank_ok (w_ep w) r"

abbreviation w_sent :: "int \<Rightarrow> world \<Rightarrow> net_req list" where
  "w_sent r w \<equiv> ep_sent r (w_ep w)"

lemma post_req_kind:
  "post_sends be (mk_sends r b i c) = post_req be (mk_sends r b i c)"
  "post_send be (mk_send r a z m i c) = post_req be (mk_send r a z m i c)"
  "post_put be (mk_put r a z m off rm c) = post_req be (mk_put r a z m off rm c)"
  "post_putImm be (mk_putImm r a z m off rm i c) = post_req be (mk_putImm r a z m off rm i c)"
  by (simp_all add: fun_eq_iff post_req_def mk_sends_def mk_send_def mk_put_def mk_putImm_def)

lemma mk_simps [simp]:
  "rq_rank (mk_sends r b i c) = r" "rq_op (mk_sends r b i c) = op_sends"
  "rq_rank (mk_send r a z m i c) = r" "rq_op (mk_send r a z m i c) = op_send"
  "rq_rank (mk_put r a z m off rm c) = r" "rq_op (mk_put r a z m off rm c) = op_put"
  "rq_rank (mk_putImm r a z m off rm i c) = r" "rq_op (mk_putImm r a z m off rm i c) = op_putImm"
  by (simp_all add: mk_sends_def mk_send_def mk_put_def mk_putImm_def)

context live_backend
begin

lemma world_post:
  assumes "ep_ok (rq_rank rq) w" "ok rq"
  shows "\<exists>e ep. ep_post (post_req backend rq False False) w = Inr (e, w\<lparr>w_ep := ep\<rparr>)
       \<and> (if is_short (rq_op rq) then is_done e else is_posted e)
       \<and> ep_ok (rq_rank rq) (w\<lparr>w_ep := ep\<rparr>) \<and> (\<forall>r. ep_sent r ep = w_sent r w @ for_rank r [rq])
       \<and> ep_pending_ops ep = ep_pending_ops (w_ep w)"
proof -
  obtain e ep where "post_req backend rq False False (w_ep w) = Inr (e, ep)"
      "if is_short (rq_op rq) then is_done e else is_posted e"
      "ep_inv ep" "ep_support_putimm ep" "length (bq_nentries ep) = length (bq_nentries (w_ep w))"
      "\<forall>r. ep_sent r ep = w_sent r w @ for_rank r [rq]" "ep_pending_ops ep = ep_pending_ops (w_ep w)"
    using post_accepted [of "w_ep w" rq] assms by (auto simp: ep_ok_def)
  with assms(1) show ?thesis
    by (intro exI [of _ e] exI [of _ ep]) (simp add: ep_post_def ep_ok_def rank_ok_def)
qed

end

text \<open>The chunk of a rendezvous message at an offset, and the offsets of the chunks.\<close>

definition rdv_chunk :: "nat \<Rightarrow> bool \<Rightarrow> int \<Rightarrow> addr \<Rightarrow> nat \<Rightarrow> addr \<Rightarrow> rtr_msg_t \<Rightarrow> net_imm_data_t \<Rightarrow> addr \<Rightarrow> nat \<Rightarrow> net_req" where
  "rdv_chunk max_msg use_writeimm rank buffer sz mr rtr imm ectx off =
     (let len = min (sz - off) max_msg; roff = rtr_offset rtr + of_nat off in
      if use_writeimm \<and> sz \<le> off + len
      then mk_putImm rank (buffer + off) len mr roff (rtr_rmr rtr) imm (Ctx ectx)
      else mk_put rank (buffer + off) len mr roff (rtr_rmr rtr) (Ctx ectx))"

function chunk_offs :: "nat \<Rightarrow> nat \<Rightarrow> nat \<Rightarrow> nat list" where
  "chunk_offs max_msg sz off = (if max_msg = 0 \<or> sz \<le> off then [] else off # chunk_offs max_msg sz (off + max_msg))"
  by pat_completeness auto
termination by (relation "measure (\<lambda>(max_msg, sz, off). sz - off)") auto

declare chunk_offs.simps [simp del]

lemma rdv_chunk_kind [simp]:
  "rq_rank (rdv_chunk mx wi rank buffer sz mr rtr imm ectx off) = rank"
  "\<not> is_short (rq_op (rdv_chunk mx wi rank buffer sz mr rtr imm ectx off))"
  by (simp_all add: rdv_chunk_def Let_def)

text \<open>As many chunks as the sender waits for completions.\<close>

lemma length_chunk_offs: "0 < mx \<Longrightarrow> length (chunk_offs mx sz off) = (sz - off + mx - 1) div mx"
proof (induction mx sz off rule: chunk_offs.induct)
  case (1 mx sz off)
  show ?case
  proof (cases "sz \<le> off")
    case True
    then show ?thesis using 1 by (simp add: chunk_offs.simps)
  next
    case False
    with 1 have "length (chunk_offs mx sz off) = 1 + (sz - (off + mx) + mx - 1) div mx"
      by (subst chunk_offs.simps) simp
    also have "\<dots> = (sz - off + mx - 1) div mx"
    proof (cases "sz \<le> off + mx")
      case True
      have "(sz - off + mx - 1) div mx = 1"
        using True False "1.prems" by (intro div_nat_eqI) auto
      moreover have "(mx - 1) div mx = 0" using "1.prems" by simp
      ultimately show ?thesis using True by simp
    next
      case big: False
      then have eq: "sz - off + mx - 1 = (sz - (off + mx) + mx - 1) + mx" by simp
      show ?thesis unfolding eq using "1.prems" by (simp only: div_add_self2)
    qed
    finally show ?thesis .
  qed
qed

context live_backend
begin

lemma rdv_puts_spec:
  assumes "\<And>rq. rq_rank rq = rank \<Longrightarrow> ok rq" "ep_ok rank w"
  shows "\<exists>ep. rdv_puts backend mx wi rank buffer sz mr rtr imm ectx off w = Inr (w\<lparr>w_ep := ep\<rparr>)
       \<and> ep_ok rank (w\<lparr>w_ep := ep\<rparr>) \<and> ep_pending_ops ep = ep_pending_ops (w_ep w)
       \<and> ep_sent rank ep = w_sent rank w
           @ map (rdv_chunk mx wi rank buffer sz mr rtr imm ectx) (chunk_offs mx sz off)"
  using assms(2)
proof (induction "sz - off" arbitrary: off w rule: less_induct)
  case less
  show ?case
  proof (cases "mx = 0 \<or> sz \<le> off")
    case True
    then show ?thesis using less.prems
      by (intro exI [of _ "w_ep w"]) (simp add: rdv_puts.simps chunk_offs.simps)
  next
    case False
    let ?rq = "rdv_chunk mx wi rank buffer sz mr rtr imm ectx off"
    obtain e ep1 where p: "ep_post (post_req backend ?rq False False) w = Inr (e, w\<lparr>w_ep := ep1\<rparr>)" "is_posted e"
        "ep_ok rank (w\<lparr>w_ep := ep1\<rparr>)" "ep_sent rank ep1 = w_sent rank w @ [?rq]"
        "ep_pending_ops ep1 = ep_pending_ops (w_ep w)"
      using world_post [of ?rq w] less.prems assms(1) by auto
    have "rdv_puts backend mx wi rank buffer sz mr rtr imm ectx off w
        = rdv_puts backend mx wi rank buffer sz mr rtr imm ectx (off + mx) (w\<lparr>w_ep := ep1\<rparr>)"
      using False p(1,2) by (subst rdv_puts.simps) (auto simp: rdv_chunk_def post_req_kind Let_def split: if_splits)
    moreover have "sz - (off + mx) < sz - off" using False by arith
    moreover have "chunk_offs mx sz off = off # chunk_offs mx sz (off + mx)"
      using False by (subst chunk_offs.simps) simp
    ultimately show ?thesis using less.hyps [of "off + mx" "w\<lparr>w_ep := ep1\<rparr>"] p(3-5) by auto
  qed
qed

end

text \<open>What the network does with a put: copy the bytes to the peer.\<close>

definition apply_put :: "(addr \<Rightarrow> u8) \<Rightarrow> net_req \<Rightarrow> (addr \<Rightarrow> u8) \<Rightarrow> (addr \<Rightarrow> u8)" where
  "apply_put src rq dst =
     (case rq_buf rq of
        At a \<Rightarrow> write_bytes dst (unat (rmr_base (rq_rmr rq) + rq_offset rq)) (read_bytes src a (rq_size rq))
      | Bytes bs \<Rightarrow> write_bytes dst (unat (rmr_base (rq_rmr rq) + rq_offset rq)) bs)"

lemma apply_put_chunk:
  assumes "rmr_base (rtr_rmr rtr) + rtr_offset rtr = of_nat ra" "ra + sz < 2 ^ 64" "off < sz"
  shows "apply_put src (rdv_chunk mx wi rank buffer sz mr rtr imm ectx off) dst
       = write_bytes dst (ra + off) (read_bytes src (buffer + off) (min (sz - off) mx))"
proof -
  have "rmr_base (rtr_rmr rtr) + (rtr_offset rtr + of_nat off) = of_nat (ra + off)"
    using assms(1) by (simp add: add.assoc [symmetric])
  moreover have "unat (of_nat (ra + off) :: u64) = ra + off"
    using assms(2,3) by (simp add: unsigned_of_nat take_bit_nat_eq_self del: of_nat_add)
  ultimately show ?thesis
    by (simp add: apply_put_def rdv_chunk_def Let_def mk_put_def mk_putImm_def del: of_nat_add)
qed

text \<open>Together the chunks copy the message.\<close>

lemma chunks_copy:
  assumes "rmr_base (rtr_rmr rtr) + rtr_offset rtr = of_nat ra" "ra + sz < 2 ^ 64" "0 < mx" "off \<le> sz"
  shows "fold (apply_put src) (map (rdv_chunk mx wi rank buffer sz mr rtr imm ectx) (chunk_offs mx sz off)) dst
       = write_bytes dst (ra + off) (read_bytes src (buffer + off) (sz - off))"
  using assms(4)
proof (induction "sz - off" arbitrary: off dst rule: less_induct)
  case less
  show ?case
  proof (cases "off = sz")
    case True
    then show ?thesis by (simp add: chunk_offs.simps)
  next
    case False
    with less.prems have lt: "off < sz" by simp
    let ?d = "write_bytes dst (ra + off) (read_bytes src (buffer + off) (min (sz - off) mx))"
    have offs: "chunk_offs mx sz off = off # chunk_offs mx sz (off + mx)"
      using lt assms(3) by (subst chunk_offs.simps) simp
    show ?thesis
    proof (cases "sz \<le> off + mx")
      case True
      then have "chunk_offs mx sz (off + mx) = []" "min (sz - off) mx = sz - off"
        by (auto simp: chunk_offs.simps)
      then show ?thesis
        using offs apply_put_chunk [OF assms(1,2) lt] by simp
    next
      case big: False
      then have len: "min (sz - off) mx = mx" by simp
      have split: "read_bytes src (buffer + off) (sz - off)
          = read_bytes src (buffer + off) mx @ read_bytes src (buffer + (off + mx)) (sz - (off + mx))"
        using big read_bytes_append [of src "buffer + off" mx "sz - (off + mx)"] by (simp add: add.assoc)
      have "fold (apply_put src) (map (rdv_chunk mx wi rank buffer sz mr rtr imm ectx) (chunk_offs mx sz off)) dst
          = write_bytes ?d (ra + (off + mx)) (read_bytes src (buffer + (off + mx)) (sz - (off + mx)))"
        using offs apply_put_chunk [OF assms(1,2) lt] less.hyps [of "off + mx" ?d] big lt assms(3) by simp
      then show ?thesis
        using big write_bytes_append [of dst "ra + off" "read_bytes src (buffer + off) mx"]
        by (simp add: split len add.assoc)
    qed
  qed
qed

section \<open>What the handlers do\<close>

text \<open>Contexts are at addresses that \<^verbatim>\<open>new\<close> has handed out.\<close>

definition heap_ok :: "world \<Rightarrow> bool" where
  "heap_ok w \<longleftrightarrow> 0 < w_next w \<and> (\<forall>a c. w_ctxs w a = Some c \<longrightarrow> 0 < a \<and> a < w_next w)"

lemma heap_okD: "heap_ok w \<Longrightarrow> w_ctxs w a = Some c \<Longrightarrow> 0 < a \<and> a < w_next w"
  by (auto simp: heap_ok_def)

lemma load_less: "load m a k < 256 ^ k"
proof -
  have "le_nat bs < 256 ^ length bs" for bs
  proof (induction bs)
    case (Cons b bs)
    have "unat b < 2 ^ LENGTH(8)" by (rule unsigned_less)
    then have "unat b < 256" by simp
    with Cons show ?case by simp
  qed simp
  from this [of "read_bytes m a k"] show ?thesis by (simp add: load_def)
qed

lemma encode_msg_type_total: "\<exists>imm. encode_msg_type t = Inr imm \<and> decode_imm imm = Inr (Imm_typed t)"
  using encode_msg_type_decode [of t] by (auto simp: res_iff)

text \<open>The receive context once the request has arrived.\<close>

definition rdv_ready :: "config \<Rightarrow> rts_msg_t \<Rightarrow> int \<Rightarrow> internal_context_t \<Rightarrow> internal_context_t" where
  "rdv_ready cf rts rank c =
     (let c = c\<lparr>ic_size := rts_size rts, ic_tag := rts_tag rts, ic_rank := rank\<rparr> in
      if 0 < ic_size c \<and> mr_is_empty (ic_mr c)
      then set_mr_on_the_fly (cf_register cf (ic_buffer c) (ic_size c)) c else c)"

lemma rdv_ready_simps [simp]:
  "ic_size (rdv_ready cf rts rank c) = rts_size rts"
  "ic_tag (rdv_ready cf rts rank c) = rts_tag rts"
  "ic_rank (rdv_ready cf rts rank c) = rank"
  "ic_buffer (rdv_ready cf rts rank c) = ic_buffer c"
  "ic_comp (rdv_ready cf rts rank c) = ic_comp c"
  "ic_user_context (rdv_ready cf rts rank c) = ic_user_context c"
  "ic_packet_to_free (rdv_ready cf rts rank c) = ic_packet_to_free c"
  "ic_is_user_posted_op (rdv_ready cf rts rank c) = ic_is_user_posted_op c"
  by (simp_all add: rdv_ready_def set_mr_on_the_fly_def Let_def)

text \<open>The answer to a request: where the data is to go, and how the end of the transfer names the
  receive context, by its address or by its tag in the archive.\<close>

definition rdv_key :: "config \<Rightarrow> addr \<Rightarrow> nat \<Rightarrow> imm_tag_archive_t \<Rightarrow> bool" where
  "rdv_key cf a key ar \<longleftrightarrow>
     (if cf_writeimm cf
      then key < 2 ^ ar_tag_bits ar \<and> archive_peek (of_nat key) ar = Inr (of_nat a)
      else key = a)"

definition rtr_for :: "config \<Rightarrow> rts_msg_t \<Rightarrow> nat \<Rightarrow> internal_context_t \<Rightarrow> rtr_msg_t" where
  "rtr_for cf rts key c = \<lparr>rtr_send_ctx = rts_send_ctx rts, rtr_recv_ctx_or_key = key, rtr_rmr = cf_rmr cf (ic_mr c),
     rtr_offset = of_nat (ic_buffer c) - rmr_base (cf_rmr cf (ic_mr c))\<rparr>"

definition archive_room :: "imm_tag_archive_t \<Rightarrow> bool" where
  "archive_room ar \<longleftrightarrow> archive_inv ar \<and> empty_value \<in> set (ar_slots ar)"

lemma archive_insert_key:
  assumes "archive_room ar" "a < 2 ^ 64 - 1"
  shows "\<exists>tag ar'. archive_insert (of_nat a) ar = Inr (tag, ar') \<and> archive_inv ar'
       \<and> ar_tag_bits ar' = ar_tag_bits ar \<and> unat tag < 2 ^ ar_tag_bits ar
       \<and> archive_peek tag ar' = Inr (of_nat a)"
proof -
  have "unat (of_nat a :: u64) = a" using assms(2) by (simp add: unsigned_of_nat take_bit_nat_eq_self)
  moreover have "unat empty_value = 2 ^ 64 - 1"
    by (simp add: empty_value_def unsigned_minus_1_eq_mask mask_eq_exp_minus_1)
  ultimately have "(of_nat a :: u64) \<noteq> empty_value" using assms(2) by auto
  then obtain tag ar' where i: "archive_insert (of_nat a) ar = Inr (tag, ar')" "tag < ar_size ar"
      "unat tag < length (ar_slots ar)" "ar_slots ar' = (ar_slots ar)[unat tag := of_nat a]" "archive_inv ar'"
      "ar_size ar' = ar_size ar"
    using archive_insert_spec [of ar "of_nat a"] assms(1) by (auto simp: archive_room_def)
  moreover have "ar_tag_bits ar' = ar_tag_bits ar"
    using i(1) by (auto simp: archive_insert_def Let_def res_iff split: option.splits)
  moreover have "unat tag < 2 ^ ar_tag_bits ar" using i(3) assms(1) by (simp add: archive_room_def archive_inv_def)
  ultimately show ?thesis using i(2,3) by (auto simp: archive_peek_def)
qed

lemma rdv_key_total:
  assumes "cf_writeimm cf \<Longrightarrow> archive_room (w_archive w) \<and> a < 2 ^ 64 - 1"
  shows "\<exists>key ar'. (if cf_writeimm cf
             then bindR (archive_insert (of_nat a) (w_archive w)) (\<lambda>(key, ar). Inr (unat key, w\<lparr>w_archive := ar\<rparr>))
             else Inr (a, w)) = Inr (key, w\<lparr>w_archive := ar'\<rparr>) \<and> rdv_key cf a key ar'
       \<and> ar_tag_bits ar' = ar_tag_bits (w_archive w) \<and> (cf_writeimm cf \<longrightarrow> archive_inv ar')"
proof (cases "cf_writeimm cf")
  case True
  with archive_insert_key [of "w_archive w" a] assms obtain tag ar' where
      "archive_insert (of_nat a) (w_archive w) = Inr (tag, ar')" "archive_inv ar'"
      "ar_tag_bits ar' = ar_tag_bits (w_archive w)" "unat tag < 2 ^ ar_tag_bits (w_archive w)"
      "archive_peek tag ar' = Inr (of_nat a)" by auto
  with True show ?thesis
    by (intro exI [of _ "unat tag"] exI [of _ ar']) (simp add: rdv_key_def)
next
  case False
  then show ?thesis
    by (intro exI [of _ a] exI [of _ "w_archive w"]) (simp add: rdv_key_def)
qed

text \<open>The send context while its data is on the way.\<close>

definition rdv_sending :: "config \<Rightarrow> internal_context_t \<Rightarrow> internal_context_t" where
  "rdv_sending cf c =
     (if mr_is_empty (ic_mr c) then set_mr_on_the_fly (cf_register cf (ic_buffer c) (ic_size c)) c else c)"

lemma rdv_sending_simps [simp]:
  "ic_size (rdv_sending cf c) = ic_size c" "ic_tag (rdv_sending cf c) = ic_tag c"
  "ic_rank (rdv_sending cf c) = ic_rank c" "ic_buffer (rdv_sending cf c) = ic_buffer c"
  "ic_comp (rdv_sending cf c) = ic_comp c" "ic_user_context (rdv_sending cf c) = ic_user_context c"
  "ic_packet_to_free (rdv_sending cf c) = ic_packet_to_free c"
  "ic_is_user_posted_op (rdv_sending cf c) = ic_is_user_posted_op c"
  by (simp_all add: rdv_sending_def set_mr_on_the_fly_def)

text \<open>The immediate data of the last chunk.\<close>

lemma writeimm_data:
  assumes "cf_writeimm cf \<Longrightarrow> archive_inv ar \<and> key < 2 ^ ar_tag_bits ar"
  shows "\<exists>imm. (if cf_writeimm cf
       then bindR (lci_assert ((of_nat key :: u32) < push_bit (ar_tag_bits ar) 1)) (\<lambda>_. encode_writeimm (int (ar_tag_bits ar)) (of_nat key))
       else Inr 0) = Inr imm
     \<and> (cf_writeimm cf \<longrightarrow> decode_imm imm = Inr (Imm_typed IMM_DATA_MSG_FIN)
          \<and> decode_archive_tag (int (ar_tag_bits ar)) imm = Inr (of_nat key))"
proof (cases "cf_writeimm cf")
  case True
  let ?n = "ar_tag_bits ar"
  have n: "?n \<le> 16" "key < 2 ^ ?n" using assms True by (auto simp: archive_inv_def)
  have "2 ^ ?n \<le> (2 ^ 16 :: nat)" using n(1) by (rule power_increasing) simp
  then have u: "unat (of_nat key :: u32) = key" using n(2) by (simp add: unsigned_of_nat take_bit_nat_eq_self)
  have lt: "(of_nat key :: u32) < 2 ^ ?n" using u n by (simp add: word_less_nat_alt unat_pow2)
  have "(of_nat key :: u32) \<le> mask ?n"
    using u n unat_pow2 [of ?n] by (simp add: word_le_nat_alt mask_eq_exp_minus_1 unat_sub_if')
  with encode_writeimm_decode [of "int ?n" "of_nat key"] n(1) lt True show ?thesis
    by (simp add: push_bit_eq_mult)
qed simp

lemma rts_common_posted:
  assumes "w_ctxs w a = Some (Simple c)" "a \<noteq> 0" "rts_size rts \<le> ic_size c"
    and "rts = read_rts (w_mem w) (get_payload_address packet)" "rank = pc_rank (w_packets w packet)"
    and c': "c' = rdv_ready cf rts rank c"
    and w1: "w1 = w\<lparr>w_ctxs := (w_ctxs w)(a \<mapsto> Simple c'),
      w_packets := (w_packets w)(packet := (w_packets w packet)\<lparr>pc_local_id := LOCAL_SET_ID_NULL\<rparr>)\<rparr>"
  shows "handle_rdv_rts_common cf be packet a w =
     bindR (if cf_writeimm cf
             then bindR (archive_insert (of_nat a) (w_archive w1)) (\<lambda>(key, ar). Inr (unat key, w1\<lparr>w_archive := ar\<rparr>))
             else Inr (a, w1)) (\<lambda>(key, w).
      let w = w\<lparr>w_mem := write_rtr (w_mem w) (get_payload_address packet) (rtr_for cf rts key c')\<rparr>;
          (rtr_ctx, w) = new_ctx (Simple (new_internal_context\<lparr>ic_packet_to_free := packet\<rparr>)) w in
      bindR (encode_msg_type IMM_DATA_MSG_RTR) (\<lambda>imm.
      bindR (ep_post (post_send be (mk_send rank (get_payload_address packet) sizeof_rtr (cf_packet_mr cf) imm (Ctx rtr_ctx)) False False) w)
        (\<lambda>(e, w). bindR (lci_assert (is_posted e)) (\<lambda>_. Inr w))))"
proof -
  let ?c = "c\<lparr>ic_size := rts_size rts, ic_tag := rts_tag rts, ic_rank := rank\<rparr>"
  have r: "ic_rank c' = rank" "ic_buffer c' = ic_buffer c" by (simp_all add: c')
  have cd: "(if 0 < rts_size rts \<and> mr_is_empty (ic_mr c)
      then set_mr_on_the_fly (cf_register cf (ic_buffer c) (rts_size rts)) ?c else ?c) = c'"
    by (simp add: c' rdv_ready_def Let_def)
  have rv: "rdv_recv_ctx rts a w = Inr (a, c\<lparr>ic_size := rts_size rts\<rparr>, w)"
    using assms(1-3) by (simp add: rdv_recv_ctx_def get_ctx_def)
  show ?thesis
    unfolding handle_rdv_rts_common_def assms(4) [symmetric] Let_def rv bindR_simps prod.case
    by (simp add: assms(5) [symmetric] cd r set_ctx_def w1 [symmetric] rtr_for_def cong: if_cong)
qed

context live_backend
begin

lemma rts_common_spec:
  assumes h: "heap_ok w" and a: "w_ctxs w a = Some (Simple c)" and sz: "rts_size rts \<le> ic_size c"
    and rts: "rts = read_rts (w_mem w) (get_payload_address packet)" and rank: "rank = pc_rank (w_packets w packet)"
    and ep: "ep_ok rank w" "\<And>rq. rq_rank rq = rank \<Longrightarrow> ok rq"
    and ar: "cf_writeimm cf \<Longrightarrow> archive_room (w_archive w) \<and> a < 2 ^ 64 - 1"
  shows "\<exists>w' key imm. handle_rdv_rts_common cf backend packet a w = Inr w'
       \<and> rdv_key cf a key (w_archive w') \<and> decode_imm imm = Inr (Imm_typed IMM_DATA_MSG_RTR)
       \<and> ar_tag_bits (w_archive w') = ar_tag_bits (w_archive w) \<and> (cf_writeimm cf \<longrightarrow> archive_inv (w_archive w'))
       \<and> w_sent rank w' = w_sent rank w
           @ [mk_send rank (get_payload_address packet) sizeof_rtr (cf_packet_mr cf) imm (Ctx (w_next w))]
       \<and> w_mem w' = write_rtr (w_mem w) (get_payload_address packet) (rtr_for cf rts key (rdv_ready cf rts rank c))
       \<and> w_ctxs w' = (w_ctxs w)(a \<mapsto> Simple (rdv_ready cf rts rank c),
           w_next w \<mapsto> Simple (new_internal_context\<lparr>ic_packet_to_free := packet\<rparr>))
       \<and> w_next w' = w_next w + 1 \<and> w_signals w' = w_signals w \<and> w_returned w' = w_returned w
       \<and> w_registry w' = w_registry w \<and> w_deregistered w' = w_deregistered w \<and> ep_ok rank w'
       \<and> w_engines w' = w_engines w \<and> ep_pending_ops (w_ep w') = ep_pending_ops (w_ep w)"
proof -
  let ?pl = "get_payload_address packet" and ?c = "rdv_ready cf rts rank c"
  obtain imm where imm: "encode_msg_type IMM_DATA_MSG_RTR = Inr imm" "decode_imm imm = Inr (Imm_typed IMM_DATA_MSG_RTR)"
    using encode_msg_type_total by blast
  define w1 where "w1 = w\<lparr>w_ctxs := (w_ctxs w)(a \<mapsto> Simple ?c), w_packets := (w_packets w)(packet := (w_packets w packet)\<lparr>pc_local_id := LOCAL_SET_ID_NULL\<rparr>)\<rparr>"
  have "\<exists>key ar'. (if cf_writeimm cf
             then bindR (archive_insert (of_nat a) (w_archive w1)) (\<lambda>(key, ar). Inr (unat key, w1\<lparr>w_archive := ar\<rparr>))
             else Inr (a, w1)) = Inr (key, w1\<lparr>w_archive := ar'\<rparr>) \<and> rdv_key cf a key ar'
       \<and> ar_tag_bits ar' = ar_tag_bits (w_archive w1) \<and> (cf_writeimm cf \<longrightarrow> archive_inv ar')"
    using ar by (intro rdv_key_total) (simp add: w1_def)
  then obtain key ar' where key: "(if cf_writeimm cf
             then bindR (archive_insert (of_nat a) (w_archive w1)) (\<lambda>(key, ar). Inr (unat key, w1\<lparr>w_archive := ar\<rparr>))
             else Inr (a, w1)) = Inr (key, w1\<lparr>w_archive := ar'\<rparr>)" "rdv_key cf a key ar'"
      "ar_tag_bits ar' = ar_tag_bits (w_archive w1)" "cf_writeimm cf \<longrightarrow> archive_inv ar'" by blast
  define w2 where "w2 = snd (new_ctx (Simple (new_internal_context\<lparr>ic_packet_to_free := packet\<rparr>))
     (w1\<lparr>w_archive := ar', w_mem := write_rtr (w_mem w) ?pl (rtr_for cf rts key ?c)\<rparr>))"
  let ?rq = "mk_send rank ?pl sizeof_rtr (cf_packet_mr cf) imm (Ctx (w_next w))"
  have w2_ep: "w_ep w2 = w_ep w" by (simp add: w2_def w1_def new_ctx_def)
  then have "ep_ok rank w2" using ep(1) by (simp add: ep_ok_def)
  from world_post [of ?rq w2] this ep(2) obtain e ep' where
      post: "ep_post (post_send backend ?rq False False) w2 = Inr (e, w2\<lparr>w_ep := ep'\<rparr>)" "is_posted e"
        "ep_ok rank (w2\<lparr>w_ep := ep'\<rparr>)" "ep_sent rank ep' = w_sent rank w2 @ [?rq]" "ep_pending_ops ep' = ep_pending_ops (w_ep w2)"
    by (auto simp: post_req_kind)
  have a0: "a \<noteq> 0" using heap_okD [OF h a] by simp
  have "handle_rdv_rts_common cf backend packet a w = Inr (w2\<lparr>w_ep := ep'\<rparr>)"
    unfolding rts_common_posted [OF a a0 sz rts rank refl w1_def] key(1)
    using imm(1) post(1,2) by (simp add: w2_def w1_def new_ctx_def)
  then show ?thesis
    using key imm(2) post(3-5) w2_ep
    by (intro exI [of _ "w2\<lparr>w_ep := ep'\<rparr>"] exI [of _ key] exI [of _ imm])
      (simp add: w2_def w1_def new_ctx_def)
qed

lemma handle_rdv_rtr_spec:
  assumes h: "heap_ok w" and rtr: "rtr = read_rtr (w_mem w) (get_payload_address packet)"
    and c: "w_ctxs w (rtr_send_ctx rtr) = Some (Simple c)" and mx: "0 < cf_max_msg_size cf"
    and ep: "ep_ok (ic_rank c) w" "\<And>rq. rq_rank rq = ic_rank c \<Longrightarrow> ok rq"
    and key: "cf_writeimm cf \<Longrightarrow> archive_inv (w_archive w) \<and> rtr_recv_ctx_or_key rtr < 2 ^ ar_tag_bits (w_archive w)"
  shows "\<exists>w' imm. handle_rdv_rtr cf backend packet w = Inr w'
       \<and> (cf_writeimm cf \<longrightarrow> decode_imm imm = Inr (Imm_typed IMM_DATA_MSG_FIN)
          \<and> decode_archive_tag (int (ar_tag_bits (w_archive w))) imm = Inr (of_nat (rtr_recv_ctx_or_key rtr)))
       \<and> w_sent (ic_rank c) w' = w_sent (ic_rank c) w
           @ map (rdv_chunk (cf_max_msg_size cf) (cf_writeimm cf) (ic_rank c) (ic_buffer c) (ic_size c)
                   (ic_mr (rdv_sending cf c)) rtr imm (w_next w)) (chunk_offs (cf_max_msg_size cf) (ic_size c) 0)
       \<and> w_ctxs w' = (w_ctxs w)(w_next w \<mapsto> Extended (new_internal_context_extended\<lparr>xc_internal_ctx := rtr_send_ctx rtr,
             xc_signal_count := sint (of_nat (length (chunk_offs (cf_max_msg_size cf) (ic_size c) 0)) :: u32),
             xc_recv_ctx := (if cf_writeimm cf then 0 else rtr_recv_ctx_or_key rtr)\<rparr>),
           rtr_send_ctx rtr \<mapsto> Simple (rdv_sending cf c))
       \<and> w_mem w' = w_mem w \<and> w_next w' = w_next w + 1 \<and> w_signals w' = w_signals w
       \<and> w_returned w' = w_returned w @ [packet] \<and> w_deregistered w' = w_deregistered w
       \<and> ep_ok (ic_rank c) w' \<and> ep_pending_ops (w_ep w') = ep_pending_ops (w_ep w)"
proof -
  let ?mx = "cf_max_msg_size cf"
  obtain imm where imm: "(if cf_writeimm cf
       then bindR (lci_assert ((of_nat (rtr_recv_ctx_or_key rtr) :: u32) < push_bit (ar_tag_bits (w_archive w)) 1))
              (\<lambda>_. encode_writeimm (int (ar_tag_bits (w_archive w))) (of_nat (rtr_recv_ctx_or_key rtr)))
       else Inr 0) = Inr imm"
     "cf_writeimm cf \<longrightarrow> decode_imm imm = Inr (Imm_typed IMM_DATA_MSG_FIN)
          \<and> decode_archive_tag (int (ar_tag_bits (w_archive w))) imm = Inr (of_nat (rtr_recv_ctx_or_key rtr))"
    using writeimm_data [OF key] by blast
  define w1 where "w1 = w\<lparr>w_next := w_next w + 1,
     w_ctxs := (w_ctxs w)(w_next w \<mapsto> Extended (new_internal_context_extended\<lparr>xc_internal_ctx := rtr_send_ctx rtr,
             xc_signal_count := sint (of_nat ((ic_size c + ?mx - 1) div ?mx) :: u32),
             xc_recv_ctx := (if cf_writeimm cf then 0 else rtr_recv_ctx_or_key rtr)\<rparr>),
           rtr_send_ctx rtr \<mapsto> Simple (rdv_sending cf c))\<rparr>"
  have "ep_ok (ic_rank c) w1" using ep(1) by (simp add: w1_def ep_ok_def)
  from rdv_puts_spec [OF ep(2) this, of ?mx "cf_writeimm cf" "ic_buffer c" "ic_size c" "ic_mr (rdv_sending cf c)" rtr imm "w_next w" 0]
  obtain ep' where puts: "rdv_puts backend ?mx (cf_writeimm cf) (ic_rank c) (ic_buffer c) (ic_size c)
        (ic_mr (rdv_sending cf c)) rtr imm (w_next w) 0 w1 = Inr (w1\<lparr>w_ep := ep'\<rparr>)"
      "ep_ok (ic_rank c) (w1\<lparr>w_ep := ep'\<rparr>)" "ep_pending_ops ep' = ep_pending_ops (w_ep w1)"
      "ep_sent (ic_rank c) ep' = w_sent (ic_rank c) w1 @ map (rdv_chunk ?mx (cf_writeimm cf) (ic_rank c) (ic_buffer c)
         (ic_size c) (ic_mr (rdv_sending cf c)) rtr imm (w_next w)) (chunk_offs ?mx (ic_size c) 0)"
    by auto
  have "handle_rdv_rtr cf backend packet w = Inr (put_back packet (w1\<lparr>w_ep := ep'\<rparr>))"
    unfolding handle_rdv_rtr_def rtr [symmetric] Let_def
    using c mx imm(1) puts(1)
    by (simp add: get_ctx_def new_ctx_def set_ctx_def w1_def rdv_sending_def cong: if_cong)
  then show ?thesis
    using imm(2) puts(2-4) length_chunk_offs [OF mx, of "ic_size c" 0]
    by (intro exI [of _ "put_back packet (w1\<lparr>w_ep := ep'\<rparr>)"] exI [of _ imm])
      (simp add: w1_def put_back_def ep_ok_def)
qed

end

end
