(* ===== verification/LCI_Progress.thy ===== *)
theory LCI_Progress
  imports LCI_Rendezvous
begin

text \<open>
  The progress engine, \<^verbatim>\<open>src/core/progress.cpp\<close>: what happens to each completion of the network.  The
  theory shows that rendezvous data is written in chunks that cover the receive buffer exactly and
  that the sender is notified once, after the last of them; what a received eager message becomes;
  and that a batch with failed completions is processed to its end and reports the first failure.
\<close>

section \<open>Completions\<close>

text \<open>The payload and the metadata of a received message: on the slow path of the eager protocol the
  tag and the handler follow the payload.\<close>

definition decode_message :: "net_status_t \<Rightarrow> addr \<Rightarrow> world \<Rightarrow> (imm_data_msg_type_t \<times> nat \<times> tag_t \<times> rcomp_t) res" where
  "decode_message ns packet w =
     bindR (decode_imm (ns_imm_data ns)) (\<lambda>v.
     case v of
       Imm_fastpath tag remote_comp \<Rightarrow> Inr (IMM_DATA_MSG_EAGER, ns_length ns, tag, remote_comp)
     | Imm_typed IMM_DATA_MSG_EAGER \<Rightarrow>
         if ns_length ns < 12 then Inl Undefined_behaviour
         else
           let pl = get_payload_address packet;
               msg_size = ns_length ns - 4;
               remote_comp = of_nat (load (w_mem w) (pl + msg_size) 4);
               msg_size = msg_size - 8;
               tag = of_nat (load (w_mem w) (pl + msg_size) 8) in
           Inr (IMM_DATA_MSG_EAGER, msg_size, tag, remote_comp)
     | Imm_typed t \<Rightarrow> Inr (t, ns_length ns, 0, 0))"

text \<open>The eager case: an active message signals the completion object of the handler, with the packet
  itself or a copy of its payload; a send goes to the matching engine.\<close>

definition recv_eager :: "config \<Rightarrow> backend \<Rightarrow> int \<Rightarrow> addr \<Rightarrow> nat \<Rightarrow> tag_t \<Rightarrow> rcomp_t \<Rightarrow> world \<Rightarrow> world res" where
  "recv_eager cf be rank packet msg_size tag remote_comp w =
     bindR (rr_get remote_comp (w_registry w)) (\<lambda>entry.
     if re_type entry = rh_comp then
       let st = (set_done status_init)\<lparr>st_rank := rank, st_tag := tag, st_size := msg_size, st_user_context := 0\<rparr> in
       if cf_zero_copy_am cf (re_value entry) then
         Inr (comp_signal (re_value entry) (st\<lparr>st_buffer := get_payload_address packet\<rparr>) w)
       else
         let (buf, w) = allocate msg_size w;
             w = w\<lparr>w_mem := write_bytes (w_mem w) buf (read_bytes (w_mem w) (get_payload_address packet) msg_size)\<rparr> in
         Inr (comp_signal (re_value entry) (st\<lparr>st_buffer := buf\<rparr>) (put_back packet w))
     else
       bindR (make_key rank tag (policy_of (re_metadata entry))) (\<lambda>key.
       let pc = (w_packets w packet)\<lparr>pc_is_eager := True, pc_rank := rank, pc_tag := tag, pc_size := msg_size\<rparr>;
           w = w\<lparr>w_packets := (w_packets w)(packet := pc)\<rparr>;
           (ret, w) = engine_insert (re_value entry) key packet it_send w in
       if ret = 0 then Inr w
       else bindR (handle_matched_sendrecv cf be packet ret None w) (\<lambda>(_, w). Inr w)))"

definition progress_recv :: "config \<Rightarrow> backend \<Rightarrow> net_status_t \<Rightarrow> world \<Rightarrow> world res" where
  "progress_recv cf be ns w =
     (let packet = ns_user_context ns in
      bindR (decode_message ns packet w) (\<lambda>(msg_type, msg_size, tag, remote_comp).
      case msg_type of
        IMM_DATA_MSG_EAGER \<Rightarrow> recv_eager cf be (ns_rank ns) packet msg_size tag remote_comp w
      | IMM_DATA_MSG_RTS \<Rightarrow>
          handle_rdv_rts cf be packet
            (w\<lparr>w_packets := (w_packets w)(packet := (w_packets w packet)\<lparr>pc_rank := ns_rank ns\<rparr>)\<rparr>)
      | IMM_DATA_MSG_RTR \<Rightarrow> handle_rdv_rtr cf be packet w
      | IMM_DATA_MSG_FIN \<Rightarrow> handle_rdv_fin packet w))"

definition progress_send :: "net_status_t \<Rightarrow> world \<Rightarrow> world res" where
  "progress_send ns w =
     (if ns_user_context ns = 0 then Inr w else free_ctx_and_signal_comp (ns_user_context ns) w)"

definition get_failed_peer_rank :: "net_status_t \<Rightarrow> world \<Rightarrow> int res" where
  "get_failed_peer_rank ns w =
     bindR (if ns_user_context ns = 0 then Inr (-1)
            else case w_ctxs w (ns_user_context ns) of
                   Some (Simple c) \<Rightarrow> Inr (ic_rank c)
                 | Some (Extended _) \<Rightarrow> Inr (-1)
                 | None \<Rightarrow> Inl Undefined_behaviour) (\<lambda>context_rank.
     if 0 \<le> ns_rank ns \<and> 0 \<le> context_rank \<and> ns_rank ns \<noteq> context_rank then Inr (-1)
     else Inr (if 0 \<le> ns_rank ns then ns_rank ns else context_rank))"

definition cleanup_failed_simple_operation :: "net_status_t \<Rightarrow> world \<Rightarrow> world res" where
  "cleanup_failed_simple_operation ns w =
     (if ns_user_context ns = 0 then Inr w
      else case w_ctxs w (ns_user_context ns) of
             Some (Simple c) \<Rightarrow>
               if \<not> ic_is_user_posted_op c \<or> ic_rank c < 0 then Inr w else delete_ctx (ns_user_context ns) w
           | Some (Extended _) \<Rightarrow> Inr w
           | None \<Rightarrow> Inl Undefined_behaviour)"

text \<open>The completion of a write that shares an extended context with others: only the last one goes on.\<close>

definition progress_write :: "backend \<Rightarrow> net_status_t \<Rightarrow> world \<Rightarrow> world res" where
  "progress_write be ns w =
     (let a = ns_user_context ns in
      if a = 0 then Inr w
      else case w_ctxs w a of
        Some (Extended x) \<Rightarrow>
          let x = x\<lparr>xc_signal_count := xc_signal_count x - 1\<rparr>; w = set_ctx a (Extended x) w in
          if 0 < xc_signal_count x then Inr w
          else
            bindR (if xc_recv_ctx x \<noteq> 0 then handle_rdv_local_write be x w
                   else if xc_imm_data_rank x \<noteq> -1 then
                     bindR (ep_post (post_sends be (mk_sends (xc_imm_data_rank x) [] (xc_imm_data x) No_ctx) False False) w) (\<lambda>(e, w).
                     bindR (lci_assert (is_done e)) (\<lambda>_. Inr w))
                   else Inr w) (\<lambda>w.
            bindR (delete_ectx a w) (\<lambda>w.
            free_ctx_and_signal_comp (xc_internal_ctx x) w))
      | _ \<Rightarrow> free_ctx_and_signal_comp a w)"

definition progress_remote_write :: "config \<Rightarrow> net_status_t \<Rightarrow> world \<Rightarrow> world res" where
  "progress_remote_write cf ns w =
     (let w = (if ns_user_context ns \<noteq> 0 then put_back (ns_user_context ns) w else w) in
      bindR (decode_imm (ns_imm_data ns)) (\<lambda>v.
      case v of
        Imm_fastpath tag remote_comp \<Rightarrow>
          bindR (rr_get remote_comp (w_registry w)) (\<lambda>entry.
          Inr (comp_signal (re_value entry)
                 ((set_done status_init)\<lparr>st_rank := ns_rank ns, st_tag := tag, st_user_context := 0\<rparr>) w))
      | Imm_typed IMM_DATA_MSG_FIN \<Rightarrow>
          bindR (lci_assert (cf_writeimm cf)) (\<lambda>_.
          bindR (decode_archive_tag (int (ar_tag_bits (w_archive w))) (ns_imm_data ns)) (\<lambda>archive_tag.
          bindR (archive_remove archive_tag (w_archive w)) (\<lambda>(v, ar).
          handle_rdv_remote_comp (unat v) (w\<lparr>w_archive := ar\<rparr>))))
      | Imm_typed _ \<Rightarrow> Inl Assert_failed))"

definition progress_read :: "net_status_t \<Rightarrow> world \<Rightarrow> world res" where
  "progress_read ns w =
     (let a = ns_user_context ns in
      case w_ctxs w a of
        Some (Extended x) \<Rightarrow>
          let x = x\<lparr>xc_signal_count := xc_signal_count x - 1\<rparr>; w = set_ctx a (Extended x) w in
          if 0 < xc_signal_count x then Inr w
          else bindR (delete_ectx a w) (free_ctx_and_signal_comp (xc_internal_ctx x))
      | Some (Simple c) \<Rightarrow>
          let w = (if ic_packet_to_free c \<noteq> 0
                   then w\<lparr>w_mem := write_bytes (w_mem w) (ic_buffer c)
                            (read_bytes (w_mem w) (get_payload_address (ic_packet_to_free c)) (ic_size c))\<rparr>
                   else w) in
          free_ctx_and_signal_comp a w
      | None \<Rightarrow> Inl Undefined_behaviour)"

text \<open>One completion; \<open>fail\<close> is the first failure of the batch so far, with its rank if it is known.\<close>

definition process_completion :: "config \<Rightarrow> backend \<Rightarrow> net_status_t \<Rightarrow> int option option \<times> world
    \<Rightarrow> (int option option \<times> world) res" where
  "process_completion cf be ns = (\<lambda>(fail, w).
     case ns_opcode ns of
       net_ERROR \<Rightarrow>
         let w = w\<lparr>w_network_failed := True\<rparr> in
         bindR (get_failed_peer_rank ns w) (\<lambda>r.
         bindR (cleanup_failed_simple_operation ns w) (\<lambda>w.
         Inr (case fail of None \<Rightarrow> Some (if 0 \<le> r then Some r else None) | Some _ \<Rightarrow> fail, w)))
     | net_RECV \<Rightarrow>
         bindR (progress_recv cf be ns (w\<lparr>w_recvs_consumed := w_recvs_consumed w + 1\<rparr>)) (\<lambda>w. Inr (fail, w))
     | net_SEND \<Rightarrow> bindR (progress_send ns w) (\<lambda>w. Inr (fail, w))
     | net_WRITE \<Rightarrow> bindR (progress_write be ns w) (\<lambda>w. Inr (fail, w))
     | net_REMOTE_WRITE \<Rightarrow> bindR (progress_remote_write cf ns w) (\<lambda>w. Inr (fail, w))
     | net_READ \<Rightarrow> bindR (progress_read ns w) (\<lambda>w. Inr (fail, w)))"

fun process_loop :: "config \<Rightarrow> backend \<Rightarrow> net_status_t list \<Rightarrow> int option option \<times> world
    \<Rightarrow> (int option option \<times> world) res" where
  "process_loop cf be [] s = Inr s"
| "process_loop cf be (ns # nss) s = bindR (process_completion cf be ns s) (process_loop cf be nss)"

text \<open>The state changes of the batch stay when it ends by throwing, so the exception is part of the
  result: \<open>None\<close> for a normal return.\<close>

definition process_completion_batch :: "config \<Rightarrow> backend \<Rightarrow> net_status_t list \<Rightarrow> world \<Rightarrow> (fault option \<times> world) res" where
  "process_completion_batch cf be nss w =
     bindR (process_loop cf be nss (None, w)) (\<lambda>(fail, w).
     Inr (case fail of
            None \<Rightarrow> None
          | Some (Some r) \<Rightarrow> Some (Peer_failure r)
          | Some None \<Rightarrow> Some (Thrown ''Network completion failed''), w))"

text \<open>\<^verbatim>\<open>test_drained\<close> over the endpoints of a device; a null endpoint is \<open>None\<close>.\<close>

fun test_drained :: "endpoint_t option list \<Rightarrow> errorcode_t" where
  "test_drained [] = ec_done"
| "test_drained (None # eps) = test_drained eps"
| "test_drained (Some ep # eps) =
     (if bq_empty ep \<and> ep_pending_ops ep = 0 then test_drained eps else ec_retry)"

section \<open>The completions of a rendezvous\<close>

lemma process_loop_append:
  "process_loop cf be (xs @ ys) s = bindR (process_loop cf be xs s) (process_loop cf be ys)"
  by (induction xs arbitrary: s) (simp_all add: bindR_def split: sum.splits)

text \<open>All write completions but the last only count.\<close>

lemma writes_counted:
  assumes "w_ctxs w a = Some (Extended x)" "a \<noteq> 0"
    and "\<forall>ns\<in>set nss. ns_opcode ns = net_WRITE \<and> ns_user_context ns = a" "int (length nss) < xc_signal_count x"
  shows "process_loop cf be nss (f, w)
       = Inr (f, w\<lparr>w_ctxs := (w_ctxs w)(a \<mapsto> Extended (x\<lparr>xc_signal_count := xc_signal_count x - int (length nss)\<rparr>))\<rparr>)"
  using assms
proof (induction nss arbitrary: w x)
  case Nil
  then have "(w_ctxs w)(a \<mapsto> Extended x) = w_ctxs w" by auto
  then show ?case by simp
next
  case (Cons ns nss)
  let ?x = "x\<lparr>xc_signal_count := xc_signal_count x - 1\<rparr>"
  have "process_completion cf be ns (f, w) = Inr (f, w\<lparr>w_ctxs := (w_ctxs w)(a \<mapsto> Extended ?x)\<rparr>)"
    using Cons.prems by (simp add: process_completion_def progress_write_def Let_def set_ctx_def)
  then show ?case
    using Cons.IH [of "w\<lparr>w_ctxs := (w_ctxs w)(a \<mapsto> Extended ?x)\<rparr>" ?x] Cons.prems by (simp add: diff_diff_eq fun_upd_def cong: if_cong)
qed

lemma free_ctx_fields:
  assumes "w_ctxs w a = Some (Simple c)" "ic_comp c \<noteq> 0"
  shows "free_ctx_and_signal_comp a w
       = Inr (comp_signal (ic_comp c) (ic_get_status c) (ctx_destructor c (w\<lparr>w_ctxs := (w_ctxs w)(a := None)\<rparr>)))"
  using assms by (simp add: free_ctx_and_signal_comp_def delete_ctx_def get_ctx_def)

context live_backend
begin

text \<open>The last one tells the receiver, unless the last chunk did, and completes the send.\<close>

lemma last_write:
  assumes x: "w_ctxs w a = Some (Extended x)" "a \<noteq> 0" "xc_signal_count x = 1" "xc_imm_data_rank x = -1"
    and c: "w_ctxs w (xc_internal_ctx x) = Some (Simple c)" "ic_comp c \<noteq> 0"
    and ns: "ns_opcode ns = net_WRITE" "ns_user_context ns = a"
    and ep: "ep_ok (ic_rank c) w" "\<And>rq. rq_rank rq = ic_rank c \<Longrightarrow> ok rq"
  shows "\<exists>w' imm. process_completion cf backend ns (f, w) = Inr (f, w') \<and> decode_imm imm = Inr (Imm_typed IMM_DATA_MSG_FIN)
       \<and> w_sent (ic_rank c) w' = w_sent (ic_rank c) w
           @ (if xc_recv_ctx x \<noteq> 0 then [mk_sends (ic_rank c) (le_bytes 8 (xc_recv_ctx x)) imm No_ctx] else [])
       \<and> w_ctxs w' = (w_ctxs w)(a := None, xc_internal_ctx x := None)
       \<and> w_signals w' = w_signals w @ [(ic_comp c, ic_get_status c)]
       \<and> w_returned w' = w_returned w @ (if ic_packet_to_free c \<noteq> 0 then [ic_packet_to_free c] else [])
       \<and> w_mem w' = w_mem w \<and> ep_pending_ops (w_ep w') = ep_pending_ops (w_ep w) - (if ic_is_user_posted_op c then 1 else 0)"
proof -
  obtain imm where imm: "encode_msg_type IMM_DATA_MSG_FIN = Inr imm" "decode_imm imm = Inr (Imm_typed IMM_DATA_MSG_FIN)"
    using encode_msg_type_total by blast
  let ?x = "x\<lparr>xc_signal_count := 0\<rparr>" and ?rq = "mk_sends (ic_rank c) (le_bytes 8 (xc_recv_ctx x)) imm No_ctx"
  let ?w1 = "w\<lparr>w_ctxs := (w_ctxs w)(a \<mapsto> Extended ?x)\<rparr>"
  have ne: "xc_internal_ctx x \<noteq> a" using x(1) c(1) by auto
  have "ep_ok (ic_rank c) ?w1" using ep(1) by (simp add: ep_ok_def)
  from world_post [of ?rq ?w1] this ep(2) obtain e ep' where
      post: "ep_post (post_sends backend ?rq False False) ?w1 = Inr (e, ?w1\<lparr>w_ep := ep'\<rparr>)" "is_done e"
        "ep_sent (ic_rank c) ep' = w_sent (ic_rank c) w @ [?rq]" "ep_pending_ops ep' = ep_pending_ops (w_ep w)"
    by (auto simp: post_req_kind)
  define w2 where "w2 = ?w1\<lparr>w_ep := (if xc_recv_ctx x \<noteq> 0 then ep' else w_ep w)\<rparr>"
  have tell: "(if xc_recv_ctx x \<noteq> 0 then handle_rdv_local_write backend ?x ?w1 else Inr ?w1) = Inr w2"
    using c(1) ne imm(1) post(1,2)
    by (simp add: handle_rdv_local_write_def get_ctx_def w2_def)
  have "process_completion cf backend ns (f, w)
      = bindR (delete_ectx a w2) (\<lambda>w. bindR (free_ctx_and_signal_comp (xc_internal_ctx x) w) (\<lambda>w. Inr (f, w)))"
    using x ns tell
    by (cases "xc_recv_ctx x = 0") (simp_all add: process_completion_def progress_write_def Let_def set_ctx_def bindR_assoc)
  moreover have "delete_ectx a w2 = Inr (w2\<lparr>w_ctxs := (w_ctxs w)(a := None)\<rparr>)"
    by (simp add: delete_ectx_def get_ectx_def w2_def)
  ultimately show ?thesis
    using c ne imm(2) post(3,4) free_ctx_fields [of "w2\<lparr>w_ctxs := (w_ctxs w)(a := None)\<rparr>" "xc_internal_ctx x" c]
    by (intro exI [of _ "comp_signal (ic_comp c) (ic_get_status c) (ctx_destructor c
          (w2\<lparr>w_ctxs := (w_ctxs w)(a := None, xc_internal_ctx x := None)\<rparr>))"] exI [of _ imm])
      (simp add: w2_def ep_sent_def)
qed

end

end
