(* ===== verification/LCI_Post.thy ===== *)
theory LCI_Post
  imports LCI_Progress
begin

text \<open>
  Posting a communication, \<^verbatim>\<open>src/core/communicate.cpp\<close>: the choice of a protocol, the packet, the
  immediate data, the internal context, the network operation and the clean-up, composed by
  \<^verbatim>\<open>post_comm_x::call_impl\<close> as the code composes them, and the five public operations on top of it.
\<close>

section \<open>Arguments and state\<close>

datatype protocol_t = pr_none | pr_inject | pr_eager_bcopy | pr_eager_zcopy | pr_rdv_zcopy | pr_recv

datatype direction_t = dir_OUT | dir_IN

datatype comp_semantic_t = cs_memory | cs_network

record post_comm_args_t =
  pa_direction :: direction_t
  pa_rank :: int
  pa_local_buffer :: addr
  pa_size :: nat
  pa_local_comp :: addr
  pa_matching_engine :: addr
  pa_comp_semantic :: comp_semantic_t
  pa_mr :: addr
  pa_remote_disp :: u64
  pa_rmr :: rmr_t
  pa_tag :: tag_t
  pa_remote_comp :: rcomp_t
  pa_user_context :: addr
  pa_matching_policy :: matching_policy_t
  pa_allow_done :: bool
  pa_allow_posted :: bool
  pa_allow_retry :: bool

record post_comm_traits_t =
  pt_local_buffer_only :: bool
  pt_local_comp_only :: bool
  pt_is_recv :: bool
  pt_max_inject_size :: nat
  pt_max_bcopy_size :: nat

record post_comm_state_t =
  ps_rhandler :: rcomp_t
  ps_piggyback :: bool
  ps_imm_data :: net_imm_data_t
  ps_packet :: addr
  ps_packet_size_to_send :: nat
  ps_user_provided_packet :: bool
  ps_internal_ctx :: addr
  ps_protocol :: protocol_t
  ps_mr :: addr
  ps_local_comp :: addr
  ps_comp_passed :: bool
  ps_status :: status_t

definition post_comm_state_init :: post_comm_state_t where
  "post_comm_state_init = \<lparr>ps_rhandler = 0, ps_piggyback = False, ps_imm_data = 0, ps_packet = 0,
     ps_packet_size_to_send = 0, ps_user_provided_packet = False, ps_internal_ctx = 0,
     ps_protocol = pr_none, ps_mr = 0, ps_local_comp = 0, ps_comp_passed = False, ps_status = status_init\<rparr>"

text \<open>What the surroundings answer: whether the library is built for accelerators and where buffers
  and memory regions are, the handler base of a matching engine, the packet pool (\<open>pe_packet\<close> is 0
  when it has none), the shared-memory transport (\<open>None\<close> when the peer is not reached by it), a new
  synchronizer, and the state in which the loop of testing it and making progress ends.\<close>

record post_env =
  pe_accelerator :: bool
  pe_buffer_on_device :: "addr \<Rightarrow> bool option"
  pe_mr_on_device :: "addr \<Rightarrow> bool"
  pe_engine_base :: "addr \<Rightarrow> rcomp_t"
  pe_is_packet :: "addr \<Rightarrow> bool"
  pe_packet :: addr
  pe_local_id :: int
  pe_shm :: "errorcode_t option"
  pe_sync :: addr
  pe_wait :: "world \<Rightarrow> status_t \<times> world"

definition COMP_NULL :: addr where "COMP_NULL = 0"
definition COMP_NULL_RETRY :: addr where "COMP_NULL_RETRY = 1"
definition MR_HOST :: addr where "MR_HOST = 0"
definition MR_DEVICE :: addr where "MR_DEVICE = 1"
definition MR_UNKNOWN :: addr where "MR_UNKNOWN = 2"

section \<open>The steps\<close>

definition mr_may_be_device_memory :: "post_env \<Rightarrow> addr \<Rightarrow> bool" where
  "mr_may_be_device_memory pe mr \<longleftrightarrow> mr = MR_DEVICE \<or> mr = MR_UNKNOWN
     \<or> pe_accelerator pe \<and> \<not> mr_is_empty mr \<and> pe_mr_on_device pe mr"

definition eager_payload_needs_metadata :: "config \<Rightarrow> post_comm_args_t \<Rightarrow> post_comm_state_t \<Rightarrow> bool" where
  "eager_payload_needs_metadata cf a s \<longleftrightarrow>
     pa_direction a = dir_OUT \<and> ps_rhandler s \<noteq> 0
     \<and> (cf_max_imm_tag cf < pa_tag a \<or> cf_max_imm_rcomp cf < ps_rhandler s)"

definition preprocess_args :: "post_env \<Rightarrow> post_comm_args_t \<Rightarrow> post_comm_args_t res" where
  "preprocess_args pe a =
     (let a = (if pa_local_comp a = COMP_NULL then a\<lparr>pa_allow_retry := False, pa_allow_posted := False\<rparr>
               else if pa_local_comp a = COMP_NULL_RETRY then a\<lparr>pa_allow_posted := False\<rparr> else a) in
      if pe_accelerator pe \<and> pa_mr a = MR_UNKNOWN then
        (case pe_buffer_on_device pe (pa_local_buffer a) of
           Some False \<Rightarrow> Inr (a\<lparr>pa_mr := MR_HOST\<rparr>)
         | Some True \<Rightarrow> Inr (a\<lparr>pa_mr := MR_DEVICE\<rparr>)
         | None \<Rightarrow> Inl Assert_failed)
      else Inr a)"

definition get_max_bcopy_size :: "config \<Rightarrow> nat" where
  "get_max_bcopy_size cf = cf_payload_size cf - 8 - 4"

definition validate_and_get_traits :: "config \<Rightarrow> post_comm_args_t \<Rightarrow> post_comm_traits_t res" where
  "validate_and_get_traits cf a =
     (let local_buffer_only = pa_rmr a = rmr_empty;
          local_comp_only = pa_remote_comp a = 0;
          traits = \<lparr>pt_local_buffer_only = local_buffer_only, pt_local_comp_only = local_comp_only,
                    pt_is_recv = (pa_direction a = dir_IN \<and> local_buffer_only),
                    pt_max_inject_size = cf_max_inject_size cf, pt_max_bcopy_size = get_max_bcopy_size cf\<rparr> in
      bindR (lci_assert (pa_allow_posted a \<or> pa_allow_done a)) (\<lambda>_.
      bindR (lci_assert (\<not> (pa_direction a = dir_IN \<and> local_buffer_only \<and> \<not> local_comp_only))) (\<lambda>_.
      bindR (lci_assert (\<not> (pa_direction a = dir_IN \<and> \<not> local_buffer_only \<and> \<not> local_comp_only))) (\<lambda>_.
      Inr traits))))"

definition resolve_rhandler :: "post_env \<Rightarrow> post_comm_args_t \<Rightarrow> post_comm_traits_t \<Rightarrow> post_comm_state_t \<Rightarrow> post_comm_state_t" where
  "resolve_rhandler pe a t s =
     (let s = s\<lparr>ps_rhandler := pa_remote_comp a\<rparr> in
      if ps_rhandler s = 0 \<and> pa_matching_engine a \<noteq> 0 \<and> pt_local_buffer_only t
      then s\<lparr>ps_rhandler := get_rhandler (pe_engine_base pe (pa_matching_engine a)) (pa_matching_policy a)\<rparr>
      else s)"

definition set_protocol :: "config \<Rightarrow> post_env \<Rightarrow> post_comm_args_t \<Rightarrow> post_comm_traits_t \<Rightarrow> post_comm_state_t \<Rightarrow> post_comm_state_t" where
  "set_protocol cf pe a t s =
     (let force_zcopy = (pe_accelerator pe \<and> (pa_mr a = MR_DEVICE \<or> \<not> mr_is_empty (pa_mr a) \<and> pe_mr_on_device pe (pa_mr a)));
          msg_size_if_eager = pa_size a + (if eager_payload_needs_metadata cf a s then 8 + 4 else 0);
          needs_metadata = pa_size a < msg_size_if_eager in
      if pa_direction a = dir_IN \<and> pt_local_buffer_only t then s\<lparr>ps_protocol := pr_recv\<rparr>
      else if pa_direction a = dir_OUT \<and> pt_local_buffer_only t
              \<and> (pt_max_bcopy_size t < msg_size_if_eager \<or> force_zcopy) then s\<lparr>ps_protocol := pr_rdv_zcopy\<rparr>
      else if msg_size_if_eager \<le> pt_max_inject_size t \<and> pa_direction a = dir_OUT
              \<and> pa_comp_semantic a = cs_memory \<and> \<not> force_zcopy \<and> \<not> needs_metadata then s\<lparr>ps_protocol := pr_inject\<rparr>
      else if (mr_is_empty (pa_mr a) \<or> needs_metadata) \<and> msg_size_if_eager \<le> pt_max_bcopy_size t
              \<and> \<not> mr_may_be_device_memory pe (pa_mr a) \<and> \<not> force_zcopy then
        (let s = s\<lparr>ps_protocol := pr_eager_bcopy\<rparr> in if needs_metadata then s\<lparr>ps_piggyback := True\<rparr> else s)
      else s\<lparr>ps_protocol := pr_eager_zcopy\<rparr>)"

definition set_local_comp :: "post_env \<Rightarrow> post_comm_args_t \<Rightarrow> post_comm_state_t \<Rightarrow> post_comm_state_t" where
  "set_local_comp pe a s = s\<lparr>ps_local_comp := (if \<not> pa_allow_posted a then pe_sync pe else pa_local_comp a)\<rparr>"

definition set_immediate_data :: "config \<Rightarrow> post_comm_args_t \<Rightarrow> post_comm_state_t \<Rightarrow> post_comm_state_t res" where
  "set_immediate_data cf a s =
     bindR (if ps_protocol s = pr_rdv_zcopy then encode_msg_type IMM_DATA_MSG_RTS
            else if pa_direction a = dir_OUT \<and> ps_rhandler s \<noteq> 0 then
              (if pa_tag a \<le> cf_max_imm_tag cf \<and> ps_rhandler s \<le> cf_max_imm_rcomp cf
               then encode_fastpath (cf_imm_nbits_tag cf) (cf_imm_nbits_rcomp cf) (pa_tag a) (ps_rhandler s)
               else Inr 0)
            else Inr 0) (\<lambda>imm. Inr (s\<lparr>ps_imm_data := imm\<rparr>))"

text \<open>Building the packet: the payload, the metadata behind it, and the pool to return it to.\<close>

definition build_packet :: "config \<Rightarrow> post_env \<Rightarrow> post_comm_args_t \<Rightarrow> post_comm_traits_t \<Rightarrow> post_comm_state_t \<Rightarrow> world
    \<Rightarrow> (post_comm_state_t \<times> world) res" where
  "build_packet cf pe a t s w =
     (let pl = get_payload_address (ps_packet s);
          w = (if ps_user_provided_packet s then w
               else w\<lparr>w_mem := write_bytes (w_mem w) pl (read_bytes (w_mem w) (pa_local_buffer a) (pa_size a))\<rparr>);
          s = s\<lparr>ps_packet_size_to_send := pa_size a\<rparr> in
      bindR (if ps_piggyback s then
               let w = w\<lparr>w_mem := store (w_mem w) (pl + ps_packet_size_to_send s) 8 (unat (pa_tag a))\<rparr>;
                   s = s\<lparr>ps_packet_size_to_send := ps_packet_size_to_send s + 8\<rparr>;
                   w = w\<lparr>w_mem := store (w_mem w) (pl + ps_packet_size_to_send s) 4 (unat (ps_rhandler s))\<rparr>;
                   s = s\<lparr>ps_packet_size_to_send := ps_packet_size_to_send s + 4\<rparr> in
               bindR (lci_assert (ps_packet_size_to_send s \<le> pt_max_bcopy_size t)) (\<lambda>_. Inr (s, w))
             else Inr (s, w)) (\<lambda>(s, w).
      Inr (s, if cf_packet_return_threshold cf < ps_packet_size_to_send s
              then w\<lparr>w_packets := (w_packets w)(ps_packet s := (w_packets w (ps_packet s))\<lparr>pc_local_id := pe_local_id pe\<rparr>)\<rparr>
              else w)))"

definition set_packet_if_needed :: "config \<Rightarrow> post_env \<Rightarrow> post_comm_args_t \<Rightarrow> post_comm_traits_t \<Rightarrow> post_comm_state_t \<Rightarrow> world
    \<Rightarrow> (errorcode_t \<times> post_comm_state_t \<times> world) res" where
  "set_packet_if_needed cf pe a t s w =
     (if ps_protocol s \<noteq> pr_eager_bcopy \<and> ps_protocol s \<noteq> pr_rdv_zcopy then
        Inr (ec_done,
             if pe_is_packet pe (pa_local_buffer a)
             then s\<lparr>ps_user_provided_packet := True, ps_packet := address2packet (pa_local_buffer a)\<rparr> else s, w)
      else
        let user = (ps_protocol s = pr_eager_bcopy \<and> pe_is_packet pe (pa_local_buffer a)) in
        bindR (lci_assert (user \<or> pe_packet pe \<noteq> 0 \<or> pa_allow_retry a)) (\<lambda>_.
        if \<not> user \<and> pe_packet pe = 0 then Inr (ec_retry_nopacket, s, w)
        else
          let s = (if user then s\<lparr>ps_user_provided_packet := True, ps_packet := address2packet (pa_local_buffer a)\<rparr>
                   else s\<lparr>ps_packet := pe_packet pe\<rparr>) in
          if ps_protocol s = pr_rdv_zcopy \<or> pa_direction a = dir_IN then Inr (ec_done, s, w)
          else bindR (build_packet cf pe a t s w) (\<lambda>(s, w). Inr (ec_done, s, w))))"

definition check_backlog :: "post_comm_args_t \<Rightarrow> post_comm_state_t \<Rightarrow> world \<Rightarrow> errorcode_t res" where
  "check_backlog a s w =
     bindR (is_empty_rank (pa_rank a) (w_ep w)) (\<lambda>e.
     Inr (if \<not> e \<and> pa_allow_retry a \<and> ps_protocol s \<noteq> pr_recv then ec_retry_backlog else ec_done))"

definition set_internal_ctx :: "config \<Rightarrow> post_comm_args_t \<Rightarrow> post_comm_state_t \<Rightarrow> world \<Rightarrow> (post_comm_state_t \<times> world) res" where
  "set_internal_ctx cf a s w =
     (let (c, w) = set_user_posted_op new_internal_context w;
          c = c\<lparr>ic_rank := pa_rank a, ic_tag := pa_tag a, ic_user_context := pa_user_context a,
                ic_buffer := pa_local_buffer a, ic_size := pa_size a, ic_packet_to_free := ps_packet s\<rparr>;
          pass = (ps_protocol s = pr_eager_zcopy \<or> ps_protocol s = pr_rdv_zcopy
                  \<or> pa_comp_semantic a = cs_network \<or> pa_direction a = dir_IN) in
      bindR (lci_assert (\<not> pass \<or> ps_local_comp s \<noteq> 0)) (\<lambda>_.
      let c = (if pass then c\<lparr>ic_comp := ps_local_comp s\<rparr> else c);
          reg = (ps_protocol s = pr_eager_zcopy \<and> mr_is_empty (pa_mr a));
          mr = (if reg then cf_register cf (pa_local_buffer a) (pa_size a) else pa_mr a);
          c = (if reg then set_mr_on_the_fly mr c else c);
          (ctx, w) = new_ctx (Simple c) w in
      Inr (s\<lparr>ps_internal_ctx := ctx, ps_comp_passed := pass, ps_mr := mr\<rparr>, w)))"

definition set_status :: "post_comm_args_t \<Rightarrow> post_comm_state_t \<Rightarrow> post_comm_state_t" where
  "set_status a s = s\<lparr>ps_status := status_init\<lparr>st_rank := pa_rank a, st_tag := pa_tag a,
     st_user_context := pa_user_context a, st_buffer := pa_local_buffer a, st_size := pa_size a\<rparr>\<rparr>"

text \<open>A send over shared memory that succeeds completes at once: the context is deleted.  \<open>None\<close> when
  the message has to go over the network: the peer is not reached or its ring is full.\<close>

definition shm_try :: "post_env \<Rightarrow> post_comm_state_t \<Rightarrow> world
    \<Rightarrow> (errorcode_t \<times> post_comm_state_t \<times> world) option res" where
  "shm_try pe s w =
     (case pe_shm pe of
        None \<Rightarrow> Inr None
      | Some e \<Rightarrow>
          if is_done e then
            bindR (delete_ctx (ps_internal_ctx s) w) (\<lambda>w.
            Inr (Some (ec_done, s\<lparr>ps_internal_ctx := 0, ps_comp_passed := False\<rparr>, w)))
          else if e = ec_retry_lock then Inr (Some (e, s, w))
          else bindR (lci_assert (e = ec_retry_nomem)) (\<lambda>_. Inr None))"

definition via_ep :: "backend \<Rightarrow> (backend \<Rightarrow> net_req \<Rightarrow> bool \<Rightarrow> bool \<Rightarrow> endpoint_t \<Rightarrow> (errorcode_t \<times> endpoint_t) res)
    \<Rightarrow> net_req \<Rightarrow> post_comm_args_t \<Rightarrow> post_comm_state_t \<Rightarrow> world \<Rightarrow> (errorcode_t \<times> post_comm_state_t \<times> world) res" where
  "via_ep be post rq a s w =
     bindR (ep_post (post be rq (pa_allow_retry a) False) w) (\<lambda>(e, w). Inr (e, s, w))"

definition do_inject :: "backend \<Rightarrow> post_env \<Rightarrow> post_comm_args_t \<Rightarrow> post_comm_traits_t \<Rightarrow> post_comm_state_t \<Rightarrow> world
    \<Rightarrow> (errorcode_t \<times> post_comm_state_t \<times> world) res" where
  "do_inject be pe a t s w =
     (let bs = read_bytes (w_mem w) (pa_local_buffer a) (pa_size a); ctx = Ctx (ps_internal_ctx s) in
      if pt_local_buffer_only t then
        bindR (shm_try pe s w) (\<lambda>r.
        case r of
          Some out \<Rightarrow> Inr out
        | None \<Rightarrow> via_ep be post_sends (mk_sends (pa_rank a) bs (ps_imm_data s) ctx) a s w)
      else if ps_rhandler s = 0 then
        via_ep be post_puts (mk_puts (pa_rank a) bs (pa_remote_disp a) (pa_rmr a) ctx) a s w
      else
        via_ep be post_putImms (mk_putImms (pa_rank a) bs (pa_remote_disp a) (pa_rmr a) (ps_imm_data s) ctx) a s w)"

definition do_bcopy :: "config \<Rightarrow> backend \<Rightarrow> post_env \<Rightarrow> post_comm_args_t \<Rightarrow> post_comm_traits_t \<Rightarrow> post_comm_state_t \<Rightarrow> world
    \<Rightarrow> (errorcode_t \<times> post_comm_state_t \<times> world) res" where
  "do_bcopy cf be pe a t s w =
     (let pl = get_payload_address (ps_packet s); len = ps_packet_size_to_send s; mr = cf_packet_mr cf;
          ctx = Ctx (ps_internal_ctx s);
          finish = (\<lambda>(e, s, w). (if is_posted e \<and> pa_comp_semantic a = cs_memory then ec_done else e, s, w)) in
      if pt_local_buffer_only t then
        bindR (shm_try pe s w) (\<lambda>r.
        case r of
          Some out \<Rightarrow> Inr out
        | None \<Rightarrow>
            bindR (via_ep be post_send (mk_send (pa_rank a) pl len mr (ps_imm_data s) ctx) a s w) (\<lambda>out. Inr (finish out)))
      else if ps_rhandler s = 0 then
        bindR (via_ep be post_put (mk_put (pa_rank a) pl len mr (pa_remote_disp a) (pa_rmr a) ctx) a s w) (\<lambda>out. Inr (finish out))
      else
        bindR (via_ep be post_putImm (mk_putImm (pa_rank a) pl len mr (pa_remote_disp a) (pa_rmr a) (ps_imm_data s) ctx) a s w)
          (\<lambda>out. Inr (finish out)))"

definition do_zcopy :: "backend \<Rightarrow> post_comm_args_t \<Rightarrow> post_comm_traits_t \<Rightarrow> post_comm_state_t \<Rightarrow> world
    \<Rightarrow> (errorcode_t \<times> post_comm_state_t \<times> world) res" where
  "do_zcopy be a t s w =
     (let b = pa_local_buffer a; len = pa_size a; ctx = Ctx (ps_internal_ctx s) in
      if pt_local_buffer_only t then
        via_ep be post_send (mk_send (pa_rank a) b len (ps_mr s) (ps_imm_data s) ctx) a s w
      else if ps_rhandler s = 0 then
        via_ep be post_put (mk_put (pa_rank a) b len (ps_mr s) (pa_remote_disp a) (pa_rmr a) ctx) a s w
      else
        via_ep be post_putImm (mk_putImm (pa_rank a) b len (ps_mr s) (pa_remote_disp a) (pa_rmr a) (ps_imm_data s) ctx) a s w)"

text \<open>The request to send is built in allocated memory and injected, or built in the packet.\<close>

definition do_rdv :: "config \<Rightarrow> backend \<Rightarrow> post_comm_args_t \<Rightarrow> post_comm_traits_t \<Rightarrow> post_comm_state_t \<Rightarrow> world
    \<Rightarrow> (errorcode_t \<times> post_comm_state_t \<times> world) res" where
  "do_rdv cf be a t s w =
     (let inject = (sizeof_rts \<le> pt_max_inject_size t);
          rts = \<lparr>rts_rcomp = ps_rhandler s, rts_send_ctx = ps_internal_ctx s, rts_tag = pa_tag a, rts_size = pa_size a\<rparr> in
      bindR (lci_assert (inject \<or> sizeof_rts \<le> pt_max_bcopy_size t)) (\<lambda>_.
      let (p, w) = (if inject then allocate sizeof_rts w else (get_payload_address (ps_packet s), w));
          w = w\<lparr>w_mem := write_rts (w_mem w) p rts\<rparr> in
      bindR (if inject
             then via_ep be post_sends (mk_sends (pa_rank a) (read_bytes (w_mem w) p sizeof_rts) (ps_imm_data s) No_ctx) a s w
             else via_ep be post_send (mk_send (pa_rank a) p sizeof_rts (cf_packet_mr cf) (ps_imm_data s) No_ctx) a s w)
        (\<lambda>(e, s, w). Inr (if is_done e then ec_posted else e, s, w))))"

text \<open>A receive goes to the matching engine; with a wildcard, the policy follows from the wildcards.\<close>

definition recv_policy :: "post_comm_args_t \<Rightarrow> matching_policy_t" where
  "recv_policy a =
     (if pa_rank a = ANY_SOURCE \<and> pa_tag a = ANY_TAG then mp_none
      else if pa_rank a = ANY_SOURCE then mp_tag_only
      else if pa_tag a = ANY_TAG then mp_rank_only
      else pa_matching_policy a)"

definition do_recv :: "config \<Rightarrow> backend \<Rightarrow> post_comm_args_t \<Rightarrow> post_comm_state_t \<Rightarrow> world
    \<Rightarrow> (errorcode_t \<times> post_comm_state_t \<times> world) res" where
  "do_recv cf be a s w =
     bindR (make_key (pa_rank a) (pa_tag a) (recv_policy a)) (\<lambda>key.
     let (ret, w) = engine_insert (pa_matching_engine a) key (ps_internal_ctx s) it_recv w in
     if ret = 0 then Inr (ec_posted, s, w)
     else
       bindR (handle_matched_sendrecv cf be ret (ps_internal_ctx s) (Some (ps_status s)) w) (\<lambda>(st, w).
       let st = (case st of Some st \<Rightarrow> st | None \<Rightarrow> ps_status s) in
       Inr (st_error st, s\<lparr>ps_status := st\<rparr>, w)))"

definition do_get :: "config \<Rightarrow> backend \<Rightarrow> post_comm_args_t \<Rightarrow> post_comm_state_t \<Rightarrow> world
    \<Rightarrow> (errorcode_t \<times> post_comm_state_t \<times> world) res" where
  "do_get cf be a s w =
     (let ctx = Ctx (ps_internal_ctx s) in
      if ps_protocol s = pr_eager_bcopy then
        via_ep be post_get (mk_get (pa_rank a) (get_payload_address (ps_packet s)) (pa_size a) (cf_packet_mr cf)
          (pa_remote_disp a) (pa_rmr a) ctx) a s w
      else
        via_ep be post_get (mk_get (pa_rank a) (pa_local_buffer a) (pa_size a) (ps_mr s)
          (pa_remote_disp a) (pa_rmr a) ctx) a s w)"

definition post_network_op :: "config \<Rightarrow> backend \<Rightarrow> post_env \<Rightarrow> post_comm_args_t \<Rightarrow> post_comm_traits_t \<Rightarrow> post_comm_state_t
    \<Rightarrow> world \<Rightarrow> (errorcode_t \<times> post_comm_state_t \<times> world) res" where
  "post_network_op cf be pe a t s w =
     (if pa_direction a = dir_OUT then
        (case ps_protocol s of
           pr_inject \<Rightarrow> do_inject be pe a t s w
         | pr_eager_bcopy \<Rightarrow> do_bcopy cf be pe a t s w
         | pr_eager_zcopy \<Rightarrow> do_zcopy be a t s w
         | _ \<Rightarrow> do_rdv cf be a t s w)
      else if ps_protocol s = pr_recv then do_recv cf be a s w
      else do_get cf be a s w)"

text \<open>The deletion of the context when the post is to be retried; a packet that the user provided
  stays with the user.\<close>

definition undo_ctx :: "post_comm_state_t \<Rightarrow> world \<Rightarrow> world res" where
  "undo_ctx s w =
     (if ps_internal_ctx s = 0 then (if ps_user_provided_packet s then Inl Undefined_behaviour else Inr w)
      else
        bindR (get_ctx (ps_internal_ctx s) w) (\<lambda>c.
        let c = (if ps_user_provided_packet s then c\<lparr>ic_packet_to_free := 0\<rparr> else c) in
        delete_ctx (ps_internal_ctx s) (set_ctx (ps_internal_ctx s) (Simple c) w)))"

definition exit_handler :: "post_env \<Rightarrow> errorcode_t \<Rightarrow> post_comm_args_t \<Rightarrow> post_comm_state_t \<Rightarrow> world \<Rightarrow> (status_t \<times> world) res" where
  "exit_handler pe e a s w =
     (let st = (ps_status s)\<lparr>st_error := e\<rparr> in
      bindR (lci_assert (ps_protocol s = pr_recv \<or> \<not> is_done e \<or> \<not> ps_comp_passed s)) (\<lambda>_.
      bindR (lci_assert (ps_protocol s = pr_recv \<or> \<not> is_posted e \<or> ps_comp_passed s)) (\<lambda>_.
      bindR (if is_retry e then undo_ctx s w else Inr w) (\<lambda>w.
      let (st, w) = (if is_posted e \<and> \<not> pa_allow_posted a
                     then (let (st, w) = pe_wait pe w in (set_done st, w)) else (st, w));
          w = (if \<not> pa_allow_posted a then w\<lparr>w_freed_comps := w_freed_comps w @ [ps_local_comp s]\<rparr> else w) in
      if is_done (st_error st) \<and> \<not> pa_allow_done a
      then Inr (set_posted st, comp_signal (ps_local_comp s) st w)
      else Inr (st, w)))))"

definition post_comm :: "config \<Rightarrow> backend \<Rightarrow> post_env \<Rightarrow> post_comm_args_t \<Rightarrow> world \<Rightarrow> (status_t \<times> world) res" where
  "post_comm cf be pe a w =
     bindR (preprocess_args pe a) (\<lambda>a.
     bindR (validate_and_get_traits cf a) (\<lambda>t.
     let s = set_protocol cf pe a t (resolve_rhandler pe a t post_comm_state_init) in
     bindR (check_backlog a s w) (\<lambda>e.
     if \<not> is_done e then exit_handler pe e a s w
     else
       bindR (set_packet_if_needed cf pe a t s w) (\<lambda>(e, s, w).
       if \<not> is_done e then exit_handler pe e a s w
       else
         bindR (set_immediate_data cf a s) (\<lambda>s.
         let s = set_status a (set_local_comp pe a s) in
         bindR (set_internal_ctx cf a s w) (\<lambda>(s, w).
         bindR (post_network_op cf be pe a t s w) (\<lambda>(e, s, w).
         exit_handler pe e a s w)))))))"

section \<open>The public operations\<close>

definition post_am_x :: "config \<Rightarrow> backend \<Rightarrow> post_env \<Rightarrow> post_comm_args_t \<Rightarrow> world \<Rightarrow> (status_t \<times> world) res" where
  "post_am_x cf be pe a = post_comm cf be pe (a\<lparr>pa_direction := dir_OUT, pa_matching_engine := 0, pa_remote_disp := 0,
     pa_rmr := rmr_empty, pa_matching_policy := mp_rank_tag\<rparr>)"

definition post_send_x :: "config \<Rightarrow> backend \<Rightarrow> post_env \<Rightarrow> post_comm_args_t \<Rightarrow> world \<Rightarrow> (status_t \<times> world) res" where
  "post_send_x cf be pe a = post_comm cf be pe (a\<lparr>pa_direction := dir_OUT, pa_remote_disp := 0, pa_rmr := rmr_empty,
     pa_remote_comp := 0\<rparr>)"

definition post_recv_x :: "config \<Rightarrow> backend \<Rightarrow> post_env \<Rightarrow> post_comm_args_t \<Rightarrow> world \<Rightarrow> (status_t \<times> world) res" where
  "post_recv_x cf be pe a = post_comm cf be pe (a\<lparr>pa_direction := dir_IN, pa_remote_disp := 0, pa_rmr := rmr_empty,
     pa_remote_comp := 0\<rparr>)"

definition post_put_x :: "config \<Rightarrow> backend \<Rightarrow> post_env \<Rightarrow> post_comm_args_t \<Rightarrow> world \<Rightarrow> (status_t \<times> world) res" where
  "post_put_x cf be pe a = post_comm cf be pe (a\<lparr>pa_direction := dir_OUT, pa_matching_engine := 0, pa_matching_policy := mp_rank_tag\<rparr>)"

definition post_get_x :: "config \<Rightarrow> backend \<Rightarrow> post_env \<Rightarrow> post_comm_args_t \<Rightarrow> world \<Rightarrow> (status_t \<times> world) res" where
  "post_get_x cf be pe a = post_comm cf be pe (a\<lparr>pa_direction := dir_IN, pa_matching_engine := 0, pa_matching_policy := mp_rank_tag\<rparr>)"

end
