(* ===== verification/LCI_Post_Spec.thy ===== *)
theory LCI_Post_Spec
  imports LCI_Post
begin

text \<open>
  What posting a communication promises: the error category matches what the caller allows, the
  assertions at the exit of \<^verbatim>\<open>post_comm_x\<close> hold, and a post that is to be retried leaves no trace.
\<close>

text \<open>The shared-memory transport reports done, a full ring, or, where a retry is allowed, a lost race.\<close>

definition shm_ok :: "post_env \<Rightarrow> post_comm_args_t \<Rightarrow> bool" where
  "shm_ok pe a \<longleftrightarrow> pe_shm pe \<in> {None, Some ec_done, Some ec_retry_nomem}
     \<or> pe_shm pe = Some ec_retry_lock \<and> pa_allow_retry a"

section \<open>Examples\<close>

text \<open>A process in which nothing has been posted, a configuration and an environment of the default
  build, and a short put: the inputs at which the properties are applied.\<close>

definition world_new :: "nat \<Rightarrow> world" where
  "world_new nranks = \<lparr>w_mem = (\<lambda>_. 0), w_ctxs = (\<lambda>_. None), w_next = 4096,
     w_packets = (\<lambda>_. \<lparr>pc_local_id = LOCAL_SET_ID_NULL, pc_is_eager = False, pc_rank = 0, pc_tag = 0, pc_size = 0\<rparr>),
     w_returned = [], w_signals = [], w_deregistered = [], w_ep = endpoint_new nranks True, w_engines = (\<lambda>_. table_init),
     w_registry = registry_new,
     w_archive = \<lparr>ar_tag_bits = 1, ar_size = 2, ar_mask = 1, ar_slots = [empty_value, empty_value], ar_next_slot = 0\<rparr>,
     w_network_failed = False, w_recvs_consumed = 0, w_freed_comps = []\<rparr>"

definition config_new :: config where
  "config_new = \<lparr>cf_max_imm_tag = 65535, cf_max_imm_rcomp = 32767, cf_imm_nbits_tag = 16, cf_imm_nbits_rcomp = 15,
     cf_writeimm = False, cf_max_msg_size = 4, cf_max_inject_size = 64, cf_payload_size = 8192 - 40,
     cf_packet_return_threshold = 4096, cf_zero_copy_am = (\<lambda>_. False), cf_register = (\<lambda>_ _. 7),
     cf_rmr = (\<lambda>_. \<lparr>rmr_base = 0, rmr_mr_base = 0, opaque_rkey = 9\<rparr>), cf_packet_mr = 8\<rparr>"

definition env_new :: post_env where
  "env_new = \<lparr>pe_accelerator = False, pe_buffer_on_device = (\<lambda>_. Some False), pe_mr_on_device = (\<lambda>_. False),
     pe_engine_base = (\<lambda>_. 1), pe_is_packet = (\<lambda>_. False), pe_packet = 2048, pe_local_id = 0, pe_shm = None, pe_sync = 77,
     pe_wait = (\<lambda>w. (status_init, w))\<rparr>"

definition put_args :: "nat \<Rightarrow> post_comm_args_t" where
  "put_args n = \<lparr>pa_direction = dir_OUT, pa_rank = 1, pa_local_buffer = 100, pa_size = n, pa_local_comp = 55,
     pa_matching_engine = 0, pa_comp_semantic = cs_memory, pa_mr = MR_HOST, pa_remote_disp = 0,
     pa_rmr = \<lparr>rmr_base = 64, rmr_mr_base = 64, opaque_rkey = 9\<rparr>, pa_tag = 0, pa_remote_comp = 0, pa_user_context = 0,
     pa_matching_policy = mp_rank_tag, pa_allow_done = True, pa_allow_posted = True, pa_allow_retry = True\<rparr>"

lemmas example_defs = world_new_def config_new_def env_new_def put_args_def endpoint_new_def rmr_empty_def

lemma world_new_ok: "heap_ok (world_new n)" "0 \<le> r \<Longrightarrow> r < int n \<Longrightarrow> ep_ok r (world_new n)"
  using endpoint_new_inv [of n True]
  by (simp_all add: heap_ok_def ep_ok_def rank_ok_def) (simp_all add: world_new_def endpoint_new_def)

lemma env_new_shm: "shm_ok env_new a"
  by (simp add: shm_ok_def env_new_def)

text \<open>The bundle that evaluates a post.\<close>

lemmas post_eval = post_comm_def preprocess_args_def validate_and_get_traits_def resolve_rhandler_def set_protocol_def
  eager_payload_needs_metadata_def post_comm_state_init_def check_backlog_def is_empty_rank_def rank_ok_def
  set_packet_if_needed_def set_immediate_data_def set_local_comp_def set_status_def set_internal_ctx_def
  set_user_posted_op_def add_pending_ops_def sub_pending_ops_def new_ctx_def post_network_op_def
  exit_handler_def undo_ctx_def get_ctx_def set_ctx_def delete_ctx_def ctx_destructor_def put_back_def
  COMP_NULL_def COMP_NULL_RETRY_def MR_HOST_def MR_UNKNOWN_def MR_DEVICE_def mr_is_empty_def mr_may_be_device_memory_def
  get_max_bcopy_size_def ep_post_def via_ep_def post_wrapper_def post_impl_def ec_category
  always_accept_def full_then_accept_def

section \<open>What posting leaves behind\<close>

lemma post_kind:
  "post_puts be (mk_puts r b off rm c) = post_req be (mk_puts r b off rm c)"
  "post_putImms be (mk_putImms r b off rm i c) = post_req be (mk_putImms r b off rm i c)"
  "post_get be (mk_get r a z m off rm c) = post_req be (mk_get r a z m off rm c)"
  by (simp_all add: fun_eq_iff post_req_def mk_puts_def mk_putImms_def mk_get_def)

lemmas post_kinds = post_req_kind post_kind

lemma mk_more [simp]:
  "rq_rank (mk_puts r b off rm c) = r" "rq_op (mk_puts r b off rm c) = op_puts"
  "rq_rank (mk_putImms r b off rm i c) = r" "rq_op (mk_putImms r b off rm i c) = op_putImms"
  "rq_rank (mk_get r a z m off rm c) = r" "rq_op (mk_get r a z m off rm c) = op_get"
  by (simp_all add: mk_puts_def mk_putImms_def mk_get_def)

lemma post_impl_pending: "post_impl be rq hp ep = Inr (e, ep') \<Longrightarrow> ep_pending_ops ep' = ep_pending_ops ep"
  by (cases "be rq hp (ep_calls ep)") (auto simp: post_impl_def Let_def split: if_splits)

lemma bq_push_pending: "bq_push rq ep = Inr ep' \<Longrightarrow> ep_pending_ops ep' = ep_pending_ops ep"
  by (auto simp: bq_push_def bump_def split: if_splits)

lemma post_wrapper_pending:
  assumes "post_wrapper (post_impl be rq) rq c a f ep = Inr (e, ep')"
  shows "ep_pending_ops ep' = ep_pending_ops ep"
proof -
  obtain go e1 ep1 where e1: "(if go then post_impl be rq (\<not> a \<or> f) ep else Inr (ec_retry_backlog, ep)) = Inr (e1, ep1)"
      and rest: "(if is_retry e1 \<and> \<not> a then bindR (bq_push rq ep1) (\<lambda>ep. Inr (c, ep)) else Inr (e1, ep1)) = Inr (e, ep')"
    using assms unfolding post_wrapper_def bindR_Inr_iff by (auto split: prod.splits)
  have "ep_pending_ops ep1 = ep_pending_ops ep" using e1 by (auto split: if_splits dest: post_impl_pending)
  moreover have "ep_pending_ops ep' = ep_pending_ops ep1"
    using rest by (auto simp: bindR_Inr_iff split: if_splits dest: bq_push_pending)
  ultimately show ?thesis by simp
qed

lemma via_ep_kinds:
  "via_ep be post_sends (mk_sends r b i c) = via_ep be post_req (mk_sends r b i c)"
  "via_ep be post_send (mk_send r x z m i c) = via_ep be post_req (mk_send r x z m i c)"
  "via_ep be post_puts (mk_puts r b off rm c) = via_ep be post_req (mk_puts r b off rm c)"
  "via_ep be post_put (mk_put r x z m off rm c) = via_ep be post_req (mk_put r x z m off rm c)"
  "via_ep be post_putImms (mk_putImms r b off rm i c) = via_ep be post_req (mk_putImms r b off rm i c)"
  "via_ep be post_putImm (mk_putImm r x z m off rm i c) = via_ep be post_req (mk_putImm r x z m off rm i c)"
  "via_ep be post_get (mk_get r x z m off rm c) = via_ep be post_req (mk_get r x z m off rm c)"
  by (simp_all add: fun_eq_iff via_ep_def post_kinds)

text \<open>The state is the same but for the endpoint, whose accepted requests have not changed, and for
  memory that is not in use.\<close>

definition no_trace :: "world \<Rightarrow> world \<Rightarrow> bool" where
  "no_trace w w' \<longleftrightarrow> w_ctxs w' = w_ctxs w \<and> w_signals w' = w_signals w \<and> w_returned w' = w_returned w
     \<and> w_deregistered w' = w_deregistered w \<and> w_engines w' = w_engines w
     \<and> (\<forall>r. w_sent r w' = w_sent r w) \<and> ep_pending_ops (w_ep w') = ep_pending_ops (w_ep w)"

lemma no_trace_refl [simp]: "no_trace w w"
  by (simp add: no_trace_def)

context net_backend
begin

lemma via_ep_spec:
  assumes "via_ep backend post_req rq a s w = Inr (e, s', w')" "ep_ok (rq_rank rq) w"
  shows "s' = s \<and> (is_retry e \<longrightarrow> pa_allow_retry a \<and> no_trace w w')
       \<and> (\<not> is_retry e \<longrightarrow> (if is_short (rq_op rq) then is_done e else is_posted e)
            \<and> (\<forall>r. w_sent r w' = w_sent r w @ for_rank r [rq]))
       \<and> (\<exists>ep. w' = w\<lparr>w_ep := ep\<rparr>) \<and> ep_ok (rq_rank rq) w'
       \<and> ep_pending_ops (w_ep w') = ep_pending_ops (w_ep w)"
proof -
  from assms(1) obtain ep where s: "s' = s" "w' = w\<lparr>w_ep := ep\<rparr>"
      and p: "post_req backend rq (pa_allow_retry a) False (w_ep w) = Inr (e, ep)"
    by (auto simp: via_ep_def ep_post_def res_iff)
  have ok: "ep_inv (w_ep w)" "ep_support_putimm (w_ep w)" "rank_ok (w_ep w) (rq_rank rq)"
    using assms(2) by (auto simp: ep_ok_def)
  note p' = p [unfolded post_req_supported [OF ok(2)]]
  show ?thesis
    using post_wrapper_spec [OF ok(1,3) p'] post_wrapper_pending [OF p'] s ok
    by (auto simp: no_trace_def ep_sent_def ep_ok_def rank_ok_def)
qed


lemma via_ep_outcome:
  assumes "via_ep backend post_req rq a s w = Inr (e, s', w')" "ep_ok (rq_rank rq) w"
  shows "s' = s \<and> (is_retry e \<and> pa_allow_retry a \<and> no_trace w w'
       \<or> (if is_short (rq_op rq) then is_done e else is_posted e))"
  using via_ep_spec [OF assms] by auto

lemma shm_try_spec:
  assumes "shm_try pe s w = Inr (Some (e, s', w'))" "shm_ok pe a"
  shows "e = ec_done \<and> \<not> ps_comp_passed s' \<or> e = ec_retry_lock \<and> s' = s \<and> w' = w \<and> pa_allow_retry a"
proof (cases "pe_shm pe")
  case None
  then show ?thesis using assms(1) by (simp add: shm_try_def)
next
  case (Some c)
  with assms(2) consider "c = ec_done" | "c = ec_retry_nomem" | "c = ec_retry_lock" "pa_allow_retry a"
    by (auto simp: shm_ok_def)
  then show ?thesis
  proof cases
    case 1
    with Some assms(1) show ?thesis by (cases "delete_ctx (ps_internal_ctx s) w") (auto simp: shm_try_def ec_category)
  qed (use Some assms(1) in \<open>auto simp: shm_try_def ec_category\<close>)
qed

lemma do_inject_spec:
  assumes "do_inject backend pe a t s w = Inr (e, s', w')" "ep_ok (pa_rank a) w" "shm_ok pe a"
  shows "is_retry e \<and> pa_allow_retry a \<and> s' = s \<and> no_trace w w'
       \<or> is_done e \<and> (s' = s \<or> \<not> ps_comp_passed s')"
proof -
  have net: ?thesis if "via_ep backend post_req rq a s w = Inr (e, s', w')" "rq_rank rq = pa_rank a" "is_short (rq_op rq)" for rq
    using via_ep_outcome [OF that(1)] that(2,3) assms(2) by auto
  show ?thesis
  proof (cases "pt_local_buffer_only t")
    case True
    with assms(1) obtain r where r: "shm_try pe s w = Inr r"
        "(case r of Some out \<Rightarrow> Inr out | None \<Rightarrow> via_ep backend post_req
           (mk_sends (pa_rank a) (read_bytes (w_mem w) (pa_local_buffer a) (pa_size a)) (ps_imm_data s) (Ctx (ps_internal_ctx s))) a s w)
         = Inr (e, s', w')"
      by (auto simp: do_inject_def Let_def bindR_Inr_iff via_ep_kinds)
    show ?thesis
    proof (cases r)
      case None
      from net [OF r(2) [unfolded None option.case]] show ?thesis by simp
    next
      case (Some out)
      then have "out = (e, s', w')" using r(2) by simp
      with shm_try_spec [OF r(1) [unfolded Some this] assms(3)] show ?thesis by (auto simp: ec_category)
    qed
  next
    case False
    let ?bs = "read_bytes (w_mem w) (pa_local_buffer a) (pa_size a)" and ?ctx = "Ctx (ps_internal_ctx s)"
    let ?rq = "if ps_rhandler s = 0 then mk_puts (pa_rank a) ?bs (pa_remote_disp a) (pa_rmr a) ?ctx
       else mk_putImms (pa_rank a) ?bs (pa_remote_disp a) (pa_rmr a) (ps_imm_data s) ?ctx"
    have "via_ep backend post_req ?rq a s w = Inr (e, s', w')"
      using assms(1) False by (cases "ps_rhandler s = 0") (simp_all add: do_inject_def via_ep_kinds)
    from net [OF this] show ?thesis by simp
  qed
qed

lemma do_bcopy_spec:
  assumes "do_bcopy cf backend pe a t s w = Inr (e, s', w')" "ep_ok (pa_rank a) w" "shm_ok pe a"
  shows "is_retry e \<and> pa_allow_retry a \<and> s' = s \<and> no_trace w w'
       \<or> is_done e \<and> (s' = s \<and> pa_comp_semantic a = cs_memory \<or> \<not> ps_comp_passed s')
       \<or> is_posted e \<and> s' = s \<and> pa_comp_semantic a = cs_network"
proof -
  let ?fin = "\<lambda>out. case out of (e, x) \<Rightarrow> (if is_posted e \<and> pa_comp_semantic a = cs_memory then ec_done else e, x)"
  have net: ?thesis if h: "bindR (via_ep backend post_req rq a s w) (\<lambda>out. Inr (?fin out)) = Inr (e, s', w')"
      "rq_rank rq = pa_rank a" "\<not> is_short (rq_op rq)" for rq
  proof -
    obtain out where out: "via_ep backend post_req rq a s w = Inr out" "?fin out = (e, s', w')"
      using h(1) unfolding bindR_Inr_iff by blast
    then obtain e0 where e0: "via_ep backend post_req rq a s w = Inr (e0, s', w')"
        "e = (if is_posted e0 \<and> pa_comp_semantic a = cs_memory then ec_done else e0)"
      by (cases out) auto
    show ?thesis
      using via_ep_outcome [OF e0(1)] e0(2) h(2,3) assms(2)
      by (cases "pa_comp_semantic a") (auto simp: ec_category)
  qed
  show ?thesis
  proof (cases "pt_local_buffer_only t")
    case True
    with assms(1) obtain r where r: "shm_try pe s w = Inr r"
        "(case r of Some out \<Rightarrow> Inr out | None \<Rightarrow> bindR (via_ep backend post_req
           (mk_send (pa_rank a) (get_payload_address (ps_packet s)) (ps_packet_size_to_send s) (cf_packet_mr cf) (ps_imm_data s)
              (Ctx (ps_internal_ctx s))) a s w) (\<lambda>out. Inr (?fin out)))
         = Inr (e, s', w')"
      by (auto simp: do_bcopy_def Let_def bindR_Inr_iff via_ep_kinds)
    show ?thesis
    proof (cases r)
      case None
      from net [OF r(2) [unfolded None option.case]] show ?thesis by simp
    next
      case (Some out)
      then have "out = (e, s', w')" using r(2) by simp
      with shm_try_spec [OF r(1) [unfolded Some this] assms(3)] show ?thesis by (auto simp: ec_category)
    qed
  next
    case False
    let ?pl = "get_payload_address (ps_packet s)" and ?len = "ps_packet_size_to_send s" and ?ctx = "Ctx (ps_internal_ctx s)"
    let ?rq = "if ps_rhandler s = 0 then mk_put (pa_rank a) ?pl ?len (cf_packet_mr cf) (pa_remote_disp a) (pa_rmr a) ?ctx
       else mk_putImm (pa_rank a) ?pl ?len (cf_packet_mr cf) (pa_remote_disp a) (pa_rmr a) (ps_imm_data s) ?ctx"
    have "bindR (via_ep backend post_req ?rq a s w) (\<lambda>out. Inr (?fin out)) = Inr (e, s', w')"
      using assms(1) False by (cases "ps_rhandler s = 0") (simp_all add: do_bcopy_def via_ep_kinds)
    from net [OF this] show ?thesis by simp
  qed
qed

lemma do_zcopy_spec:
  assumes "do_zcopy backend a t s w = Inr (e, s', w')" "ep_ok (pa_rank a) w"
  shows "is_retry e \<and> pa_allow_retry a \<and> s' = s \<and> no_trace w w' \<or> is_posted e \<and> s' = s"
  using assms
  by (auto simp: do_zcopy_def Let_def via_ep_kinds split: if_splits dest!: via_ep_outcome)

lemma do_get_spec:
  assumes "do_get cf backend a s w = Inr (e, s', w')" "ep_ok (pa_rank a) w"
  shows "is_retry e \<and> pa_allow_retry a \<and> s' = s \<and> no_trace w w' \<or> is_posted e \<and> s' = s"
  using assms
  by (auto simp: do_get_def Let_def via_ep_kinds split: if_splits dest!: via_ep_outcome)

lemma do_rdv_spec:
  assumes "do_rdv cf backend a t s w = Inr (e, s', w')" "ep_ok (pa_rank a) w"
  shows "is_retry e \<and> pa_allow_retry a \<and> s' = s \<and> no_trace w w' \<or> is_posted e \<and> s' = s"
proof -
  let ?inj = "sizeof_rts \<le> pt_max_inject_size t"
  let ?rts = "\<lparr>rts_rcomp = ps_rhandler s, rts_send_ctx = ps_internal_ctx s, rts_tag = pa_tag a, rts_size = pa_size a\<rparr>"
  let ?p = "if ?inj then w_next w else get_payload_address (ps_packet s)"
  define w1 where "w1 = (if ?inj then snd (allocate sizeof_rts w) else w)\<lparr>w_mem := write_rts (w_mem w) ?p ?rts\<rparr>"
  define rq where "rq = (if ?inj then mk_sends (pa_rank a) (read_bytes (w_mem w1) ?p sizeof_rts) (ps_imm_data s) No_ctx
    else mk_send (pa_rank a) ?p sizeof_rts (cf_packet_mr cf) (ps_imm_data s) No_ctx)"
  have same: "no_trace w1 w' \<Longrightarrow> no_trace w w'" "ep_ok (pa_rank a) w1"
    using assms(2) by (auto simp: w1_def allocate_def no_trace_def ep_ok_def)
  have red: "do_rdv cf backend a t s w = bindR (lci_assert (?inj \<or> sizeof_rts \<le> pt_max_bcopy_size t)) (\<lambda>_.
      bindR (via_ep backend post_req rq a s w1) (\<lambda>(e, s, w). Inr (if is_done e then ec_posted else e, s, w)))"
    by (simp add: do_rdv_def Let_def w1_def rq_def allocate_def via_ep_kinds)
  obtain e0 where e0: "via_ep backend post_req rq a s w1 = Inr (e0, s', w')" "e = (if is_done e0 then ec_posted else e0)"
    using assms(1) [unfolded red bindR_Inr_iff] by auto
  have "rq_rank rq = pa_rank a" by (simp add: rq_def)
  with via_ep_outcome [OF e0(1)] e0(2) same show ?thesis by (auto simp: ec_category split: if_splits)
qed

text \<open>The outcome of the network operation of everything but a receive.\<close>

lemma post_network_op_spec:
  assumes "post_network_op cf backend pe a t s w = Inr (e, s', w')" "ep_ok (pa_rank a) w" "shm_ok pe a"
    and "pa_direction a = dir_OUT \<or> ps_protocol s \<noteq> pr_recv"
  shows "is_retry e \<and> pa_allow_retry a \<and> s' = s \<and> no_trace w w'
       \<or> is_done e \<and> (\<not> ps_comp_passed s' \<or> s' = s \<and> pa_direction a = dir_OUT
            \<and> (ps_protocol s = pr_inject \<or> ps_protocol s = pr_eager_bcopy \<and> pa_comp_semantic a = cs_memory))
       \<or> is_posted e \<and> s' = s \<and> (pa_direction a = dir_OUT \<longrightarrow> ps_protocol s \<noteq> pr_inject
            \<and> (ps_protocol s = pr_eager_bcopy \<longrightarrow> pa_comp_semantic a = cs_network))"
proof (cases "pa_direction a")
  case dir_IN
  with assms show ?thesis by (auto simp: post_network_op_def dest!: do_get_spec)
next
  case dir_OUT
  show ?thesis
  proof (cases "ps_protocol s")
    case pr_inject
    with dir_OUT assms(1) do_inject_spec [of pe a t s w e s' w'] assms(2,3) show ?thesis
      by (auto simp: post_network_op_def)
  next
    case pr_eager_bcopy
    with dir_OUT assms(1) do_bcopy_spec [of cf pe a t s w e s' w'] assms(2,3) show ?thesis
      by (auto simp: post_network_op_def)
  next
    case pr_eager_zcopy
    with dir_OUT assms(1) do_zcopy_spec [of a t s w e s' w'] assms(2) show ?thesis
      by (auto simp: post_network_op_def)
  qed (use dir_OUT assms(1) do_rdv_spec [of cf a t s w e s' w'] assms(2) in \<open>auto simp: post_network_op_def\<close>)
qed

end

section \<open>The steps before the network operation\<close>

lemma set_protocol_cases:
  "ps_protocol (set_protocol cf pe a t s) = pr_inject \<Longrightarrow> pa_direction a = dir_OUT \<and> pa_comp_semantic a = cs_memory"
  "ps_protocol (set_protocol cf pe a t s) = pr_recv \<Longrightarrow> pa_direction a = dir_IN"
  "ps_protocol (set_protocol cf pe a t s) \<noteq> pr_none"
  by (auto simp: set_protocol_def Let_def split: if_splits)

lemma set_protocol_frame [simp]:
  "ps_internal_ctx (set_protocol cf pe a t s) = ps_internal_ctx s"
  "ps_user_provided_packet (set_protocol cf pe a t s) = ps_user_provided_packet s"
  "ps_comp_passed (set_protocol cf pe a t s) = ps_comp_passed s"
  "ps_rhandler (set_protocol cf pe a t s) = ps_rhandler s"
  "ps_packet (set_protocol cf pe a t s) = ps_packet s"
  by (simp_all add: set_protocol_def Let_def)

lemma resolve_rhandler_frame [simp]:
  "ps_internal_ctx (resolve_rhandler pe a t s) = ps_internal_ctx s"
  "ps_user_provided_packet (resolve_rhandler pe a t s) = ps_user_provided_packet s"
  "ps_comp_passed (resolve_rhandler pe a t s) = ps_comp_passed s"
  "ps_packet (resolve_rhandler pe a t s) = ps_packet s"
  by (simp_all add: resolve_rhandler_def Let_def)

lemma set_local_comp_frame [simp]:
  "ps_protocol (set_local_comp pe a s) = ps_protocol s" "ps_packet (set_local_comp pe a s) = ps_packet s"
  "ps_user_provided_packet (set_local_comp pe a s) = ps_user_provided_packet s"
  by (simp_all add: set_local_comp_def)

lemma set_status_frame [simp]:
  "ps_protocol (set_status a s) = ps_protocol s" "ps_packet (set_status a s) = ps_packet s"
  "ps_user_provided_packet (set_status a s) = ps_user_provided_packet s"
  by (simp_all add: set_status_def)

lemma set_immediate_data_frame:
  assumes "set_immediate_data cf a s = Inr s'"
  shows "ps_protocol s' = ps_protocol s \<and> ps_packet s' = ps_packet s
       \<and> ps_user_provided_packet s' = ps_user_provided_packet s"
  using assms unfolding set_immediate_data_def bindR_Inr_iff by auto

text \<open>Getting a packet changes memory and the local context of the packet, nothing else.\<close>

definition same_but_memory :: "world \<Rightarrow> world \<Rightarrow> bool" where
  "same_but_memory w w' \<longleftrightarrow> (\<exists>m p. w' = w\<lparr>w_mem := m, w_packets := p\<rparr>)"

lemma same_but_memoryD:
  assumes "same_but_memory w w'"
  shows "w_ctxs w' = w_ctxs w" "w_next w' = w_next w" "w_ep w' = w_ep w" "w_signals w' = w_signals w"
    "w_returned w' = w_returned w" "w_deregistered w' = w_deregistered w" "w_engines w' = w_engines w"
  using assms by (auto simp: same_but_memory_def)

lemma same_but_memory_refl [simp]: "same_but_memory w w"
  unfolding same_but_memory_def by (rule exI [of _ "w_mem w"], rule exI [of _ "w_packets w"]) simp

lemma build_packet_frame:
  assumes "build_packet cf pe a t s w = Inr (s', w')"
  shows "ps_protocol s' = ps_protocol s \<and> ps_packet s' = ps_packet s
       \<and> ps_user_provided_packet s' = ps_user_provided_packet s \<and> same_but_memory w w'"
proof -
  have m: "same_but_memory w (w\<lparr>w_mem := m\<rparr>)" "same_but_memory w (w\<lparr>w_mem := m, w_packets := p\<rparr>)"
      "same_but_memory w (w\<lparr>w_packets := p\<rparr>)" for m p
    unfolding same_but_memory_def
    by (rule exI [of _ m], rule exI [of _ "w_packets w"], simp,
        rule exI [of _ m], rule exI [of _ p], simp, rule exI [of _ "w_mem w"], rule exI [of _ p], simp)
  show ?thesis
    using assms m
    by (cases "ps_user_provided_packet s"; cases "ps_piggyback s")
      (auto simp: build_packet_def Let_def bind_assert split: if_splits)
qed

lemma set_packet_frame:
  assumes "set_packet_if_needed cf pe a t s w = Inr (e, s', w')" "\<not> ps_user_provided_packet s" "ps_packet s = 0"
  shows "e = ec_retry_nopacket \<and> pa_allow_retry a \<and> s' = s \<and> w' = w
       \<or> e = ec_done \<and> ps_protocol s' = ps_protocol s \<and> same_but_memory w w'
         \<and> (\<not> ps_user_provided_packet s' \<longrightarrow> ps_packet s' = 0 \<or> ps_packet s' = pe_packet pe)"
proof (cases "ps_protocol s = pr_eager_bcopy \<or> ps_protocol s = pr_rdv_zcopy")
  case False
  then show ?thesis using assms by (auto simp: set_packet_if_needed_def)
next
  case True
  let ?user = "ps_protocol s = pr_eager_bcopy \<and> pe_is_packet pe (pa_local_buffer a)"
  show ?thesis
  proof (cases "\<not> ?user \<and> pe_packet pe = 0")
    case none: True
    then show ?thesis using assms True by (auto simp: set_packet_if_needed_def bind_assert split: if_splits)
  next
    case got: False
    define s1 where "s1 = (if ?user then s\<lparr>ps_user_provided_packet := True, ps_packet := address2packet (pa_local_buffer a)\<rparr>
                   else s\<lparr>ps_packet := pe_packet pe\<rparr>)"
    have s1: "ps_protocol s1 = ps_protocol s" "\<not> ps_user_provided_packet s1 \<longrightarrow> ps_packet s1 = pe_packet pe"
      using assms(2) by (simp_all add: s1_def)
    have "set_packet_if_needed cf pe a t s w =
        (if ps_protocol s1 = pr_rdv_zcopy \<or> pa_direction a = dir_IN then Inr (ec_done, s1, w)
         else bindR (build_packet cf pe a t s1 w) (\<lambda>(s, w). Inr (ec_done, s, w)))"
      using True got by (auto simp: set_packet_if_needed_def s1_def Let_def)
    then have "if ps_protocol s1 = pr_rdv_zcopy \<or> pa_direction a = dir_IN then e = ec_done \<and> s' = s1 \<and> w' = w
        else e = ec_done \<and> build_packet cf pe a t s1 w = Inr (s', w')"
      using assms(1) by (auto simp: res_iff)
    then show ?thesis using s1 by (auto split: if_splits dest: build_packet_frame)
  qed
qed

text \<open>Splitting a post that returns: either the backlog or the packet pool ask for a retry before
  anything has happened, or the network operation was reached.\<close>

definition reached :: "config \<Rightarrow> backend \<Rightarrow> post_env \<Rightarrow> post_comm_args_t \<Rightarrow> post_comm_traits_t \<Rightarrow> world
    \<Rightarrow> errorcode_t \<Rightarrow> post_comm_state_t \<Rightarrow> world \<Rightarrow> bool" where
  "reached cf be pe a t w e s' w' \<longleftrightarrow> (\<exists>s0 w0 s1 w1 r.
     same_but_memory w w0 \<and> ps_protocol s0 = ps_protocol (set_protocol cf pe a t r)
     \<and> (\<not> ps_user_provided_packet s0 \<longrightarrow> ps_packet s0 = 0 \<or> ps_packet s0 = pe_packet pe)
     \<and> set_internal_ctx cf a s0 w0 = Inr (s1, w1) \<and> post_network_op cf be pe a t s1 w1 = Inr (e, s', w'))"

lemma post_comm_steps:
  assumes "post_comm cf be pe a w = Inr (st, w')"
  obtains (early) a1 t e s where "preprocess_args pe a = Inr a1" "validate_and_get_traits cf a1 = Inr t"
      "e \<in> {ec_retry_backlog, ec_retry_nopacket}" "pa_allow_retry a1" "exit_handler pe e a1 s w = Inr (st, w')"
      "ps_internal_ctx s = 0" "\<not> ps_user_provided_packet s"
    | (op) a1 t s2 w2 s3 s5 w5 e6 s6 w6 where "preprocess_args pe a = Inr a1" "validate_and_get_traits cf a1 = Inr t"
      "set_packet_if_needed cf pe a1 t (set_protocol cf pe a1 t (resolve_rhandler pe a1 t post_comm_state_init)) w = Inr (ec_done, s2, w2)"
      "set_immediate_data cf a1 s2 = Inr s3"
      "set_internal_ctx cf a1 (set_status a1 (set_local_comp pe a1 s3)) w2 = Inr (s5, w5)"
      "post_network_op cf be pe a1 t s5 w5 = Inr (e6, s6, w6)" "exit_handler pe e6 a1 s6 w6 = Inr (st, w')"
proof -
  obtain a1 t where a1: "preprocess_args pe a = Inr a1" and t: "validate_and_get_traits cf a1 = Inr t"
    using assms unfolding post_comm_def bindR_Inr_iff by blast
  define s where "s = set_protocol cf pe a1 t (resolve_rhandler pe a1 t post_comm_state_init)"
  have s0: "ps_internal_ctx s = 0" "\<not> ps_user_provided_packet s" "ps_packet s = 0"
    by (simp_all add: s_def post_comm_state_init_def)
  note run = assms [unfolded post_comm_def a1 bindR_simps t Let_def, folded s_def]
  obtain e where e: "check_backlog a1 s w = Inr e" using run unfolding bindR_Inr_iff by blast
  note run = run [unfolded e bindR_simps]
  show thesis
  proof (cases "is_done e")
    case False
    have "e = ec_retry_backlog" "pa_allow_retry a1"
      using e False by (auto simp: check_backlog_def bindR_Inr_iff ec_category split: if_splits)
    with False run show thesis by (intro early [OF a1 t _ _ _ s0(1,2), of e]) auto
  next
    case True
    obtain e2 s2 w2 where p: "set_packet_if_needed cf pe a1 t s w = Inr (e2, s2, w2)"
      using run True by (auto simp: bindR_Inr_iff)
    show thesis
    proof (cases "is_done e2")
      case False
      with set_packet_frame [OF p s0(2,3)] have "e2 = ec_retry_nopacket" "pa_allow_retry a1" "s2 = s" "w2 = w"
        by (auto simp: ec_category)
      with False True run p show thesis by (intro early [OF a1 t _ _ _ s0(1,2), of e2]) auto
    next
      case done2: True
      with set_packet_frame [OF p s0(2,3)] have e2: "e2 = ec_done" by (auto simp: ec_category)
      obtain s3 where s3: "set_immediate_data cf a1 s2 = Inr s3" using run True done2 p by (auto simp: bindR_Inr_iff)
      obtain s5 w5 e6 s6 w6 where net: "set_internal_ctx cf a1 (set_status a1 (set_local_comp pe a1 s3)) w2 = Inr (s5, w5)"
          "post_network_op cf be pe a1 t s5 w5 = Inr (e6, s6, w6)" "exit_handler pe e6 a1 s6 w6 = Inr (st, w')"
        using run True done2 p s3 by (auto simp: bindR_Inr_iff Let_def)
      show thesis by (rule op [OF a1 t p [unfolded e2 s_def] s3 net])
    qed
  qed
qed

lemma post_comm_cases:
  assumes "post_comm cf be pe a w = Inr (st, w')"
  obtains (early) a1 t e s where "preprocess_args pe a = Inr a1" "validate_and_get_traits cf a1 = Inr t"
      "e \<in> {ec_retry_backlog, ec_retry_nopacket}" "pa_allow_retry a1" "exit_handler pe e a1 s w = Inr (st, w')"
      "ps_internal_ctx s = 0" "\<not> ps_user_provided_packet s"
    | (op) a1 t e s2 w2 where "preprocess_args pe a = Inr a1" "validate_and_get_traits cf a1 = Inr t"
      "reached cf be pe a1 t w e s2 w2" "exit_handler pe e a1 s2 w2 = Inr (st, w')"
  using assms
proof (cases rule: post_comm_steps)
  case (op a1 t s2 w2 s3 s5 w5 e6 s6 w6)
  define r where "r = resolve_rhandler pe a1 t post_comm_state_init"
  have "ps_protocol s2 = ps_protocol (set_protocol cf pe a1 t r)" "same_but_memory w w2"
      "\<not> ps_user_provided_packet s2 \<longrightarrow> ps_packet s2 = 0 \<or> ps_packet s2 = pe_packet pe"
    using set_packet_frame [OF op(3)] by (auto simp: r_def post_comm_state_init_def)
  with set_immediate_data_frame [OF op(4)] op(5,6) have "reached cf be pe a1 t w e6 s6 w6"
    unfolding reached_def
    by (intro exI [of _ "set_status a1 (set_local_comp pe a1 s3)"] exI [of _ w2] exI [of _ s5] exI [of _ w5] exI [of _ r]) simp
  from that(2) [OF op(1,2) this op(7)] show thesis .
qed (rule that(1))

lemma exit_handler_run:
  assumes "exit_handler pe e a s w = Inr (st, w')"
  obtains w1 st1 w2 where "(if is_retry e then undo_ctx s w else Inr w) = Inr w1"
      "(st1, w2) = (if is_posted e \<and> \<not> pa_allow_posted a
         then (set_done (fst (pe_wait pe w1)), snd (pe_wait pe w1)) else ((ps_status s)\<lparr>st_error := e\<rparr>, w1))"
      "st = (if is_done (st_error st1) \<and> \<not> pa_allow_done a then set_posted st1 else st1)"
      "w' = (let w = (if \<not> pa_allow_posted a then w2\<lparr>w_freed_comps := w_freed_comps w2 @ [ps_local_comp s]\<rparr> else w2) in
         if is_done (st_error st1) \<and> \<not> pa_allow_done a then comp_signal (ps_local_comp s) st1 w else w)"
proof -
  obtain w1 where w1: "(if is_retry e then undo_ctx s w else Inr w) = Inr w1"
    using assms unfolding exit_handler_def Let_def bindR_Inr_iff by blast
  define st1 where "st1 = (if is_posted e \<and> \<not> pa_allow_posted a then set_done (fst (pe_wait pe w1)) else (ps_status s)\<lparr>st_error := e\<rparr>)"
  define w2 where "w2 = (if is_posted e \<and> \<not> pa_allow_posted a then snd (pe_wait pe w1) else w1)"
  have eq: "(let (st, w) = pe_wait pe w1 in (set_done st, w)) = (set_done (fst (pe_wait pe w1)), snd (pe_wait pe w1))"
    by (simp add: split_beta)
  have pr: "(if is_posted e \<and> \<not> pa_allow_posted a then (set_done (fst (pe_wait pe w1)), snd (pe_wait pe w1))
      else ((ps_status s)\<lparr>st_error := e\<rparr>, w1)) = (st1, w2)" by (simp add: st1_def w2_def)
  have "(let w = (if \<not> pa_allow_posted a then w2\<lparr>w_freed_comps := w_freed_comps w2 @ [ps_local_comp s]\<rparr> else w2) in
      if is_done (st_error st1) \<and> \<not> pa_allow_done a then (set_posted st1, comp_signal (ps_local_comp s) st1 w)
      else (st1, w)) = (st, w')"
    using assms unfolding exit_handler_def bind_assert Let_def w1 bindR_simps eq [unfolded Let_def] pr prod.case
    by (auto split: if_splits)
  then show thesis using w1 pr by (intro that [OF w1 pr [symmetric]]) (auto simp: Let_def split: if_splits)
qed

lemma exit_handler_status:
  assumes "exit_handler pe e a s w = Inr (st, w')" "pa_allow_posted a \<or> pa_allow_done a"
    and "is_retry e \<or> is_done e \<or> is_posted e"
  shows "(is_done (st_error st) \<longrightarrow> pa_allow_done a) \<and> (is_posted (st_error st) \<longrightarrow> pa_allow_posted a)
       \<and> (is_retry (st_error st) \<longrightarrow> is_retry e) \<and> (is_retry (st_error st) \<or> is_done (st_error st) \<or> is_posted (st_error st))"
  using assms(1)
proof (rule exit_handler_run)
  fix w1 st1 w2
  assume st: "(st1, w2) = (if is_posted e \<and> \<not> pa_allow_posted a
         then (set_done (fst (pe_wait pe w1)), snd (pe_wait pe w1)) else ((ps_status s)\<lparr>st_error := e\<rparr>, w1))"
      "st = (if is_done (st_error st1) \<and> \<not> pa_allow_done a then set_posted st1 else st1)"
  then have "st_error st1 = (if is_posted e \<and> \<not> pa_allow_posted a then ec_done else e)"
    by (auto simp: set_done_def split: if_splits)
  with st(2) assms(2,3) show ?thesis by (auto simp: set_posted_def ec_category split: if_splits)
qed

lemma do_recv_category:
  assumes "do_recv cf be a s w = Inr (e, s', w')"
  shows "(is_done e \<or> is_posted e) \<and> ps_protocol s' = ps_protocol s"
proof -
  obtain key ret w1 where key: "make_key (pa_rank a) (pa_tag a) (recv_policy a) = Inr key"
      and ins: "engine_insert (pa_matching_engine a) key (ps_internal_ctx s) it_recv w = (ret, w1)"
    using assms unfolding do_recv_def bindR_Inr_iff by (metis surj_pair)
  show ?thesis
  proof (cases "ret = 0")
    case True
    with assms key ins show ?thesis by (auto simp add: do_recv_def ec_category)
  next
    case False
    obtain st w2 where m: "handle_matched_sendrecv cf be ret (ps_internal_ctx s) (Some (ps_status s)) w1 = Inr (st, w2)"
        and e: "e = st_error (case st of Some st \<Rightarrow> st | None \<Rightarrow> ps_status s)" "ps_protocol s' = ps_protocol s"
      using assms key ins False unfolding do_recv_def by (auto simp: Let_def bindR_Inr_iff)
    have "\<exists>st'. st = Some st' \<and> (is_done (st_error st') \<or> is_posted (st_error st'))"
    proof (cases "pc_is_eager (w_packets w1 ret)")
      case True
      with m show ?thesis
        unfolding handle_matched_sendrecv_def by (auto simp: Let_def bindR_Inr_iff set_done_def ec_category)
    next
      case False
      with m show ?thesis
        unfolding handle_matched_sendrecv_def by (auto simp: bindR_Inr_iff set_posted_def ec_category)
    qed
    with e show ?thesis by auto
  qed
qed

text \<open>The context of the operation is new; it counts as a pending operation and holds the packet.\<close>

lemma set_internal_ctx_spec:
  assumes "set_internal_ctx cf a s w = Inr (s1, w1)"
  obtains c where "w1 = w\<lparr>w_ep := add_pending_ops 1 (w_ep w), w_ctxs := (w_ctxs w)(w_next w \<mapsto> Simple c), w_next := w_next w + 1\<rparr>"
      "ps_internal_ctx s1 = w_next w" "ps_protocol s1 = ps_protocol s" "ps_packet s1 = ps_packet s"
      "ps_user_provided_packet s1 = ps_user_provided_packet s" "ps_local_comp s1 = ps_local_comp s"
      "ps_rhandler s1 = ps_rhandler s" "ps_imm_data s1 = ps_imm_data s" "ps_status s1 = ps_status s"
      "ps_packet_size_to_send s1 = ps_packet_size_to_send s"
      "ps_comp_passed s1 \<longleftrightarrow> ps_protocol s = pr_eager_zcopy \<or> ps_protocol s = pr_rdv_zcopy
                  \<or> pa_comp_semantic a = cs_network \<or> pa_direction a = dir_IN"
      "ps_comp_passed s1 \<Longrightarrow> ps_local_comp s \<noteq> 0"
      "ic_is_user_posted_op c" "ic_packet_to_free c = ps_packet s" "ic_rank c = pa_rank a" "ic_tag c = pa_tag a"
      "ic_user_context c = pa_user_context a" "ic_buffer c = pa_local_buffer a" "ic_size c = pa_size a"
      "ic_comp c = (if ps_comp_passed s1 then ps_local_comp s else 0)"
      "ic_mr_on_the_fly c \<longleftrightarrow> ps_protocol s = pr_eager_zcopy \<and> mr_is_empty (pa_mr a)"
      "\<not> ic_mr_on_the_fly c \<Longrightarrow> ic_mr c = 0"
proof -
  let ?pass = "ps_protocol s = pr_eager_zcopy \<or> ps_protocol s = pr_rdv_zcopy
                  \<or> pa_comp_semantic a = cs_network \<or> pa_direction a = dir_IN"
  let ?reg = "ps_protocol s = pr_eager_zcopy \<and> mr_is_empty (pa_mr a)"
  define c0 where "c0 = new_internal_context\<lparr>ic_is_user_posted_op := True, ic_rank := pa_rank a, ic_tag := pa_tag a,
    ic_user_context := pa_user_context a, ic_buffer := pa_local_buffer a, ic_size := pa_size a, ic_packet_to_free := ps_packet s,
    ic_comp := (if ?pass then ps_local_comp s else 0)\<rparr>"
  define c where "c = (if ?reg then set_mr_on_the_fly (cf_register cf (pa_local_buffer a) (pa_size a)) c0 else c0)"
  have cond: "?pass \<Longrightarrow> ps_local_comp s \<noteq> 0"
    using assms by (auto simp: set_internal_ctx_def Let_def set_user_posted_op_def bind_assert split: if_splits)
  have "set_internal_ctx cf a s w = Inr (s\<lparr>ps_internal_ctx := w_next w, ps_comp_passed := ?pass,
        ps_mr := (if ?reg then cf_register cf (pa_local_buffer a) (pa_size a) else pa_mr a)\<rparr>,
      w\<lparr>w_ep := add_pending_ops 1 (w_ep w), w_ctxs := (w_ctxs w)(w_next w \<mapsto> Simple c), w_next := w_next w + 1\<rparr>)"
    using cond unfolding c_def c0_def
    by (simp add: set_internal_ctx_def Let_def set_user_posted_op_def bind_assert new_ctx_def new_internal_context_def)
  then have eq: "s1 = s\<lparr>ps_internal_ctx := w_next w, ps_comp_passed := ?pass,
        ps_mr := (if ?reg then cf_register cf (pa_local_buffer a) (pa_size a) else pa_mr a)\<rparr>"
      "w1 = w\<lparr>w_ep := add_pending_ops 1 (w_ep w), w_ctxs := (w_ctxs w)(w_next w \<mapsto> Simple c), w_next := w_next w + 1\<rparr>"
    using assms by simp_all
  have c: "ic_is_user_posted_op c" "ic_packet_to_free c = ps_packet s" "ic_rank c = pa_rank a" "ic_tag c = pa_tag a"
      "ic_user_context c = pa_user_context a" "ic_buffer c = pa_local_buffer a" "ic_size c = pa_size a"
      "ic_comp c = (if ?pass then ps_local_comp s else 0)" "ic_mr_on_the_fly c \<longleftrightarrow> ?reg" "\<not> ?reg \<Longrightarrow> ic_mr c = 0"
    by (auto simp: c_def c0_def set_mr_on_the_fly_def new_internal_context_def)
  have p: "ps_comp_passed s1 \<longleftrightarrow> ?pass" by (simp add: eq(1))
  show thesis
    by (rule that [OF eq(2)]) (use c p cond in \<open>auto simp: eq(1)\<close>)
qed

lemma ep_ok_pending: "ep_ok r w \<Longrightarrow> w_ep w' = add_pending_ops n (w_ep w) \<Longrightarrow> ep_ok r w'"
  by (simp add: ep_ok_def add_pending_ops_def ep_inv_def rank_ok_def)

lemma reached_category:
  assumes "net_backend be" "reached cf be pe a t w e s' w'" "ep_ok (pa_rank a) w" "shm_ok pe a"
  shows "(is_retry e \<longrightarrow> pa_allow_retry a) \<and> (is_retry e \<or> is_done e \<or> is_posted e)"
proof -
  obtain s0 w0 s1 w1 r where w0: "same_but_memory w w0" and pr: "ps_protocol s0 = ps_protocol (set_protocol cf pe a t r)"
      and ctx: "set_internal_ctx cf a s0 w0 = Inr (s1, w1)" and op: "post_network_op cf be pe a t s1 w1 = Inr (e, s', w')"
    using assms(2) unfolding reached_def by blast
  have s1: "ps_protocol s1 = ps_protocol s0" and w1: "w_ep w1 = add_pending_ops 1 (w_ep w)"
    using ctx by (auto elim!: set_internal_ctx_spec simp: same_but_memoryD [OF w0])
  show ?thesis
  proof (cases "pa_direction a = dir_IN \<and> ps_protocol s1 = pr_recv")
    case True
    with op have "do_recv cf be a s1 w1 = Inr (e, s', w')" by (simp add: post_network_op_def)
    from do_recv_category [OF this] show ?thesis by (auto simp: ec_category)
  next
    case False
    then have "pa_direction a = dir_OUT \<or> ps_protocol s1 \<noteq> pr_recv" by (cases "pa_direction a") auto
    from net_backend.post_network_op_spec [OF assms(1) op ep_ok_pending [OF assms(3) w1] assms(4) this]
    show ?thesis by (auto simp: ec_category)
  qed
qed

lemma preprocess_flags:
  assumes "preprocess_args pe a = Inr a1"
  shows "pa_allow_done a1 = pa_allow_done a" "pa_rank a1 = pa_rank a"
    "pa_allow_retry a1 \<longleftrightarrow> pa_allow_retry a \<and> pa_local_comp a \<noteq> COMP_NULL"
    "pa_allow_posted a1 \<longleftrightarrow> pa_allow_posted a \<and> pa_local_comp a \<notin> {COMP_NULL, COMP_NULL_RETRY}"
  using assms by (auto simp: preprocess_args_def Let_def split: if_splits option.splits bool.splits)

lemma validate_allows:
  assumes "validate_and_get_traits cf a = Inr t"
  shows "pa_allow_posted a \<or> pa_allow_done a"
  using assms by (auto simp: validate_and_get_traits_def Let_def bind_assert split: if_splits)

text \<open>Deleting the context of a post that is to be retried.\<close>

lemma undo_ctx_spec:
  assumes "w_ctxs w (ps_internal_ctx s) = Some (Simple c)" "ps_internal_ctx s \<noteq> 0"
  shows "undo_ctx s w = Inr (ctx_destructor (if ps_user_provided_packet s then c\<lparr>ic_packet_to_free := 0\<rparr> else c)
           (w\<lparr>w_ctxs := (w_ctxs w)(ps_internal_ctx s := None)\<rparr>))"
  using assms by (simp add: undo_ctx_def get_ctx_def Let_def delete_ctx_def set_ctx_def)

definition as_before :: "post_env \<Rightarrow> world \<Rightarrow> world \<Rightarrow> bool" where
  "as_before pe w w' \<longleftrightarrow> w_ctxs w' = w_ctxs w \<and> w_signals w' = w_signals w \<and> w_engines w' = w_engines w
     \<and> (\<forall>r. w_sent r w' = w_sent r w) \<and> ep_pending_ops (w_ep w') = ep_pending_ops (w_ep w)
     \<and> (w_returned w' = w_returned w \<or> w_returned w' = w_returned w @ [pe_packet pe])"

lemma reached_retry:
  assumes "net_backend be" "reached cf be pe a t w e s2 w2" "ep_ok (pa_rank a) w" "shm_ok pe a" "heap_ok w" "is_retry e"
  shows "\<exists>w3. undo_ctx s2 w2 = Inr w3 \<and> as_before pe w w3"
proof -
  obtain s0 w0 s1 w1 r where w0: "same_but_memory w w0"
      and pk: "\<not> ps_user_provided_packet s0 \<longrightarrow> ps_packet s0 = 0 \<or> ps_packet s0 = pe_packet pe"
      and ctx: "set_internal_ctx cf a s0 w0 = Inr (s1, w1)" and op: "post_network_op cf be pe a t s1 w1 = Inr (e, s2, w2)"
    using assms(2) unfolding reached_def by blast
  note w0d = same_but_memoryD [OF w0]
  from ctx obtain c where w1: "w1 = w0\<lparr>w_ep := add_pending_ops 1 (w_ep w0), w_ctxs := (w_ctxs w0)(w_next w0 \<mapsto> Simple c), w_next := w_next w0 + 1\<rparr>"
      and s1': "ps_internal_ctx s1 = w_next w0" "ps_packet s1 = ps_packet s0" "ps_user_provided_packet s1 = ps_user_provided_packet s0"
      and c: "ic_is_user_posted_op c" "ic_packet_to_free c = ps_packet s0"
    by (rule set_internal_ctx_spec) (rule that)
  note s1 = s1' [unfolded w0d]
  have "pa_direction a = dir_OUT \<or> ps_protocol s1 \<noteq> pr_recv"
  proof (rule ccontr)
    assume "\<not> ?thesis"
    with op have "do_recv cf be a s1 w1 = Inr (e, s2, w2)" by (simp add: post_network_op_def)
    from do_recv_category [OF this] assms(6) show False by (auto simp: ec_category)
  qed
  moreover have "ep_ok (pa_rank a) w1" using assms(3) by (rule ep_ok_pending) (simp add: w1 w0d)
  ultimately have s2: "s2 = s1" and tr: "no_trace w1 w2"
    using net_backend.post_network_op_spec [OF assms(1) op _ assms(4)] assms(6) by (auto simp: ec_category)
  have new: "w_next w \<noteq> 0" "w_ctxs w (w_next w) = None"
    using assms(5) by (auto simp: heap_ok_def)
  have "w_ctxs w2 (ps_internal_ctx s2) = Some (Simple c)"
    using tr by (simp add: no_trace_def s2 s1 w1 w0d)
  from undo_ctx_spec [OF this] new(1) have "undo_ctx s2 w2 = Inr (ctx_destructor
      (if ps_user_provided_packet s0 then c\<lparr>ic_packet_to_free := 0\<rparr> else c) (w2\<lparr>w_ctxs := (w_ctxs w2)(w_next w := None)\<rparr>))"
    by (simp add: s2 s1)
  moreover have "(w_ctxs w)(w_next w := None) = w_ctxs w" using new(2) by auto
  ultimately show ?thesis
    using tr c pk by (auto simp: as_before_def no_trace_def w1 w0d ep_sent_def add_pending_ops_def)
qed

text \<open>C14.  A post answers with a category that its caller allows: never with a retry when retries are
  not allowed or the completion object is null, never with posted when it has to wait for the
  completion, never with done when the completion has to be signalled; and it always answers with
  one of the three.\<close>

theorem post_status_contract:
  assumes "net_backend be" "ep_ok (pa_rank a) w" "shm_ok pe (a\<lparr>pa_allow_retry := pa_allow_retry a \<and> pa_local_comp a \<noteq> COMP_NULL\<rparr>)"
    and "post_comm cf be pe a w = Inr (st, w')"
  shows "(is_retry (st_error st) \<longrightarrow> pa_allow_retry a \<and> pa_local_comp a \<noteq> COMP_NULL)
       \<and> (is_posted (st_error st) \<longrightarrow> pa_allow_posted a \<and> pa_local_comp a \<notin> {COMP_NULL, COMP_NULL_RETRY})
       \<and> (is_done (st_error st) \<longrightarrow> pa_allow_done a)
       \<and> (is_retry (st_error st) \<or> is_posted (st_error st) \<or> is_done (st_error st))"
  using assms(4)
proof (cases rule: post_comm_cases)
  case (early a1 t e s)
  have "is_retry e" using early(3) by (auto simp: ec_category)
  with exit_handler_status [OF early(5) validate_allows [OF early(2)]] early(4) preprocess_flags [OF early(1)]
  show ?thesis by blast
next
  case (op a1 t e s2 w2)
  note f = preprocess_flags [OF op(1)]
  have "shm_ok pe a1" "ep_ok (pa_rank a1) w" using assms(2,3) f by (simp_all add: shm_ok_def)
  with reached_category [OF assms(1) op(3)] exit_handler_status [OF op(4) validate_allows [OF op(2)]] f
  show ?thesis by blast
qed

theorem post_status_contract_witness:
  "\<exists>st w'. post_comm config_new always_accept env_new (put_args 1) (world_new 2) = Inr (st, w') \<and> is_done (st_error st)
     \<and> pa_allow_done (put_args 1)"
proof -
  obtain st w' where run: "post_comm config_new always_accept env_new (put_args 1) (world_new 2) = Inr (st, w')"
      and d: "is_done (st_error st)"
    by (simp add: post_eval example_defs do_inject_def post_puts_def mk_puts_def)
  have "ep_ok (pa_rank (put_args 1)) (world_new 2)" by (rule world_new_ok) (simp_all add: put_args_def)
  from post_status_contract [OF always_accept_backend this env_new_shm run] run d show ?thesis by blast
qed



text \<open>C22.  The internal assertions of \<^verbatim>\<open>exit_handler\<close> hold: whatever protocol was chosen and whatever
  the network answers, a completion object has been passed to the network exactly if the operation is
  posted; and the handler then ends without touching a context that is gone.\<close>

theorem exit_assertions_hold:
  assumes "net_backend be" "ep_ok (pa_rank a) w" "shm_ok pe a" "heap_ok w"
    and "ps_protocol s = ps_protocol (set_protocol cf pe a t r)"
    and "set_internal_ctx cf a s w = Inr (s1, w1)" "post_network_op cf be pe a t s1 w1 = Inr (e, s2, w2)"
  shows "\<exists>out. exit_handler pe e a s2 w2 = Inr out"
proof -
  from assms(6) obtain c where w1: "w1 = w\<lparr>w_ep := add_pending_ops 1 (w_ep w), w_ctxs := (w_ctxs w)(w_next w \<mapsto> Simple c), w_next := w_next w + 1\<rparr>"
      and s1: "ps_internal_ctx s1 = w_next w" "ps_protocol s1 = ps_protocol s"
      and pass: "ps_comp_passed s1 \<longleftrightarrow> ps_protocol s = pr_eager_zcopy \<or> ps_protocol s = pr_rdv_zcopy
                  \<or> pa_comp_semantic a = cs_network \<or> pa_direction a = dir_IN"
    by (rule set_internal_ctx_spec) (rule that)
  have ep: "ep_ok (pa_rank a) w1" using assms(2) by (rule ep_ok_pending) (simp add: w1)
  note pc = set_protocol_cases [of cf pe a t r, folded assms(5)]
  have ends: "\<exists>out. exit_handler pe e a s2 w2 = Inr out"
    if "ps_protocol s2 = pr_recv \<or> \<not> is_done e \<or> \<not> ps_comp_passed s2" "ps_protocol s2 = pr_recv \<or> \<not> is_posted e \<or> ps_comp_passed s2"
      "is_retry e \<Longrightarrow> \<exists>w3. undo_ctx s2 w2 = Inr w3"
    using that by (cases "is_retry e") (auto simp: exit_handler_def bind_assert Let_def split_beta)
  show ?thesis
  proof (cases "pa_direction a = dir_IN \<and> ps_protocol s1 = pr_recv")
    case True
    with assms(7) have r: "do_recv cf be a s1 w1 = Inr (e, s2, w2)" by (simp add: post_network_op_def)
    have "ps_protocol s2 = pr_recv" using do_recv_category [OF r] True by simp
    moreover have "\<not> is_retry e" using do_recv_category [OF r] by (auto simp: ec_category)
    ultimately show ?thesis by (intro ends) auto
  next
    case False
    then have "pa_direction a = dir_OUT \<or> ps_protocol s1 \<noteq> pr_recv" by (cases "pa_direction a") auto
    note sp = net_backend.post_network_op_spec [OF assms(1,7) ep assms(3) this]
    have undo: "\<exists>w3. undo_ctx s2 w2 = Inr w3" if "is_retry e"
    proof -
      have "s2 = s1" "no_trace w1 w2" using sp that by (auto simp: ec_category)
      then have "w_ctxs w2 (ps_internal_ctx s2) = Some (Simple c)" "ps_internal_ctx s2 \<noteq> 0"
        using assms(4) by (auto simp: no_trace_def w1 s1 heap_ok_def)
      from undo_ctx_spec [OF this] show ?thesis by blast
    qed
    consider "is_retry e" | "is_done e" "\<not> ps_comp_passed s2" | "is_posted e" "ps_comp_passed s2"
      using sp pass pc s1(2) by (cases "ps_protocol s"; cases "pa_direction a"; cases "pa_comp_semantic a") auto
    moreover have "\<not> (is_retry e \<and> is_done e)" "\<not> (is_retry e \<and> is_posted e)" "\<not> (is_done e \<and> is_posted e)"
      by (auto simp: ec_category)
    ultimately show ?thesis using undo by (intro ends) blast+
  qed
qed

theorem exit_assertions_hold_witness:
  "\<exists>e s2 w2 out. post_network_op config_new always_accept env_new (put_args 1)
       \<lparr>pt_local_buffer_only = False, pt_local_comp_only = True, pt_is_recv = False, pt_max_inject_size = 64, pt_max_bcopy_size = 8140\<rparr>
       (post_comm_state_init\<lparr>ps_protocol := pr_inject, ps_internal_ctx := 4096\<rparr>)
       (snd (new_ctx (Simple (new_internal_context\<lparr>ic_is_user_posted_op := True, ic_rank := 1, ic_buffer := 100, ic_size := 1\<rparr>))
         ((world_new 2)\<lparr>w_ep := add_pending_ops 1 (w_ep (world_new 2))\<rparr>)))
     = Inr (e, s2, w2) \<and> exit_handler env_new e (put_args 1) s2 w2 = Inr out"
proof -
  let ?a = "put_args 1" and ?w = "world_new 2"
  let ?t = "\<lparr>pt_local_buffer_only = False, pt_local_comp_only = True, pt_is_recv = False, pt_max_inject_size = 64, pt_max_bcopy_size = 8140\<rparr>"
  let ?s = "post_comm_state_init\<lparr>ps_protocol := pr_inject\<rparr>"
  let ?s1 = "post_comm_state_init\<lparr>ps_protocol := pr_inject, ps_internal_ctx := 4096\<rparr>"
  let ?w1 = "snd (new_ctx (Simple (new_internal_context\<lparr>ic_is_user_posted_op := True, ic_rank := 1, ic_buffer := 100, ic_size := 1\<rparr>))
         (?w\<lparr>w_ep := add_pending_ops 1 (w_ep ?w)\<rparr>))"
  have pr: "ps_protocol ?s = ps_protocol (set_protocol config_new env_new ?a ?t post_comm_state_init)"
    and ctx: "set_internal_ctx config_new ?a ?s ?w = Inr (?s1, ?w1)"
    by (simp_all add: post_eval example_defs new_internal_context_def)
  obtain e s2 w2 where op: "post_network_op config_new always_accept env_new ?a ?t ?s1 ?w1 = Inr (e, s2, w2)"
    by (simp add: post_eval example_defs do_inject_def post_puts_def mk_puts_def)
  have "ep_ok (pa_rank ?a) ?w" by (rule world_new_ok) (simp_all add: put_args_def)
  from exit_assertions_hold [OF always_accept_backend this env_new_shm world_new_ok(1) pr ctx op] op show ?thesis by blast
qed

end
