(* ===== verification/LCI_Transfer.thy ===== *)
theory LCI_Transfer
  imports LCI_Post_Spec
begin

text \<open>
  Transfers from one process to another: what one process posts, delivered by a reliable network,
  is what the progress engine of the other turns into a completion.  The theory covers the eager
  protocol: inject and buffer copy, with the metadata in the immediate data or behind the payload.
\<close>

section \<open>A reliable network\<close>

text \<open>The bytes a request carries, taken from the memory of the process that posted it; the completion
  of its receive; and the packet of the receiver with these bytes.\<close>

definition req_bytes :: "(addr \<Rightarrow> u8) \<Rightarrow> net_req \<Rightarrow> u8 list" where
  "req_bytes m rq = (case rq_buf rq of Bytes bs \<Rightarrow> bs | At a \<Rightarrow> read_bytes m a (rq_size rq))"

definition recv_completion :: "int \<Rightarrow> net_req \<Rightarrow> addr \<Rightarrow> net_status_t" where
  "recv_completion src rq packet = \<lparr>ns_opcode = net_RECV, ns_rank = src, ns_user_context = packet,
     ns_length = rq_size rq, ns_imm_data = rq_imm rq\<rparr>"

definition with_payload :: "addr \<Rightarrow> u8 list \<Rightarrow> world \<Rightarrow> world" where
  "with_payload packet bs w = w\<lparr>w_mem := write_bytes (w_mem w) (get_payload_address packet) bs\<rparr>"

lemma with_payload_simps [simp]:
  "w_ctxs (with_payload p bs w) = w_ctxs w" "w_packets (with_payload p bs w) = w_packets w"
  "w_registry (with_payload p bs w) = w_registry w" "w_signals (with_payload p bs w) = w_signals w"
  "w_returned (with_payload p bs w) = w_returned w" "w_ep (with_payload p bs w) = w_ep w"
  "w_engines (with_payload p bs w) = w_engines w" "w_archive (with_payload p bs w) = w_archive w"
  "w_next (with_payload p bs w) = w_next w"
  "w_mem (with_payload p bs w) = write_bytes (w_mem w) (get_payload_address p) bs"
  by (simp_all add: with_payload_def)

section \<open>The eager protocol\<close>

text \<open>The widths of the immediate data that the runtime configures: \<^verbatim>\<open>max_imm_tag\<close> and \<^verbatim>\<open>max_imm_rcomp\<close>
  are the largest values of fields that fit where the receiver reads them.\<close>

definition imm_widths_ok :: "config \<Rightarrow> bool" where
  "imm_widths_ok cf \<longleftrightarrow> 0 \<le> cf_imm_nbits_tag cf \<and> cf_imm_nbits_tag cf \<le> 16
     \<and> 0 \<le> cf_imm_nbits_rcomp cf \<and> cf_imm_nbits_rcomp cf \<le> 15
     \<and> cf_max_imm_tag cf = mask (nat (cf_imm_nbits_tag cf)) \<and> cf_max_imm_rcomp cf = mask (nat (cf_imm_nbits_rcomp cf))"

text \<open>The two encodings of an eager message.\<close>

definition eager_encodes :: "config \<Rightarrow> tag_t \<Rightarrow> rcomp_t \<Rightarrow> u8 list \<Rightarrow> net_imm_data_t \<Rightarrow> u8 list \<Rightarrow> bool" where
  "eager_encodes cf tag rh data imm bs \<longleftrightarrow>
     (if tag \<le> cf_max_imm_tag cf \<and> rh \<le> cf_max_imm_rcomp cf
      then encode_fastpath (cf_imm_nbits_tag cf) (cf_imm_nbits_rcomp cf) tag rh = Inr imm \<and> bs = data
      else imm = 0 \<and> bs = data @ le_bytes 8 (unat tag) @ le_bytes 4 (unat rh))"

lemma decode_imm_0: "decode_imm 0 = Inr (Imm_typed IMM_DATA_MSG_EAGER)"
  by (simp add: decode_imm_def get_bits32_0 msg_type_of_def)

lemma read_append_tail:
  "length xs = n \<Longrightarrow> length ys = k \<Longrightarrow> read_bytes (write_bytes m a (xs @ ys @ zs)) (a + n) k = ys"
  by (rule nth_equalityI) (auto simp: read_bytes_def write_bytes_def nth_append)

lemma read_append_head: "length xs = n \<Longrightarrow> read_bytes (write_bytes m a (xs @ ys)) a n = xs"
  using read_append_tail [of "[]" 0 xs n m a ys] by simp

lemma eager_decodes:
  assumes "imm_widths_ok cf" "eager_encodes cf tag rh data imm bs"
  shows "decode_message \<lparr>ns_opcode = net_RECV, ns_rank = src, ns_user_context = pk, ns_length = length bs, ns_imm_data = imm\<rparr> pk
           (with_payload pk bs w) = Inr (IMM_DATA_MSG_EAGER, length data, tag, rh)
       \<and> read_bytes (w_mem (with_payload pk bs w)) (get_payload_address pk) (length data) = data"
proof (cases "tag \<le> cf_max_imm_tag cf \<and> rh \<le> cf_max_imm_rcomp cf")
  case True
  with assms have "encode_fastpath (cf_imm_nbits_tag cf) (cf_imm_nbits_rcomp cf) tag rh = Inr imm" "bs = data"
    by (auto simp: eager_encodes_def)
  moreover have "bindR (encode_fastpath (cf_imm_nbits_tag cf) (cf_imm_nbits_rcomp cf) tag rh) decode_imm
      = Inr (Imm_fastpath tag rh)"
    using assms(1) True by (intro encode_fastpath_decode) (auto simp: imm_widths_ok_def)
  ultimately show ?thesis by (simp add: decode_message_def)
next
  case False
  with assms have bs: "imm = 0" "bs = data @ le_bytes 8 (unat tag) @ le_bytes 4 (unat rh)"
    by (auto simp: eager_encodes_def)
  let ?m = "w_mem (with_payload pk bs w)" and ?pl = "get_payload_address pk"
  have "load ?m (?pl + length data) 8 = unat tag"
    unfolding load_def bs by (simp add: read_append_tail)
  moreover have "load ?m (?pl + (8 + length data)) 4 = unat rh"
    using read_append_tail [of "data @ le_bytes 8 (unat tag)" "8 + length data" "le_bytes 4 (unat rh)" 4 "w_mem w" ?pl "[]"]
    unfolding load_def bs by simp
  ultimately show ?thesis
    by (simp add: decode_message_def decode_imm_0 bs Let_def read_append_head add.assoc)
qed

text \<open>An eager send: not a receive, a local buffer in host memory, small enough for a packet with its
  metadata.  The caller takes any answer, and the peer is reached over the network.\<close>

definition eager_args :: "config \<Rightarrow> post_env \<Rightarrow> post_comm_args_t \<Rightarrow> bool" where
  "eager_args cf pe a \<longleftrightarrow> pa_direction a = dir_OUT \<and> pa_rmr a = rmr_empty \<and> pa_mr a = MR_HOST \<and> \<not> pe_accelerator pe
     \<and> pa_size a + 12 \<le> get_max_bcopy_size cf \<and> pa_allow_posted a \<and> pa_local_comp a \<notin> {COMP_NULL, COMP_NULL_RETRY}
     \<and> pe_shm pe = None \<and> \<not> pe_is_packet pe (pa_local_buffer a)"

definition rhandler_of :: "post_env \<Rightarrow> post_comm_args_t \<Rightarrow> rcomp_t" where
  "rhandler_of pe a = (if pa_remote_comp a = 0 \<and> pa_matching_engine a \<noteq> 0
     then get_rhandler (pe_engine_base pe (pa_matching_engine a)) (pa_matching_policy a) else pa_remote_comp a)"

lemma eager_preprocess: "eager_args cf pe a \<Longrightarrow> preprocess_args pe a = Inr a"
  by (simp add: preprocess_args_def eager_args_def Let_def)

lemma eager_traits:
  assumes "eager_args cf pe a" "validate_and_get_traits cf a = Inr t"
  shows "pt_local_buffer_only t" "pt_max_bcopy_size t = get_max_bcopy_size cf"
  using assms by (auto simp: validate_and_get_traits_def eager_args_def Let_def bind_assert split: if_splits)

lemma eager_protocol:
  assumes "eager_args cf pe a" "pt_local_buffer_only t" "pt_max_bcopy_size t = get_max_bcopy_size cf"
    and "s = set_protocol cf pe a t (resolve_rhandler pe a t post_comm_state_init)"
  shows "ps_rhandler s = rhandler_of pe a"
    and "ps_protocol s = pr_inject \<or> ps_protocol s = pr_eager_bcopy"
    and "ps_piggyback s \<longleftrightarrow> rhandler_of pe a \<noteq> 0 \<and> (cf_max_imm_tag cf < pa_tag a \<or> cf_max_imm_rcomp cf < rhandler_of pe a)"
    and "ps_protocol s = pr_inject \<longrightarrow> \<not> ps_piggyback s"
proof -
  let ?r = "resolve_rhandler pe a t post_comm_state_init"
  have r: "ps_rhandler ?r = rhandler_of pe a" "\<not> ps_piggyback ?r"
    using assms(2) by (simp_all add: resolve_rhandler_def rhandler_of_def Let_def post_comm_state_init_def)
  have meta: "eager_payload_needs_metadata cf a ?r
      \<longleftrightarrow> rhandler_of pe a \<noteq> 0 \<and> (cf_max_imm_tag cf < pa_tag a \<or> cf_max_imm_rcomp cf < rhandler_of pe a)"
    using assms(1) by (simp add: eager_payload_needs_metadata_def r eager_args_def)
  have small: "\<not> get_max_bcopy_size cf < pa_size a + 12" "\<not> get_max_bcopy_size cf < pa_size a"
      "pa_size a + 12 \<le> get_max_bcopy_size cf" "pa_size a \<le> get_max_bcopy_size cf"
    using assms(1) by (auto simp: eager_args_def)
  have env: "pa_direction a = dir_OUT" "\<not> pe_accelerator pe" "pa_mr a = 0" "mr_is_empty 0" "\<not> mr_may_be_device_memory pe 0"
    using assms(1) by (simp_all add: eager_args_def MR_HOST_def mr_is_empty_def mr_may_be_device_memory_def MR_DEVICE_def MR_UNKNOWN_def)
  show "ps_rhandler s = rhandler_of pe a" by (simp add: assms(4) r)
  show "ps_protocol s = pr_inject \<or> ps_protocol s = pr_eager_bcopy"
    and "ps_piggyback s \<longleftrightarrow> rhandler_of pe a \<noteq> 0 \<and> (cf_max_imm_tag cf < pa_tag a \<or> cf_max_imm_rcomp cf < rhandler_of pe a)"
    and "ps_protocol s = pr_inject \<longrightarrow> \<not> ps_piggyback s"
    unfolding assms(4) set_protocol_def Let_def meta [symmetric] assms(3)
    using small env r(2) by (auto split: if_splits)
qed

text \<open>The payload of the packet and its length.\<close>

definition packet_bytes :: "post_comm_args_t \<Rightarrow> post_comm_state_t \<Rightarrow> (addr \<Rightarrow> u8) \<Rightarrow> u8 list" where
  "packet_bytes a s m = read_bytes m (pa_local_buffer a) (pa_size a)
     @ (if ps_piggyback s then le_bytes 8 (unat (pa_tag a)) @ le_bytes 4 (unat (ps_rhandler s)) else [])"

lemma write_bytes_append_at:
  "length xs = n \<Longrightarrow> write_bytes (write_bytes m a xs) (a + n) ys = write_bytes m a (xs @ ys)"
  using write_bytes_append [of m a xs ys] by simp

lemma build_packet_bytes:
  assumes "build_packet cf pe a t s w = Inr (s', w')" "\<not> ps_user_provided_packet s"
  shows "w_mem w' = write_bytes (w_mem w) (get_payload_address (ps_packet s)) (packet_bytes a s (w_mem w))
       \<and> ps_packet_size_to_send s' = length (packet_bytes a s (w_mem w)) \<and> ps_rhandler s' = ps_rhandler s"
proof (cases "ps_piggyback s")
  case True
  let ?pl = "get_payload_address (ps_packet s)" and ?d = "read_bytes (w_mem w) (pa_local_buffer a) (pa_size a)"
  have "store (store (write_bytes (w_mem w) ?pl ?d) (?pl + pa_size a) 8 (unat (pa_tag a))) (?pl + (pa_size a + 8)) 4 (unat (ps_rhandler s))
      = write_bytes (w_mem w) ?pl (packet_bytes a s (w_mem w))"
    using write_bytes_append_at [of "?d @ le_bytes 8 (unat (pa_tag a))" "pa_size a + 8" "w_mem w" ?pl]
    by (simp add: store_def packet_bytes_def True write_bytes_append_at)
  with assms True show ?thesis
    by (auto simp: build_packet_def Let_def bind_assert packet_bytes_def split: if_splits)
next
  case False
  with assms show ?thesis by (auto simp: build_packet_def Let_def packet_bytes_def split: if_splits)
qed

lemma set_immediate_data_eager:
  assumes "set_immediate_data cf a s = Inr s'" "pa_direction a = dir_OUT" "ps_protocol s \<noteq> pr_rdv_zcopy" "ps_rhandler s \<noteq> 0"
  shows "ps_rhandler s' = ps_rhandler s \<and> ps_packet_size_to_send s' = ps_packet_size_to_send s
       \<and> (if pa_tag a \<le> cf_max_imm_tag cf \<and> ps_rhandler s \<le> cf_max_imm_rcomp cf
          then encode_fastpath (cf_imm_nbits_tag cf) (cf_imm_nbits_rcomp cf) (pa_tag a) (ps_rhandler s) = Inr (ps_imm_data s')
          else ps_imm_data s' = 0)"
  using assms by (auto simp: set_immediate_data_def bindR_Inr_iff)

text \<open>What an eager post hands to the network: one request, which encodes the message.\<close>

lemma exit_retry:
  assumes "exit_handler pe e a s w = Inr (st, w')" "is_retry e"
  shows "is_retry (st_error st)"
  using assms(1)
proof (rule exit_handler_run)
  fix w1 st1 w2
  assume "(st1, w2) = (if is_posted e \<and> \<not> pa_allow_posted a
         then (set_done (fst (pe_wait pe w1)), snd (pe_wait pe w1)) else ((ps_status s)\<lparr>st_error := e\<rparr>, w1))"
    "st = (if is_done (st_error st1) \<and> \<not> pa_allow_done a then set_posted st1 else st1)"
  moreover have "\<not> is_posted e" "\<not> is_done e" using assms(2) by (auto simp: ec_category)
  ultimately show ?thesis using assms(2) by auto
qed

lemma exit_accepted:
  assumes "exit_handler pe e a s w = Inr (st, w')" "\<not> is_retry e" "pa_allow_posted a"
  shows "w_mem w' = w_mem w \<and> w_ep w' = w_ep w"
  using assms(1)
proof (rule exit_handler_run)
  fix w1 st1 w2
  assume "(if is_retry e then undo_ctx s w else Inr w) = Inr w1"
    "(st1, w2) = (if is_posted e \<and> \<not> pa_allow_posted a
         then (set_done (fst (pe_wait pe w1)), snd (pe_wait pe w1)) else ((ps_status s)\<lparr>st_error := e\<rparr>, w1))"
    "w' = (let w = (if \<not> pa_allow_posted a then w2\<lparr>w_freed_comps := w_freed_comps w2 @ [ps_local_comp s]\<rparr> else w2) in
         if is_done (st_error st1) \<and> \<not> pa_allow_done a then comp_signal (ps_local_comp s) st1 w else w)"
  with assms(2,3) show ?thesis by (auto simp: Let_def)
qed

text \<open>The packet step of an eager post: an injected message needs none, the others have the message in it.\<close>

lemma eager_packet:
  assumes "eager_args cf pe a" "ps_protocol s = pr_inject \<or> ps_protocol s = pr_eager_bcopy" "\<not> ps_user_provided_packet s"
    and "set_packet_if_needed cf pe a t s w = Inr (ec_done, s2, w2)"
  shows "ps_protocol s2 = ps_protocol s \<and> ps_rhandler s2 = ps_rhandler s
       \<and> (if ps_protocol s = pr_inject then s2 = s \<and> w2 = w
          else ps_packet_size_to_send s2 = length (packet_bytes a s (w_mem w))
            \<and> read_bytes (w_mem w2) (get_payload_address (ps_packet s2)) (ps_packet_size_to_send s2) = packet_bytes a s (w_mem w)
            \<and> w_ep w2 = w_ep w)"
proof (cases "ps_protocol s = pr_inject")
  case True
  with assms(1,4) show ?thesis by (simp add: set_packet_if_needed_def eager_args_def)
next
  case False
  with assms(2) have b: "ps_protocol s = pr_eager_bcopy" by simp
  let ?s = "s\<lparr>ps_packet := pe_packet pe\<rparr>"
  have "build_packet cf pe a t ?s w = Inr (s2, w2)"
    using assms(1,4) b by (auto simp: set_packet_if_needed_def eager_args_def Let_def bind_assert bindR_Inr_iff ec_category split: if_splits)
  from build_packet_bytes [OF this] build_packet_frame [OF this] assms(3) b show ?thesis
    by (auto simp: packet_bytes_def dest: same_but_memoryD)
qed

lemma eager_request:
  assumes be: "net_backend be" and a: "eager_args cf pe a" "rhandler_of pe a \<noteq> 0" and ep: "ep_ok (pa_rank a) w"
    and run: "post_comm cf be pe a w = Inr (st, w')" and acc: "\<not> is_retry (st_error st)"
  shows "\<exists>rq. w_sent (pa_rank a) w' = w_sent (pa_rank a) w @ [rq] \<and> rq_size rq = length (req_bytes (w_mem w') rq)
       \<and> eager_encodes cf (pa_tag a) (rhandler_of pe a) (read_bytes (w_mem w) (pa_local_buffer a) (pa_size a))
           (rq_imm rq) (req_bytes (w_mem w') rq)"
  using run
proof (cases rule: post_comm_steps)
  case (early a1 t e s)
  then have "is_retry e" by (auto simp: ec_category)
  with exit_retry [OF early(5)] acc show ?thesis by simp
next
  case (op a1 t s2 w2 s3 s5 w5 e6 s6 w6)
  have a1: "a1 = a" using op(1) eager_preprocess [OF a(1)] by simp
  note op = op [unfolded a1]
  note t = eager_traits [OF a(1) op(2)]
  define s where "s = set_protocol cf pe a t (resolve_rhandler pe a t post_comm_state_init)"
  note pr = eager_protocol [OF a(1) t s_def]
  have "\<not> ps_user_provided_packet s" by (simp add: s_def post_comm_state_init_def)
  note pk = eager_packet [OF a(1) pr(2) this op(3) [folded s_def]]
  have out: "pa_direction a = dir_OUT" "pe_shm pe = None" "pa_allow_posted a" using a(1) by (auto simp: eager_args_def)
  have "ps_protocol s2 \<noteq> pr_rdv_zcopy" "ps_rhandler s2 = rhandler_of pe a" using pk pr(1,2) by auto
  with set_immediate_data_eager [OF op(4) out(1)] a(2)
  have imm: "ps_packet_size_to_send s3 = ps_packet_size_to_send s2"
      "if pa_tag a \<le> cf_max_imm_tag cf \<and> rhandler_of pe a \<le> cf_max_imm_rcomp cf
       then encode_fastpath (cf_imm_nbits_tag cf) (cf_imm_nbits_rcomp cf) (pa_tag a) (rhandler_of pe a) = Inr (ps_imm_data s3)
       else ps_imm_data s3 = 0" by auto
  from op(5) obtain c where w5: "w5 = w2\<lparr>w_ep := add_pending_ops 1 (w_ep w2), w_ctxs := (w_ctxs w2)(w_next w2 \<mapsto> Simple c), w_next := w_next w2 + 1\<rparr>"
      and s5: "ps_protocol s5 = ps_protocol (set_status a (set_local_comp pe a s3))" "ps_packet s5 = ps_packet (set_status a (set_local_comp pe a s3))"
        "ps_imm_data s5 = ps_imm_data (set_status a (set_local_comp pe a s3))"
        "ps_packet_size_to_send s5 = ps_packet_size_to_send (set_status a (set_local_comp pe a s3))"
    by (rule set_internal_ctx_spec) (rule that)
  have s5': "ps_protocol s5 = ps_protocol s" "ps_packet s5 = ps_packet s2" "ps_imm_data s5 = ps_imm_data s3"
      "ps_packet_size_to_send s5 = ps_packet_size_to_send s2"
    using s5 set_immediate_data_frame [OF op(4)] pk imm(1) by (auto simp: set_status_def set_local_comp_def)
  have nr: "\<not> is_retry e6" using exit_retry [OF op(7)] acc by blast
  define rq where "rq = (if ps_protocol s = pr_inject
     then mk_sends (pa_rank a) (read_bytes (w_mem w) (pa_local_buffer a) (pa_size a)) (ps_imm_data s3) (Ctx (ps_internal_ctx s5))
     else mk_send (pa_rank a) (get_payload_address (ps_packet s2)) (ps_packet_size_to_send s2) (cf_packet_mr cf)
            (ps_imm_data s3) (Ctx (ps_internal_ctx s5)))"
  have "\<exists>e0. via_ep be post_req rq a s5 w5 = Inr (e0, s6, w6) \<and> \<not> is_retry e0"
  proof (cases "ps_protocol s = pr_inject")
    case True
    with op(6) pk out t(1) s5' show ?thesis
      by (intro exI [of _ e6]) (simp add: post_network_op_def do_inject_def shm_try_def via_ep_kinds rq_def w5 nr)
  next
    case False
    with op(6) pr(2) out t(1) s5'
    have "bindR (via_ep be post_req rq a s5 w5)
        (\<lambda>out. Inr (if is_posted (fst out) \<and> pa_comp_semantic a = cs_memory then ec_done else fst out, snd out))
        = Inr (e6, s6, w6)"
      by (simp add: post_network_op_def do_bcopy_def shm_try_def via_ep_kinds rq_def split_beta)
    then obtain e0 where "via_ep be post_req rq a s5 w5 = Inr (e0, s6, w6)"
        "e6 = (if is_posted e0 \<and> pa_comp_semantic a = cs_memory then ec_done else e0)"
      by (auto simp: bindR_Inr_iff)
    with nr show ?thesis by (auto simp: ec_category split: if_splits)
  qed
  then obtain e0 where via: "via_ep be post_req rq a s5 w5 = Inr (e0, s6, w6)" "\<not> is_retry e0" by blast
  have "w_ep w2 = w_ep w" using pk by (auto split: if_splits)
  then have "ep_ok (rq_rank rq) w5" using ep by (auto intro: ep_ok_pending simp: rq_def w5)
  from net_backend.via_ep_spec [OF be via(1) this] via(2) have
      sent: "w_sent (pa_rank a) w6 = w_sent (pa_rank a) w5 @ [rq]" and mem: "w_mem w6 = w_mem w5"
    by (auto simp: rq_def)
  have fin: "w_mem w' = w_mem w2" "w_sent (pa_rank a) w' = w_sent (pa_rank a) w @ [rq]"
    using exit_accepted [OF op(7) nr out(3)] mem sent \<open>w_ep w2 = w_ep w\<close> by (auto simp: w5 add_pending_ops_def ep_sent_def)
  have "rq_size rq = length (req_bytes (w_mem w2) rq)" "rq_imm rq = ps_imm_data s3"
      "req_bytes (w_mem w2) rq = packet_bytes a s (w_mem w)"
    using pk pr(2,4) by (auto simp: rq_def req_bytes_def mk_sends_def mk_send_def packet_bytes_def split: if_splits)
  with fin imm(2) pr(1,3) a(2) show ?thesis
    by (intro exI [of _ rq]) (auto simp: eager_encodes_def packet_bytes_def not_less)
qed

text \<open>Delivering an eager request: the receiver decodes what was posted.\<close>

lemma eager_received:
  assumes "imm_widths_ok cf" "rq_size rq = length (req_bytes m rq)"
    and "eager_encodes cf tag rh data (rq_imm rq) (req_bytes m rq)"
  shows "progress_recv cfr ber (recv_completion src rq pk) (with_payload pk (req_bytes m rq) v)
       = recv_eager cfr ber src pk (length data) tag rh (with_payload pk (req_bytes m rq) v)
     \<and> read_bytes (w_mem (with_payload pk (req_bytes m rq) v)) (get_payload_address pk) (length data) = data"
  using eager_decodes [OF assms(1,3), of src pk v]
  by (simp add: progress_recv_def recv_completion_def assms(2))

text \<open>C8.  An active message arrives as it was posted.  Whatever of inject and buffer copy was chosen,
  and whether tag and handler travel in the immediate data or behind the payload, an accepted
  \<^verbatim>\<open>post_am\<close> hands the network one request; and when that request arrives in a packet of the peer, the
  progress engine signals the completion object registered there with the sender's rank, the tag,
  the size and a buffer that holds the bytes of the message.  The packet goes back to its pool
  unless the completion object takes it over.\<close>

theorem eager_am_delivered:
  assumes "net_backend be" "imm_widths_ok cf" "eager_args cf pe (a\<lparr>pa_direction := dir_OUT, pa_rmr := rmr_empty\<rparr>)"
    and "pa_remote_comp a \<noteq> 0" "ep_ok (pa_rank a) w"
    and "post_am_x cf be pe a w = Inr (st, w')" "\<not> is_retry (st_error st)"
    and "rr_get (pa_remote_comp a) (w_registry v) = Inr entry" "re_type entry = rh_comp"
  shows "\<exists>rq v' st'. w_sent (pa_rank a) w' = w_sent (pa_rank a) w @ [rq]
     \<and> progress_recv cfr ber (recv_completion src rq pk) (with_payload pk (req_bytes (w_mem w') rq) v) = Inr v'
     \<and> w_signals v' = w_signals v @ [(re_value entry, st')] \<and> is_done (st_error st')
     \<and> st_rank st' = src \<and> st_tag st' = pa_tag a \<and> st_size st' = pa_size a
     \<and> read_bytes (w_mem v') (st_buffer st') (pa_size a) = read_bytes (w_mem w) (pa_local_buffer a) (pa_size a)
     \<and> w_returned v' = w_returned v @ (if cf_zero_copy_am cfr (re_value entry) then [] else [pk])"
proof -
  let ?a = "a\<lparr>pa_direction := dir_OUT, pa_matching_engine := 0, pa_remote_disp := 0, pa_rmr := rmr_empty,
     pa_matching_policy := mp_rank_tag\<rparr>" and ?d = "read_bytes (w_mem w) (pa_local_buffer a) (pa_size a)"
  have ea: "eager_args cf pe ?a" using assms(3) by (simp add: eager_args_def)
  have rh: "rhandler_of pe ?a = pa_remote_comp a" by (simp add: rhandler_of_def)
  have run: "post_comm cf be pe ?a w = Inr (st, w')" using assms(6) by (simp add: post_am_x_def)
  obtain rq where rq: "w_sent (pa_rank a) w' = w_sent (pa_rank a) w @ [rq]" "rq_size rq = length (req_bytes (w_mem w') rq)"
      "eager_encodes cf (pa_tag a) (pa_remote_comp a) ?d (rq_imm rq) (req_bytes (w_mem w') rq)"
    using eager_request [OF assms(1) ea _ _ run assms(7)] assms(4,5) rh by auto
  note rc = eager_received [OF assms(2) rq(2,3), of cfr ber src pk v]
  show ?thesis
  proof (cases "cf_zero_copy_am cfr (re_value entry)")
    case True
    with rc rq(1) assms(8,9) show ?thesis
      by (auto simp: recv_eager_def set_done_def ec_category)
  next
    case False
    with rc rq(1) assms(8,9) show ?thesis
      by (auto simp: recv_eager_def allocate_def set_done_def ec_category)
  qed
qed

text \<open>Processes with a registered handler and with a matching engine, and a message with a tag that does
  not fit in the immediate data.\<close>

definition registry_of :: "rh_entry list \<Rightarrow> rhandler_registry_t" where
  "registry_of es = \<lparr>rr_size = of_nat (length es), rr_entries = \<lparr>ma_arrays = [es], ma_ptr = 0, ma_length = length es\<rparr>\<rparr>"

definition sender_example :: world where
  "sender_example = (world_new 2)\<lparr>w_mem := (\<lambda>x. of_nat x)\<rparr>"

definition msg_args :: "tag_t \<Rightarrow> post_comm_args_t" where
  "msg_args tag = (put_args 3)\<lparr>pa_rmr := rmr_empty, pa_tag := tag, pa_remote_comp := 1, pa_matching_engine := 9\<rparr>"

lemma sender_example_ok: "0 \<le> r \<Longrightarrow> r < 2 \<Longrightarrow> ep_ok r sender_example"
  using world_new_ok(2) [of r 2] by (simp add: sender_example_def ep_ok_def)

lemma config_new_widths: "imm_widths_ok config_new"
  by (simp add: imm_widths_ok_def config_new_def mask_eq_exp_minus_1)

lemma msg_args_eager: "eager_args config_new env_new ((msg_args tag)\<lparr>pa_direction := dir_OUT, pa_rmr := rmr_empty\<rparr>)"
  "eager_args config_new env_new ((msg_args tag)\<lparr>pa_direction := dir_OUT, pa_rmr := rmr_empty, pa_remote_comp := 0\<rparr>)"
  by (simp_all add: eager_args_def msg_args_def put_args_def config_new_def env_new_def get_max_bcopy_size_def
      COMP_NULL_def COMP_NULL_RETRY_def)

theorem eager_am_delivered_witness:
  "\<exists>st w' rq v' st'. post_am_x config_new always_accept env_new (msg_args 70000) sender_example = Inr (st, w')
     \<and> w_sent 1 w' = [rq] \<and> progress_recv config_new always_accept (recv_completion 0 rq 512)
         (with_payload 512 (req_bytes (w_mem w') rq)
           ((world_new 2)\<lparr>w_registry := registry_of [\<lparr>re_type = rh_comp, re_value = 66, re_metadata = 0\<rparr>]\<rparr>)) = Inr v'
     \<and> w_signals v' = [(66, st')] \<and> st_tag st' = 70000
     \<and> read_bytes (w_mem v') (st_buffer st') 3 = [100, 101, 102]"
proof -
  let ?e = "\<lparr>re_type = rh_comp, re_value = 66, re_metadata = 0\<rparr>"
  let ?v = "(world_new 2)\<lparr>w_registry := registry_of [?e]\<rparr>"
  obtain st w' where run: "post_am_x config_new always_accept env_new (msg_args 70000) sender_example = Inr (st, w')"
      and acc: "\<not> is_retry (st_error st)"
    by (simp add: post_am_x_def msg_args_def sender_example_def post_eval example_defs do_bcopy_def shm_try_def post_send_def
        mk_send_def build_packet_def new_internal_context_def Let_def)
  have rc: "pa_remote_comp (msg_args 70000) \<noteq> 0" and ok: "ep_ok (pa_rank (msg_args 70000)) sender_example"
    using sender_example_ok by (simp_all add: msg_args_def put_args_def)
  have ent: "rr_get (pa_remote_comp (msg_args 70000)) (w_registry ?v) = Inr ?e"
    by (simp add: msg_args_def rr_get_def decode_idx_def registry_of_def array_get_def)
  have mem: "read_bytes (w_mem sender_example) 100 3 = [100, 101, 102]" "w_sent 1 sender_example = []" "w_signals ?v = []"
    by (simp_all add: sender_example_def world_new_def read_bytes_def upt_rec ep_sent_def endpoint_new_def)
  show ?thesis
    using eager_am_delivered [OF always_accept_backend config_new_widths msg_args_eager(1) rc ok run acc ent,
        of config_new always_accept 0 512] run mem
    by (auto simp: msg_args_def put_args_def)
qed

section \<open>Matched sends and receives\<close>

lemma engine_insert_first:
  assumes "table_inv (w_engines w eng)" "v \<noteq> 0" "map_pend (w_engines w eng) key (opposite t) = []"
  shows "\<exists>tb. engine_insert eng key v t w = (0, w\<lparr>w_engines := (w_engines w)(eng := tb)\<rparr>) \<and> table_inv tb
       \<and> map_pend tb = (map_pend (w_engines w eng))(key := (map_pend (w_engines w eng) key)(t := map_pend (w_engines w eng) key t @ [v]))"
proof -
  obtain r tb where i: "map_insert (w_engines w eng) key v t = (r, tb)" by fastforce
  have "table_inv tb \<and> (r, map_pend tb) = spec_insert (map_pend (w_engines w eng)) key v t"
    using assms(1,2) i by (intro map_insert_spec) (simp_all add: VALUE_EMPTY_def)
  with i assms(3) show ?thesis
    by (intro exI [of _ tb]) (simp add: engine_insert_def spec_insert_def VALUE_EMPTY_def)
qed

lemma engine_insert_second:
  assumes "table_inv (w_engines w eng)" "v \<noteq> 0" "map_pend (w_engines w eng) key (opposite t) = x # xs"
  shows "\<exists>tb. engine_insert eng key v t w = (x, w\<lparr>w_engines := (w_engines w)(eng := tb)\<rparr>) \<and> table_inv tb
       \<and> map_pend tb = (map_pend (w_engines w eng))(key := (map_pend (w_engines w eng) key)(opposite t := xs))"
proof -
  obtain r tb where i: "map_insert (w_engines w eng) key v t = (r, tb)" by fastforce
  have "table_inv tb \<and> (r, map_pend tb) = spec_insert (map_pend (w_engines w eng)) key v t"
    using assms(1,2) i by (intro map_insert_spec) (simp_all add: VALUE_EMPTY_def)
  with i assms(3) show ?thesis
    by (intro exI [of _ tb]) (simp add: engine_insert_def spec_insert_def)
qed

text \<open>A posted receive: its context, and the post up to the matching engine.\<close>

definition recv_args :: "post_env \<Rightarrow> post_comm_args_t \<Rightarrow> bool" where
  "recv_args pe a \<longleftrightarrow> pa_direction a = dir_IN \<and> pa_rmr a = rmr_empty \<and> pa_remote_comp a = 0 \<and> \<not> pe_accelerator pe
     \<and> pa_allow_posted a \<and> pa_allow_done a \<and> pa_local_comp a \<notin> {COMP_NULL, COMP_NULL_RETRY} \<and> \<not> pe_is_packet pe (pa_local_buffer a)"

definition recv_context :: "post_comm_args_t \<Rightarrow> internal_context_t" where
  "recv_context a = new_internal_context\<lparr>ic_is_user_posted_op := True, ic_rank := pa_rank a, ic_tag := pa_tag a,
     ic_user_context := pa_user_context a, ic_buffer := pa_local_buffer a, ic_size := pa_size a, ic_comp := pa_local_comp a\<rparr>"

lemma recv_context_simps [simp]:
  "ic_rank (recv_context a) = pa_rank a" "ic_tag (recv_context a) = pa_tag a" "ic_buffer (recv_context a) = pa_local_buffer a"
  "ic_user_context (recv_context a) = pa_user_context a" "ic_size (recv_context a) = pa_size a"
  "ic_comp (recv_context a) = pa_local_comp a" "ic_packet_to_free (recv_context a) = 0" "ic_is_user_posted_op (recv_context a)"
  "\<not> ic_mr_on_the_fly (recv_context a)"
  by (simp_all add: recv_context_def new_internal_context_def)

definition with_recv :: "post_comm_args_t \<Rightarrow> world \<Rightarrow> world" where
  "with_recv a w = w\<lparr>w_ep := add_pending_ops 1 (w_ep w), w_ctxs := (w_ctxs w)(w_next w \<mapsto> Simple (recv_context a)), w_next := w_next w + 1\<rparr>"

lemma post_recv_run:
  assumes "recv_args pe a" "ep_ok (pa_rank a) w"
  shows "\<exists>s. post_comm cf be pe a w = bindR (do_recv cf be a s (with_recv a w)) (\<lambda>(e, s, w). exit_handler pe e a s w)
       \<and> ps_internal_ctx s = w_next w \<and> ps_protocol s = pr_recv"
proof -
  let ?t = "\<lparr>pt_local_buffer_only = True, pt_local_comp_only = True, pt_is_recv = True,
      pt_max_inject_size = cf_max_inject_size cf, pt_max_bcopy_size = get_max_bcopy_size cf\<rparr>"
  let ?r = "resolve_rhandler pe a ?t post_comm_state_init"
  let ?s = "?r\<lparr>ps_protocol := pr_recv\<rparr>"
  define s3 where "s3 = set_status a (set_local_comp pe a (?s\<lparr>ps_imm_data := 0\<rparr>))"
  have pre: "preprocess_args pe a = Inr a" "validate_and_get_traits cf a = Inr ?t" "set_protocol cf pe a ?t ?r = ?s"
    using assms(1) by (simp_all add: preprocess_args_def validate_and_get_traits_def set_protocol_def recv_args_def Let_def bind_assert)
  obtain b where b: "is_empty_rank (pa_rank a) (w_ep w) = Inr b"
    using assms(2) by (simp add: is_empty_rank_def ep_ok_def)
  have mid: "check_backlog a ?s w = Inr ec_done" "set_packet_if_needed cf pe a ?t ?s w = Inr (ec_done, ?s, w)"
      "set_immediate_data cf a ?s = Inr (?s\<lparr>ps_imm_data := 0\<rparr>)"
    using assms(1) b by (simp_all add: check_backlog_def set_packet_if_needed_def set_immediate_data_def recv_args_def)
  have s3: "ps_protocol s3 = pr_recv" "ps_local_comp s3 = pa_local_comp a" "ps_packet s3 = 0"
    using assms(1) by (simp_all add: s3_def set_status_def set_local_comp_def recv_args_def post_comm_state_init_def)
  have ctx: "set_internal_ctx cf a s3 w = Inr (s3\<lparr>ps_internal_ctx := w_next w, ps_comp_passed := True, ps_mr := pa_mr a\<rparr>, with_recv a w)"
    using assms(1) s3
    by (simp add: set_internal_ctx_def set_user_posted_op_def new_ctx_def with_recv_def recv_context_def recv_args_def
        COMP_NULL_def new_internal_context_def)
  let ?s5 = "s3\<lparr>ps_internal_ctx := w_next w, ps_comp_passed := True, ps_mr := pa_mr a\<rparr>"
  have op: "post_network_op cf be pe a ?t ?s5 (with_recv a w) = do_recv cf be a ?s5 (with_recv a w)"
    using assms(1) s3 by (simp add: post_network_op_def recv_args_def)
  have "post_comm cf be pe a w = bindR (do_recv cf be a ?s5 (with_recv a w)) (\<lambda>(e, s, w). exit_handler pe e a s w)"
    unfolding post_comm_def pre bindR_simps Let_def mid s3_def [symmetric] prod.case ctx op
    by (simp add: ec_category)
  then show ?thesis using s3 by (intro exI [of _ ?s5]) simp
qed

text \<open>Completing a match: the status, and what the state is afterwards.\<close>

definition matched_status :: "int \<Rightarrow> tag_t \<Rightarrow> nat \<Rightarrow> post_comm_args_t \<Rightarrow> status_t" where
  "matched_status src tag n r = \<lparr>st_error = ec_done, st_rank = src, st_buffer = pa_local_buffer r, st_size = n,
     st_tag = tag, st_user_context = pa_user_context r\<rparr>"

lemma matched_status_simps [simp]:
  "st_buffer (matched_status src tag n r) = pa_local_buffer r" "st_error (matched_status src tag n r) = ec_done"
  by (simp_all add: matched_status_def)

definition delivered :: "u8 list \<Rightarrow> post_comm_args_t \<Rightarrow> addr \<Rightarrow> world \<Rightarrow> world \<Rightarrow> bool" where
  "delivered data r packet v v' \<longleftrightarrow> read_bytes (w_mem v') (pa_local_buffer r) (length data) = data
     \<and> w_ctxs v' = w_ctxs v \<and> w_returned v' = w_returned v @ [packet]
     \<and> map_pend (w_engines v' (pa_matching_engine r)) = map_pend (w_engines v (pa_matching_engine r))
     \<and> ep_pending_ops (w_ep v') = ep_pending_ops (w_ep v)"

lemma matched_eager:
  assumes "w_ctxs v rc = Some (Simple (recv_context r))"
    and "pc_is_eager (w_packets v pk)" "pc_rank (w_packets v pk) = src" "pc_tag (w_packets v pk) = tag"
    and "pc_size (w_packets v pk) = length data"
    and "read_bytes (w_mem v) (get_payload_address pk) (length data) = data"
  shows "\<exists>v'. handle_matched_sendrecv cf be pk rc p v
         = Inr (map_option (\<lambda>_. matched_status src tag (length data) r) p,
                if p = None then comp_signal (pa_local_comp r) (matched_status src tag (length data) r) v' else v')
       \<and> read_bytes (w_mem v') (pa_local_buffer r) (length data) = data \<and> w_ctxs v' = (w_ctxs v)(rc := None)
       \<and> w_returned v' = w_returned v @ [pk] \<and> w_signals v' = w_signals v \<and> w_engines v' = w_engines v
       \<and> ep_pending_ops (w_ep v') = ep_pending_ops (w_ep v) - 1"
proof -
  let ?v1 = "ctx_destructor (recv_context r) (v\<lparr>w_ctxs := (w_ctxs v)(rc := None)\<rparr>)"
  let ?v2 = "if 0 < length data then ?v1\<lparr>w_mem := write_bytes (w_mem v) (pa_local_buffer r) data\<rparr> else ?v1"
  have st: "(set_done status_init)\<lparr>st_buffer := pa_local_buffer r, st_user_context := pa_user_context r,
      st_rank := src, st_tag := tag, st_size := length data\<rparr> = matched_status src tag (length data) r"
    by (simp add: matched_status_def set_done_def status_init_def)
  have "handle_matched_sendrecv cf be pk rc p v
         = Inr (map_option (\<lambda>_. matched_status src tag (length data) r) p,
                if p = None then comp_signal (pa_local_comp r) (matched_status src tag (length data) r) (put_back pk ?v2) else put_back pk ?v2)"
    using assms st by (cases p) (simp_all add: handle_matched_sendrecv_def get_ctx_def delete_ctx_def Let_def)
  then show ?thesis
    by (intro exI [of _ "put_back pk ?v2"]) (auto simp: put_back_def)
qed

text \<open>The arrival of an eager message at a matching engine, before and after the receive was posted.\<close>

definition msg_packet :: "int \<Rightarrow> addr \<Rightarrow> nat \<Rightarrow> tag_t \<Rightarrow> world \<Rightarrow> world" where
  "msg_packet src pk n tag v = v\<lparr>w_packets := (w_packets v)(pk := (w_packets v pk)\<lparr>pc_is_eager := True, pc_rank := src, pc_tag := tag, pc_size := n\<rparr>)\<rparr>"

lemma msg_packet_simps [simp]:
  "w_ctxs (msg_packet src pk n tag v) = w_ctxs v" "w_mem (msg_packet src pk n tag v) = w_mem v"
  "w_engines (msg_packet src pk n tag v) = w_engines v" "w_returned (msg_packet src pk n tag v) = w_returned v"
  "w_signals (msg_packet src pk n tag v) = w_signals v" "w_ep (msg_packet src pk n tag v) = w_ep v"
  "w_next (msg_packet src pk n tag v) = w_next v"
  by (simp_all add: msg_packet_def)

lemma recv_eager_matching:
  assumes "rr_get rh (w_registry v) = Inr entry" "re_type entry \<noteq> rh_comp" "re_value entry = eng"
    and "make_key src tag (policy_of (re_metadata entry)) = Inr key"
  shows "recv_eager cf be src pk n tag rh v =
     (let (ret, v) = engine_insert eng key pk it_send (msg_packet src pk n tag v) in
      if ret = 0 then Inr v else bindR (handle_matched_sendrecv cf be pk ret None v) (\<lambda>(_, v). Inr v))"
  using assms by (simp add: recv_eager_def msg_packet_def Let_def)

text \<open>The receive comes first.\<close>

lemma recv_then_msg:
  assumes entry: "rr_get rh (w_registry v) = Inr entry" "re_type entry \<noteq> rh_comp" "re_value entry = pa_matching_engine r"
    and key: "make_key src tag (policy_of (re_metadata entry)) = Inr key" "make_key (pa_rank r) (pa_tag r) (recv_policy r) = Inr key"
    and r: "recv_args per r" "ep_ok (pa_rank r) v" "heap_ok v" and pk: "pk \<noteq> 0"
    and eng: "table_inv (w_engines v (pa_matching_engine r))" "map_pend (w_engines v (pa_matching_engine r)) key = (\<lambda>_. [])"
    and data: "read_bytes (write_bytes (w_mem v) (get_payload_address pk) bs) (get_payload_address pk) (length data) = data"
  shows "\<exists>sr v1 v2. post_comm cf be per r v = Inr (sr, v1) \<and> is_posted (st_error sr)
     \<and> recv_eager cf be src pk (length data) tag rh (with_payload pk bs v1) = Inr v2
     \<and> w_signals v2 = w_signals v @ [(pa_local_comp r, matched_status src tag (length data) r)] \<and> delivered data r pk v v2"
proof -
  let ?eng = "pa_matching_engine r" and ?p = "map_pend (w_engines v (pa_matching_engine r))"
  obtain s where s: "post_comm cf be per r v = bindR (do_recv cf be r s (with_recv r v)) (\<lambda>(e, s, w). exit_handler per e r s w)"
      "ps_internal_ctx s = w_next v" "ps_protocol s = pr_recv"
    using post_recv_run [OF r(1,2)] by blast
  have nz: "w_next v \<noteq> 0" and new: "w_ctxs v (w_next v) = None" using r(3) by (auto simp: heap_ok_def)
  obtain tb where tb: "engine_insert ?eng key (w_next v) it_recv (with_recv r v)
        = (0, (with_recv r v)\<lparr>w_engines := (w_engines v)(?eng := tb)\<rparr>)"
      "table_inv tb" "map_pend tb = ?p(key := (?p key)(it_recv := [w_next v]))"
    using engine_insert_first [of "with_recv r v" ?eng "w_next v" key it_recv] eng nz by (auto simp: with_recv_def)
  define v1 where "v1 = (with_recv r v)\<lparr>w_engines := (w_engines v)(?eng := tb)\<rparr>"
  have "exit_handler per ec_posted r s v1 = Inr ((ps_status s)\<lparr>st_error := ec_posted\<rparr>, v1)"
    using s(3) r(1) by (simp add: exit_handler_def recv_args_def ec_category)
  then have post: "post_comm cf be per r v = Inr ((ps_status s)\<lparr>st_error := ec_posted\<rparr>, v1)"
    using s(1,2) tb(1) key(2) by (simp add: do_recv_def v1_def)
  let ?v1 = "msg_packet src pk (length data) tag (with_payload pk bs v1)"
  obtain tb2 where tb2: "engine_insert ?eng key pk it_send ?v1 = (w_next v, ?v1\<lparr>w_engines := (w_engines ?v1)(?eng := tb2)\<rparr>)"
      "map_pend tb2 = (map_pend tb)(key := (map_pend tb key)(it_recv := []))"
    using engine_insert_second [of ?v1 ?eng pk key it_send "w_next v" "[]"] tb pk by (auto simp: v1_def)
  let ?v2 = "?v1\<lparr>w_engines := (w_engines ?v1)(?eng := tb2)\<rparr>"
  obtain v' where v': "handle_matched_sendrecv cf be pk (w_next v) None ?v2
         = Inr (None, comp_signal (pa_local_comp r) (matched_status src tag (length data) r) v')"
      "read_bytes (w_mem v') (pa_local_buffer r) (length data) = data" "w_ctxs v' = (w_ctxs ?v2)(w_next v := None)"
      "w_returned v' = w_returned ?v2 @ [pk]" "w_signals v' = w_signals ?v2" "w_engines v' = w_engines ?v2"
      "ep_pending_ops (w_ep v') = ep_pending_ops (w_ep ?v2) - 1"
    using matched_eager [of ?v2 "w_next v" r pk src tag data cf be None] data
    by (auto simp: v1_def with_recv_def msg_packet_def)
  have arr: "recv_eager cf be src pk (length data) tag rh (with_payload pk bs v1)
      = Inr (comp_signal (pa_local_comp r) (matched_status src tag (length data) r) v')"
    using recv_eager_matching [of rh "with_payload pk bs v1" entry ?eng src tag key cf be pk "length data"] entry key(1) tb2(1) v'(1) nz
    by (simp add: v1_def with_recv_def)
  have pend: "map_pend tb2 = ?p" using tb(3) tb2(2) eng(2) by (auto simp: fun_eq_iff)
  have ctxs: "(w_ctxs v)(w_next v := None) = w_ctxs v" using new by auto
  have "delivered data r pk v (comp_signal (pa_local_comp r) (matched_status src tag (length data) r) v')"
    using v' pend ctxs by (simp add: delivered_def v1_def with_recv_def add_pending_ops_def comp_signal_def)
  with arr post v'(5) show ?thesis
    by (intro exI [of _ "(ps_status s)\<lparr>st_error := ec_posted\<rparr>"] exI [of _ v1]
        exI [of _ "comp_signal (pa_local_comp r) (matched_status src tag (length data) r) v'"])
      (simp add: v1_def with_recv_def ec_category)
qed

text \<open>The message comes first.\<close>

lemma msg_then_recv:
  assumes entry: "rr_get rh (w_registry v) = Inr entry" "re_type entry \<noteq> rh_comp" "re_value entry = pa_matching_engine r"
    and key: "make_key src tag (policy_of (re_metadata entry)) = Inr key" "make_key (pa_rank r) (pa_tag r) (recv_policy r) = Inr key"
    and r: "recv_args per r" "ep_ok (pa_rank r) v" "heap_ok v" and pk: "pk \<noteq> 0"
    and eng: "table_inv (w_engines v (pa_matching_engine r))" "map_pend (w_engines v (pa_matching_engine r)) key = (\<lambda>_. [])"
    and data: "read_bytes (write_bytes (w_mem v) (get_payload_address pk) bs) (get_payload_address pk) (length data) = data"
  shows "\<exists>v1 v2. recv_eager cf be src pk (length data) tag rh (with_payload pk bs v) = Inr v1
     \<and> post_comm cf be per r v1 = Inr (matched_status src tag (length data) r, v2)
     \<and> w_signals v2 = w_signals v \<and> delivered data r pk v v2"
proof -
  let ?eng = "pa_matching_engine r" and ?p = "map_pend (w_engines v (pa_matching_engine r))"
  let ?v = "msg_packet src pk (length data) tag (with_payload pk bs v)"
  have nz: "w_next v \<noteq> 0" and new: "w_ctxs v (w_next v) = None" using r(3) by (auto simp: heap_ok_def)
  obtain tb where tb: "engine_insert ?eng key pk it_send ?v = (0, ?v\<lparr>w_engines := (w_engines v)(?eng := tb)\<rparr>)"
      "table_inv tb" "map_pend tb = ?p(key := (?p key)(it_send := [pk]))"
    using engine_insert_first [of ?v ?eng pk key it_send] eng pk by auto
  define v1 where "v1 = ?v\<lparr>w_engines := (w_engines v)(?eng := tb)\<rparr>"
  have arr: "recv_eager cf be src pk (length data) tag rh (with_payload pk bs v) = Inr v1"
    using recv_eager_matching [of rh "with_payload pk bs v" entry ?eng src tag key cf be pk "length data"] entry key(1) tb(1)
    by (simp add: v1_def)
  have ok: "ep_ok (pa_rank r) v1" and nx: "w_next v1 = w_next v" using r(2) by (simp_all add: ep_ok_def v1_def)
  obtain s where s: "post_comm cf be per r v1 = bindR (do_recv cf be r s (with_recv r v1)) (\<lambda>(e, s, w). exit_handler per e r s w)"
      "ps_internal_ctx s = w_next v" "ps_protocol s = pr_recv"
    using post_recv_run [OF r(1) ok] nx by auto
  obtain tb2 where tb2: "engine_insert ?eng key (w_next v) it_recv (with_recv r v1)
        = (pk, (with_recv r v1)\<lparr>w_engines := (w_engines v1)(?eng := tb2)\<rparr>)"
      "map_pend tb2 = (map_pend tb)(key := (map_pend tb key)(it_send := []))"
    using engine_insert_second [of "with_recv r v1" ?eng "w_next v" key it_recv pk "[]"] tb nz by (auto simp: v1_def with_recv_def)
  let ?v2 = "(with_recv r v1)\<lparr>w_engines := (w_engines v1)(?eng := tb2)\<rparr>"
  obtain v' where v': "handle_matched_sendrecv cf be pk (w_next v) (Some (ps_status s)) ?v2
         = Inr (Some (matched_status src tag (length data) r), v')"
      "read_bytes (w_mem v') (pa_local_buffer r) (length data) = data" "w_ctxs v' = (w_ctxs ?v2)(w_next v := None)"
      "w_returned v' = w_returned ?v2 @ [pk]" "w_signals v' = w_signals ?v2" "w_engines v' = w_engines ?v2"
      "ep_pending_ops (w_ep v') = ep_pending_ops (w_ep ?v2) - 1"
    using matched_eager [of ?v2 "w_next v" r pk src tag data cf be "Some (ps_status s)"] data
    by (auto simp: v1_def with_recv_def msg_packet_def)
  let ?st = "matched_status src tag (length data) r"
  have "exit_handler per ec_done r (s\<lparr>ps_status := ?st\<rparr>) v' = Inr (?st, v')"
    using s(3) r(1) by (simp add: exit_handler_def recv_args_def ec_category matched_status_def)
  then have post: "post_comm cf be per r v1 = Inr (?st, v')"
    using s(1,2) tb2(1) key(2) pk v'(1) by (simp add: do_recv_def)
  have pend: "map_pend tb2 = ?p" using tb(3) tb2(2) eng(2) by (auto simp: fun_eq_iff)
  have ctxs: "(w_ctxs v)(w_next v := None) = w_ctxs v" using new by auto
  have "delivered data r pk v v'"
    using v' pend ctxs by (simp add: delivered_def v1_def with_recv_def add_pending_ops_def)
  with arr post v'(5) show ?thesis
    by (intro exI [of _ v1] exI [of _ v']) (simp add: v1_def with_recv_def)
qed

text \<open>C1.  A send and a receive that match are completed in either order.  If the receive is posted
  before the eager message arrives, it is posted and its completion object is signalled when the
  message arrives; if the message arrives first, the post of the receive itself reports done.  In
  both cases the status names the sender, the tag and the size, the receive buffer holds the bytes
  that were sent, the packet is back in its pool, the context of the receive is gone and the
  matching engine is as before.\<close>

theorem eager_sendrecv_matched:
  assumes "net_backend be" "imm_widths_ok cf" "eager_args cf pe (a\<lparr>pa_direction := dir_OUT, pa_rmr := rmr_empty, pa_remote_comp := 0\<rparr>)"
    and "pa_matching_engine a \<noteq> 0" "ep_ok (pa_rank a) w"
    and "post_send_x cf be pe a w = Inr (st, w')" "\<not> is_retry (st_error st)"
    and "rh = get_rhandler (pe_engine_base pe (pa_matching_engine a)) (pa_matching_policy a)" "rh \<noteq> 0"
    and "rr_get rh (w_registry v) = Inr entry" "re_type entry = rh_matching_engine" "re_value entry = pa_matching_engine r"
    and "make_key src (pa_tag a) (policy_of (re_metadata entry)) = Inr key" "make_key (pa_rank r) (pa_tag r) (recv_policy r) = Inr key"
    and "recv_args per (r\<lparr>pa_direction := dir_IN, pa_rmr := rmr_empty, pa_remote_comp := 0\<rparr>)" "ep_ok (pa_rank r) v" "heap_ok v" "pk \<noteq> 0"
    and "table_inv (w_engines v (pa_matching_engine r))" "map_pend (w_engines v (pa_matching_engine r)) key = (\<lambda>_. [])"
  shows "\<exists>rq. w_sent (pa_rank a) w' = w_sent (pa_rank a) w @ [rq]
     \<and> (let data = read_bytes (w_mem w) (pa_local_buffer a) (pa_size a); bs = req_bytes (w_mem w') rq in
        (\<exists>sr v1 v2. post_recv_x cfr ber per r v = Inr (sr, v1) \<and> is_posted (st_error sr)
           \<and> progress_recv cfr ber (recv_completion src rq pk) (with_payload pk bs v1) = Inr v2
           \<and> w_signals v2 = w_signals v @ [(pa_local_comp r, matched_status src (pa_tag a) (pa_size a) r)] \<and> delivered data r pk v v2)
      \<and> (\<exists>v1 v2. progress_recv cfr ber (recv_completion src rq pk) (with_payload pk bs v) = Inr v1
           \<and> post_recv_x cfr ber per r v1 = Inr (matched_status src (pa_tag a) (pa_size a) r, v2)
           \<and> w_signals v2 = w_signals v \<and> delivered data r pk v v2))"
proof -
  let ?a = "a\<lparr>pa_direction := dir_OUT, pa_remote_disp := 0, pa_rmr := rmr_empty, pa_remote_comp := 0\<rparr>"
  let ?r = "r\<lparr>pa_direction := dir_IN, pa_remote_disp := 0, pa_rmr := rmr_empty, pa_remote_comp := 0\<rparr>"
  let ?d = "read_bytes (w_mem w) (pa_local_buffer a) (pa_size a)"
  have ea: "eager_args cf pe ?a" and rh: "rhandler_of pe ?a = rh" using assms(3,4,8) by (simp_all add: eager_args_def rhandler_of_def)
  have run: "post_comm cf be pe ?a w = Inr (st, w')" using assms(6) by (simp add: post_send_x_def)
  obtain rq where rq: "w_sent (pa_rank a) w' = w_sent (pa_rank a) w @ [rq]" "rq_size rq = length (req_bytes (w_mem w') rq)"
      "eager_encodes cf (pa_tag a) rh ?d (rq_imm rq) (req_bytes (w_mem w') rq)"
    using eager_request [OF assms(1) ea _ _ run assms(7)] assms(5,9) rh by auto
  let ?bs = "req_bytes (w_mem w') rq"
  have rc: "progress_recv cfr ber (recv_completion src rq pk) (with_payload pk ?bs x)
       = recv_eager cfr ber src pk (pa_size a) (pa_tag a) rh (with_payload pk ?bs x)"
      "read_bytes (write_bytes (w_mem x) (get_payload_address pk) ?bs) (get_payload_address pk) (pa_size a) = ?d" for x
    using eager_received [OF assms(2) rq(2,3), of cfr ber src pk x] by simp_all
  have r: "recv_args per ?r" "ep_ok (pa_rank ?r) v" "pa_matching_engine ?r = pa_matching_engine r"
      "recv_policy ?r = recv_policy r" "matched_status src tag n ?r = matched_status src tag n r"
      "delivered ?d ?r pk v x = delivered ?d r pk v x" for x tag n
    using assms(15,16) by (simp_all add: recv_args_def recv_policy_def matched_status_def delivered_def)
  have entry: "re_type entry \<noteq> rh_comp" using assms(11) by simp
  show ?thesis
    using recv_then_msg [of rh v entry ?r src "pa_tag a" key per pk ?bs ?d cfr ber]
      msg_then_recv [of rh v entry ?r src "pa_tag a" key per pk ?bs ?d cfr ber] assms(10,12-14,17-20) r rc rq(1) entry
    by (intro exI [of _ rq]) (auto simp: post_recv_x_def Let_def)
qed

definition engine_example :: world where
  "engine_example = (world_new 2)\<lparr>w_registry := registry_of (map (\<lambda>p. \<lparr>re_type = rh_matching_engine, re_value = 9, re_metadata = of_nat p\<rparr>) [0..<4])\<rparr>"

definition recv_example :: "tag_t \<Rightarrow> post_comm_args_t" where
  "recv_example tag = (put_args 8)\<lparr>pa_rank := 0, pa_local_buffer := 300, pa_tag := tag, pa_matching_engine := 9, pa_local_comp := 77\<rparr>"

lemma engine_example_ok:
  "heap_ok engine_example" "0 \<le> r \<Longrightarrow> r < 2 \<Longrightarrow> ep_ok r engine_example" "w_signals engine_example = []"
  "table_inv (w_engines engine_example e)" "map_pend (w_engines engine_example e) k = (\<lambda>_. [])"
  using world_new_ok(1) [of 2] world_new_ok(2) [of r 2] meng.init_inv meng.init_pend
  by (simp_all add: engine_example_def heap_ok_def ep_ok_def) (simp_all add: world_new_def)

lemma recv_example_args: "recv_args env_new ((recv_example tag)\<lparr>pa_direction := dir_IN, pa_rmr := rmr_empty, pa_remote_comp := 0\<rparr>)"
  by (simp add: recv_args_def recv_example_def put_args_def env_new_def COMP_NULL_def COMP_NULL_RETRY_def)

theorem eager_sendrecv_matched_witness:
  "\<exists>st w' rq sr v1 v2. post_send_x config_new always_accept env_new (msg_args 70000) sender_example = Inr (st, w')
     \<and> w_sent 1 w' = [rq] \<and> post_recv_x config_new always_accept env_new (recv_example 70000) engine_example = Inr (sr, v1)
     \<and> progress_recv config_new always_accept (recv_completion 0 rq 512) (with_payload 512 (req_bytes (w_mem w') rq) v1) = Inr v2
     \<and> w_signals v2 = [(77, matched_status 0 70000 3 (recv_example 70000))]
     \<and> read_bytes (w_mem v2) 300 3 = [100, 101, 102]"
proof -
  let ?a = "msg_args 70000" and ?r = "recv_example 70000"
  let ?e = "\<lparr>re_type = rh_matching_engine, re_value = 9, re_metadata = 3\<rparr>"
  obtain st w' where run: "post_send_x config_new always_accept env_new ?a sender_example = Inr (st, w')"
      and acc: "\<not> is_retry (st_error st)"
    by (simp add: post_send_x_def msg_args_def sender_example_def post_eval example_defs do_bcopy_def shm_try_def post_send_def
        mk_send_def build_packet_def new_internal_context_def Let_def get_rhandler_def)
  have rh: "(4 :: rcomp_t) = get_rhandler (pe_engine_base env_new (pa_matching_engine ?a)) (pa_matching_policy ?a)"
    by (simp add: get_rhandler_def env_new_def msg_args_def put_args_def)
  have ent: "rr_get 4 (w_registry engine_example) = Inr ?e"
    by (simp add: engine_example_def rr_get_def decode_idx_def registry_of_def array_get_def upt_rec)
  have key: "make_key 0 (pa_tag ?a) (policy_of (re_metadata ?e)) = Inr 70000"
      "make_key (pa_rank ?r) (pa_tag ?r) (recv_policy ?r) = Inr 70000"
    by (simp_all add: msg_args_def recv_example_def put_args_def policy_of_def recv_policy_def set_bits64_def ANY_SOURCE_def ANY_TAG_def)
  have mem: "read_bytes (w_mem sender_example) 100 3 = [100, 101, 102]" "w_sent 1 sender_example = []"
    by (simp_all add: sender_example_def world_new_def read_bytes_def upt_rec ep_sent_def endpoint_new_def)
  have ok: "ep_ok (pa_rank ?a) sender_example" "ep_ok (pa_rank ?r) engine_example" "pa_matching_engine ?a \<noteq> 0"
      "re_value ?e = pa_matching_engine ?r"
    using sender_example_ok engine_example_ok(2) by (simp_all add: msg_args_def recv_example_def put_args_def)
  have flds: "pa_rank ?a = 1" "pa_local_buffer ?a = 100" "pa_size ?a = 3" "pa_tag ?a = 70000" "pa_local_comp ?r = 77" "pa_local_buffer ?r = 300"
    by (simp_all add: msg_args_def recv_example_def put_args_def)
  note pair = eager_sendrecv_matched [OF always_accept_backend config_new_widths msg_args_eager(2) ok(3,1) run acc rh _ ent _ ok(4) key
      recv_example_args ok(2) engine_example_ok(1) _ engine_example_ok(4,5), of 512 config_new always_accept, simplified flds mem
      engine_example_ok(3) Let_def delivered_def]
  obtain rq sr v1 v2 where "w_sent 1 w' = [rq]" "post_recv_x config_new always_accept env_new ?r engine_example = Inr (sr, v1)"
      "progress_recv config_new always_accept (recv_completion 0 rq 512) (with_payload 512 (req_bytes (w_mem w') rq) v1) = Inr v2"
      "w_signals v2 = [(77, matched_status 0 70000 3 ?r)]" "read_bytes (w_mem v2) 300 3 = [100, 101, 102]"
    using pair by (auto simp: numeral_3_eq_3)
  with run show ?thesis by blast
qed

end
