(* ===== verification/LCI_Shm_Transport.thy ===== *)
theory LCI_Shm_Transport
  imports LCI_Posix_Ring LCI_Transfer
begin

text \<open>
  The shared-memory transport, \<^verbatim>\<open>src/shm/transport.cpp\<close> and the part of \<^verbatim>\<open>src/core/progress.cpp\<close> that drains it: how
  values are exchanged when a device is set up, which ranks share a host, which rings a rank can send to,
  and how received messages reach the progress engine.  It is shown that the exchange loses
  nothing, that all ranks agree on the topology and on whether a device comes up, and that a message
  which took the way through shared memory is processed exactly as if the network had delivered it.
\<close>

section \<open>A ring that one thread uses is a bounded queue\<close>

text \<open>\<open>ring_fifo r g ms\<close>: the region is in a state that threads can leave behind, nobody works on it, and \<open>ms\<close>
  are the messages in it.  Beside other threads there is an idle producer and an idle consumer.\<close>

definition ring_fifo :: "ring_t \<Rightarrow> region_t \<Rightarrow> msg_t list \<Rightarrow> bool" where
  "ring_fifo r g ms \<longleftrightarrow> (\<exists>s. shm_reach r s \<and> quiet s \<and> ss_region s = g \<and> ms = drop (unat (rg_consumer g)) (ss_log s)
     \<and> 0 < length (ss_prod s) \<and> (ss_prod s ! 0 = Sp_idle \<or> (\<exists>e. ss_prod s ! 0 = Sp_ret e)) \<and> 0 < length (ss_cons s) \<and> ss_cons s ! 0 = Sc_idle)"

fun sp_carries :: "shm_producer \<Rightarrow> msg_t \<Rightarrow> bool" where
  "sp_carries (Sp_load k m') m \<longleftrightarrow> m' = m"
| "sp_carries (Sp_seq k m' q) m \<longleftrightarrow> m' = m"
| "sp_carries (Sp_reload k m' q sq) m \<longleftrightarrow> m' = m"
| "sp_carries (Sp_cas k m' q) m \<longleftrightarrow> m' = m"
| "sp_carries (Sp_check m' q) m \<longleftrightarrow> m' = m"
| "sp_carries (Sp_write j m' q) m \<longleftrightarrow> m' = m"
| "sp_carries _ m \<longleftrightarrow> True"

lemma sp_step_carries:
  assumes "sp_step r w g p = Inr (g', p')" "sp_carries p m"
  shows "sp_carries p' m" "set (reserved_by p p') \<subseteq> {m}"
proof -
  have "sp_carries p' m \<and> set (reserved_by p p') \<subseteq> {m}"
  proof (cases p)
    case (Sp_load k m')
    with assms show ?thesis by (cases k) (auto split: if_splits)
  qed (use assms in \<open>auto split: if_splits\<close>)
  then show "sp_carries p' m" "set (reserved_by p p') \<subseteq> {m}" by auto
qed

lemma alone_produces:
  assumes "shm_reach r s" "0 < length (ss_prod s)" "alone (sp_step r w) n (ss_region s) (ss_prod s ! 0) = Inr (g', p')" "sp_carries (ss_prod s ! 0) m"
  shows "\<exists>l. set l \<subseteq> {m} \<and> shm_reach r (s\<lparr>ss_region := g', ss_prod := (ss_prod s)[0 := p'], ss_log := ss_log s @ l\<rparr>)"
  using assms
proof (induction n arbitrary: s)
  case 0
  then have "s\<lparr>ss_region := g', ss_prod := (ss_prod s)[0 := p'], ss_log := ss_log s @ []\<rparr> = s" by auto
  with 0 show ?case by (intro exI [of _ "[]"]) simp
next
  case (Suc n)
  from Suc.prems(3) obtain g1 p1 where st: "sp_step r w (ss_region s) (ss_prod s ! 0) = Inr (g1, p1)" "alone (sp_step r w) n g1 p1 = Inr (g', p')"
    by (auto simp: bindR_def split: sum.splits)
  let ?l = "reserved_by (ss_prod s ! 0) p1"
  let ?s = "s\<lparr>ss_region := g1, ss_prod := (ss_prod s)[0 := p1], ss_log := ss_log s @ ?l\<rparr>"
  note c = sp_step_carries [OF st(1) Suc.prems(4)]
  have "shm_reach r ?s" by (rule shm_reach.step [OF Suc.prems(1) shm_step.produce [OF Suc.prems(2) st(1)]])
  then obtain l where "set l \<subseteq> {m}" "shm_reach r (?s\<lparr>ss_region := g', ss_prod := (ss_prod ?s)[0 := p'], ss_log := ss_log ?s @ l\<rparr>)"
    using Suc.IH [of ?s] st(2) c(1) Suc.prems(2) by auto
  with c(2) show ?case by (intro exI [of _ "?l @ l"]) simp
qed

lemma alone_consumes:
  assumes "shm_reach r s" "0 < length (ss_cons s)" "alone (sc_step r w) n (ss_region s) (ss_cons s ! 0) = Inr (g', c')"
  shows "\<exists>l. shm_reach r (s\<lparr>ss_region := g', ss_cons := (ss_cons s)[0 := c'], ss_seen := l\<rparr>)"
  using assms
proof (induction n arbitrary: s)
  case 0
  then have "s\<lparr>ss_region := g', ss_cons := (ss_cons s)[0 := c'], ss_seen := ss_seen s\<rparr> = s" by auto
  with 0 show ?case by metis
next
  case (Suc n)
  from Suc.prems(3) obtain g1 c1 where st: "sc_step r w (ss_region s) (ss_cons s ! 0) = Inr (g1, c1)" "alone (sc_step r w) n g1 c1 = Inr (g', c')"
    by (auto simp: bindR_def split: sum.splits)
  let ?s = "s\<lparr>ss_region := g1, ss_cons := (ss_cons s)[0 := c1], ss_seen := ss_seen s @ shown_to g1 (ss_cons s ! 0) c1\<rparr>"
  have "shm_reach r ?s" by (rule shm_reach.step [OF Suc.prems(1) shm_step.consume [OF Suc.prems(2) st(1)]])
  then obtain l where "shm_reach r (?s\<lparr>ss_region := g', ss_cons := (ss_cons ?s)[0 := c'], ss_seen := l\<rparr>)"
    using Suc.IH [of ?s] st(2) Suc.prems(2) by auto
  then show ?case by auto
qed

lemma post_send_consumer:
  assumes "ring_post_send r w null m g = Inr (e, g')"
  shows "rg_consumer g' = rg_consumer g"
proof (cases "post_refused r null m")
  case True
  with assms show ?thesis by (simp add: ring_post_send_def)
next
  case False
  obtain e1 p g1 where res: "reserve_impl r w g (rt_producer_attempts r) = (e1, p, g1)" by (metis prod_cases3)
  show ?thesis
  proof (cases p)
    case None
    with reserve_runs(1) [OF res [unfolded None]] False assms res show ?thesis by (simp add: ring_post_send_def reserve_def)
  next
    case (Some q)
    with reserve_runs(2) [OF res [unfolded Some]] False assms res show ?thesis
      by (auto simp: ring_post_send_def reserve_def publish_def split: if_splits)
  qed
qed

lemma fifo_post:
  assumes "ring_fifo r g ms" "0 < rt_producer_attempts r" "\<not> post_refused r null m" "rg_producer g < maximum_position"
  shows "length ms < unat (rt_slot_count r) \<Longrightarrow> \<exists>g'. ring_post_send r (\<lambda>_. True) null m g = Inr (ec_done, g') \<and> ring_fifo r g' (ms @ [m])"
    "\<not> length ms < unat (rt_slot_count r) \<Longrightarrow> ring_post_send r (\<lambda>_. True) null m g = Inr (ec_retry_nomem, g)"
proof -
  obtain s where s: "shm_reach r s" "quiet s" "ss_region s = g" "ms = drop (unat (rg_consumer g)) (ss_log s)" "0 < length (ss_prod s)"
      "ss_prod s ! 0 = Sp_idle \<or> (\<exists>e. ss_prod s ! 0 = Sp_ret e)" "0 < length (ss_cons s)" "ss_cons s ! 0 = Sc_idle"
    using assms(1) by (auto simp: ring_fifo_def)
  note I = reach_inv [OF s(1)] note q = quiet_post [OF I s(2) assms(2,3)] note b = position_bounds [OF I]
  have len: "length ms = unat (rg_producer g) - unat (rg_consumer g)" using s(3,4) shm_invD(3) [OF I] by simp
  show "ring_post_send r (\<lambda>_. True) null m g = Inr (ec_retry_nomem, g)" if "\<not> length ms < unat (rt_slot_count r)"
    using q(2) that len s(3) assms(4) reserved_bound [OF I] b(3) by simp
  show "\<exists>g'. ring_post_send r (\<lambda>_. True) null m g = Inr (ec_done, g') \<and> ring_fifo r g' (ms @ [m])" if lt: "length ms < unat (rt_slot_count r)"
  proof -
    have room: "unat (rg_producer (ss_region s)) < unat (rg_consumer (ss_region s)) + unat (rt_slot_count r)"
      using lt len b(3) unfolding s(3) by linarith
    obtain g' where g': "ring_post_send r (\<lambda>_. True) null m g = Inr (ec_done, g')" "rg_producer g' = rg_producer g + 1"
      using q(1) [OF _ room] s(3) assms(4) by auto
    obtain n where n: "alone (sp_step r (\<lambda>_. True)) n g (sp_enter r null m) = Inr (g', Sp_ret ec_done)"
      using post_send_runs [of r "\<lambda>_. True" g null m] g'(1) by auto
    let ?s1 = "s\<lparr>ss_prod := (ss_prod s)[0 := sp_enter r null m]\<rparr>"
    have "shm_reach r ?s1" by (rule shm_reach.step [OF s(1) shm_step.send [OF s(5,6)]])
    moreover have "sp_carries (sp_enter r null m) m" by (simp add: sp_enter_def)
    ultimately obtain l where l: "set l \<subseteq> {m}" "shm_reach r (s\<lparr>ss_region := g', ss_prod := (ss_prod s)[0 := Sp_ret ec_done], ss_log := ss_log s @ l\<rparr>)"
      (is "shm_reach r ?s2") using alone_produces [of r ?s1 "\<lambda>_. True" n g' "Sp_ret ec_done" m] n s(3,5) by auto
    have "unat (rg_producer g + 1) = Suc (unat (rg_producer g))" using b(1) s(3) by (simp add: unat_word_ariths)
    then have "length l = 1" using shm_invD(3) [OF reach_inv [OF l(2)]] shm_invD(3) [OF I] g'(2) s(3) by simp
    then have lm: "l = [m]" using l(1) by (cases l) auto
    have "quiet ?s2" using s(2) by (auto simp: quiet_def dest!: set_update_subset_insert [THEN subsetD])
    moreover have "ms @ [m] = drop (unat (rg_consumer g')) (ss_log s @ [m])"
      using s(3,4) post_send_consumer [OF g'(1)] b(3) shm_invD(3) [OF I] by simp
    ultimately have "ring_fifo r g' (ms @ [m])" unfolding ring_fifo_def using l(2) lm s(5,7,8) by (intro exI [of _ ?s2]) simp
    with g'(1) show ?thesis by blast
  qed
qed

lemma fifo_poll_empty:
  assumes "ring_fifo r g []" "0 < rt_consumer_attempts r"
  shows "ring_poll r (\<lambda>_. True) recv_slot_empty g = Inr (False, recv_slot_empty, g)"
proof -
  obtain s where s: "shm_reach r s" "quiet s" "ss_region s = g" "[] = drop (unat (rg_consumer g)) (ss_log s)"
    using assms(1) by (auto simp: ring_fifo_def)
  note I = reach_inv [OF s(1)]
  have "rg_consumer g = rg_producer g" using s(3,4) shm_invD(3) [OF I] position_bounds(3) [OF I] by (simp add: word_unat_eq_iff)
  with quiet_poll(2) [OF I s(2) assms(2)] s(3) show ?thesis by simp
qed

text \<open>A poll and the release of what it returned take the first message out.\<close>

lemma fifo_poll:
  assumes "ring_fifo r g (m # ms)" "0 < rt_consumer_attempts r"
  obtains v g1 g2 where "ring_poll r (\<lambda>_. True) recv_slot_empty g = Inr (True, v, g1)" "view_msg g1 v = m"
    "ring_release r v g1 = Inr (True, recv_slot_empty, g2)" "ring_fifo r g2 ms" "msg_ok r m"
proof -
  obtain s where s: "shm_reach r s" "quiet s" "ss_region s = g" "m # ms = drop (unat (rg_consumer g)) (ss_log s)" "0 < length (ss_prod s)"
      "ss_prod s ! 0 = Sp_idle \<or> (\<exists>e. ss_prod s ! 0 = Sp_ret e)" "0 < length (ss_cons s)" "ss_cons s ! 0 = Sc_idle"
    using assms(1) by (auto simp: ring_fifo_def)
  note I = reach_inv [OF s(1)] note b = position_bounds [OF I]
  have cl: "unat (rg_consumer g) < length (ss_log s)"
  proof (rule ccontr)
    assume "\<not> unat (rg_consumer g) < length (ss_log s)"
    then have "drop (unat (rg_consumer g)) (ss_log s) = []" by simp
    with s(4) show False by simp
  qed
  have lt: "rg_consumer (ss_region s) < rg_producer (ss_region s)" using cl shm_invD(3) [OF I] s(3) by (simp add: word_less_nat_alt)
  have log: "ss_log s ! unat (rg_consumer g) = m" "drop (Suc (unat (rg_consumer g))) (ss_log s) = ms"
    using trans [OF Cons_nth_drop_Suc [OF cl] s(4) [symmetric]] by simp_all
  have ok: "msg_ok r m" using shm_invD(6) [OF I nth_mem [OF cl]] log(1) by simp
  obtain v g1 where p: "ring_poll r (\<lambda>_. True) recv_slot_empty g = Inr (True, v, g1)" "view_msg g1 v = m"
    using quiet_poll(1) [OF I s(2) assms(2) lt] s(3) log(1) by auto
  have pa: "poll_attempts r (\<lambda>_. True) recv_slot_empty g (rt_consumer_attempts r) = Inr (True, v, g1)"
    using p(1) by (simp add: ring_poll_def recv_slot_empty_def)
  obtain n where n: "alone (sc_step r (\<lambda>_. True)) n g (Sc_load (rt_consumer_attempts r)) = Inr (g1, Sc_view v)"
    using poll_runs [of r "\<lambda>_. True" g "rt_consumer_attempts r" recv_slot_empty] pa by auto
  have c1: "rg_consumer g1 = rg_consumer g + 1" and pos: "rv_position v = rg_consumer g"
    using pa assms(2) by (cases "rt_consumer_attempts r"; auto simp: Let_def view_of_def split: if_splits)+
  have u1: "unat (rg_consumer g + 1) = Suc (unat (rg_consumer g))" using b(2) s(3) by (simp add: unat_word_ariths)
  have "shm_reach r (s\<lparr>ss_cons := (ss_cons s)[0 := Sc_load (rt_consumer_attempts r)]\<rparr>)" (is "shm_reach r ?s1")
    by (rule shm_reach.step [OF s(1) shm_step.poll [OF s(7,8)]])
  then obtain l where "shm_reach r (s\<lparr>ss_region := g1, ss_cons := (ss_cons s)[0 := Sc_view v], ss_seen := l\<rparr>)" (is "shm_reach r ?s2")
    using alone_consumes [of r ?s1 "\<lambda>_. True" n g1 "Sc_view v"] n s(3,7) by auto
  note r2 = this
  have "view_ok r g1 v" using shm_invD(9) [OF reach_inv [OF r2], of "Sc_view v"] s(7) by (simp add: set_update_memI)
  note vo = view_okD [OF this]
  define g2 where "g2 = give_back r (rv_position v) g1"
  have rel: "ring_release r v g1 = Inr (True, recv_slot_empty, g2)" using vo(2,3) by (simp add: ring_release_def g2_def)
  have r3: "shm_reach r (?s2\<lparr>ss_cons := (ss_cons ?s2)[0 := Sc_check v]\<rparr>)" (is "shm_reach r ?s3")
    by (rule shm_reach.step [OF r2 shm_step.release]) (use s(7) in simp_all)
  have "alone (sc_step r (\<lambda>_. True)) 2 g1 (Sc_check v) = Inr (g2, Sc_idle)" using release_runs [OF vo(3)] rel by simp
  then obtain l' where r4: "shm_reach r (s\<lparr>ss_region := g2, ss_cons := (ss_cons s)[0 := Sc_idle], ss_seen := l'\<rparr>)" (is "shm_reach r ?s4")
    using alone_consumes [OF r3, of "\<lambda>_. True" 2 g2 Sc_idle] s(7) by auto
  have c2: "rg_consumer g2 = rg_consumer g + 1" using c1 by (simp add: g2_def give_back_def)
  have "quiet ?s4" using s(2) by (auto simp: quiet_def dest!: set_update_subset_insert [THEN subsetD])
  then have "ring_fifo r g2 ms"
    unfolding ring_fifo_def using r4 c2 u1 log(2) s(5-7) by (intro exI [of _ ?s4]) simp
  with p rel ok that show ?thesis by blast
qed

section \<open>The exchange of values\<close>

definition LCT_PMI_STRING_LIMIT :: nat where "LCT_PMI_STRING_LIMIT = 255"

definition pmi_max_binary_bytes :: nat where "pmi_max_binary_bytes = (LCT_PMI_STRING_LIMIT - 1) div 2"

function round_down_loop :: "nat \<Rightarrow> nat \<Rightarrow> nat" where
  "round_down_loop v rounded = (if 0 < rounded \<and> rounded \<le> v div 2 then round_down_loop v (rounded * 2) else rounded)"
  by auto
termination by (relation "measure (\<lambda>(v, rounded). v - rounded)") auto

declare round_down_loop.simps [simp del]

text \<open>The argument is a \<^verbatim>\<open>size_t\<close>; doubling does not overflow because the result is at most the argument.\<close>

definition round_down_to_power_of_two :: "u64 \<Rightarrow> u64" where
  "round_down_to_power_of_two v = (let rounded = round_down_loop (unat v) 1 in if v = 0 then 0 else of_nat rounded)"

definition hex_digits :: string where "hex_digits = ''0123456789abcdef''"

definition hex_value :: "char \<Rightarrow> u8 res" where
  "hex_value c =
     (let n = of_char c :: nat in
      if of_char (CHR ''0'') \<le> n \<and> n \<le> of_char (CHR ''9'') then Inr (of_nat (n - of_char (CHR ''0'')))
      else if of_char (CHR ''a'') \<le> n \<and> n \<le> of_char (CHR ''f'') then Inr (of_nat (n - of_char (CHR ''a'') + 10))
      else Inl Assert_failed)"

definition encode_pmi_value :: "u8 list \<Rightarrow> string res" where
  "encode_pmi_value bytes =
     bindR (lci_assert (length bytes \<le> pmi_max_binary_bytes)) (\<lambda>_.
     Inr (concat (map (\<lambda>b. [hex_digits ! unat (drop_bit 4 b), hex_digits ! unat (b AND 0xf)]) bytes)))"

fun decode_hex :: "string \<Rightarrow> u8 list res" where
  "decode_hex (h # l # cs) = bindR (hex_value h) (\<lambda>a. bindR (hex_value l) (\<lambda>b. bindR (decode_hex cs) (\<lambda>bs.
     Inr ((push_bit 4 a OR b) # bs))))"
| "decode_hex _ = Inr []"

definition decode_pmi_value :: "string \<Rightarrow> nat \<Rightarrow> u8 list res" where
  "decode_pmi_value input sz = bindR (lci_assert (length input = 2 * sz)) (\<lambda>_. decode_hex input)"

text \<open>The process management interface keeps the strings that the ranks publish.  A key that was not published
  leaves the buffer, which was cleared, as it is.\<close>

definition pmi_key :: "int \<Rightarrow> int \<Rightarrow> string" where
  "pmi_key round rank = ''LCI_SHM_'' @ print_d round @ ''_'' @ print_d rank"

definition pmi_publish :: "int \<Rightarrow> int \<Rightarrow> u8 list \<Rightarrow> (string \<rightharpoonup> string) \<Rightarrow> (string \<rightharpoonup> string) res" where
  "pmi_publish round rank send_value kvs = bindR (encode_pmi_value send_value) (\<lambda>v. Inr (kvs(pmi_key round rank \<mapsto> v)))"

fun pmi_collect :: "int \<Rightarrow> nat \<Rightarrow> int list \<Rightarrow> (string \<rightharpoonup> string) \<Rightarrow> u8 list list res" where
  "pmi_collect round sz [] kvs = Inr []"
| "pmi_collect round sz (peer # peers) kvs =
     bindR (decode_pmi_value (case kvs (pmi_key round peer) of None \<Rightarrow> [] | Some v \<Rightarrow> v) sz) (\<lambda>v.
     bindR (pmi_collect round sz peers kvs) (\<lambda>vs. Inr (v # vs)))"

text \<open>All ranks publish, in any order, before the barrier.\<close>

fun pmi_publish_all :: "int \<Rightarrow> (int \<times> u8 list) list \<Rightarrow> (string \<rightharpoonup> string) \<Rightarrow> (string \<rightharpoonup> string) res" where
  "pmi_publish_all round [] kvs = Inr kvs"
| "pmi_publish_all round ((rank, v) # rest) kvs = bindR (pmi_publish round rank v kvs) (pmi_publish_all round rest)"

lemma hex_value_digit:
  assumes "d < 16"
  shows "hex_value (hex_digits ! d) = Inr (of_nat d)"
proof -
  have "d = 0 \<or> d = 1 \<or> d = 2 \<or> d = 3 \<or> d = 4 \<or> d = 5 \<or> d = 6 \<or> d = 7 \<or> d = 8 \<or> d = 9 \<or> d = 10 \<or> d = 11 \<or> d = 12 \<or> d = 13
      \<or> d = 14 \<or> d = 15" using assms by presburger
  then show ?thesis by (elim disjE) (simp_all add: hex_value_def hex_digits_def of_char_def)
qed

lemma nibbles: "push_bit 4 (drop_bit 4 b) OR (b AND 0xf) = (b :: u8)"
proof -
  have "b AND 0xf = take_bit 4 b" by (simp add: take_bit_eq_mask mask_eq_exp_minus_1)
  moreover have "push_bit 4 (drop_bit 4 b) OR take_bit 4 b = b" by (rule bit_eqI) (auto simp: bit_simps not_le)
  ultimately show ?thesis by (simp only:)
qed

lemma decode_encode_hex:
  "decode_hex (concat (map (\<lambda>b. [hex_digits ! unat (drop_bit 4 b), hex_digits ! unat (b AND 0xf)]) bytes)) = Inr bytes"
proof (induction bytes)
  case (Cons b bytes)
  have "unat (drop_bit 4 b) < 16" using unsigned_less [of b, where ?'a = nat] by (simp add: drop_bit_eq_div unat_div)
  moreover have "unat (b AND 0xf) < 16"
  proof -
    have "b AND 0xf = take_bit 4 b" by (simp add: take_bit_eq_mask mask_eq_exp_minus_1)
    moreover have "unat (take_bit 4 b) < 2 ^ 4" unfolding unsigned_take_bit_eq by (rule take_bit_nat_less_exp)
    ultimately show ?thesis by simp
  qed
  ultimately show ?case using Cons hex_value_digit nibbles by simp
qed simp

lemma pmi_value_roundtrip:
  assumes "length bytes \<le> pmi_max_binary_bytes"
  shows "\<exists>v. encode_pmi_value bytes = Inr v \<and> length v < LCT_PMI_STRING_LIMIT \<and> decode_pmi_value v (length bytes) = Inr bytes"
proof -
  let ?v = "concat (map (\<lambda>b. [hex_digits ! unat (drop_bit 4 b), hex_digits ! unat (b AND 0xf)]) bytes)"
  have len: "length ?v = 2 * length bytes" by (induction bytes) simp_all
  with assms decode_encode_hex show ?thesis
    by (auto simp: encode_pmi_value_def decode_pmi_value_def pmi_max_binary_bytes_def LCT_PMI_STRING_LIMIT_def)
qed

lemma digit_no_underscore: "0 \<le> i \<Longrightarrow> CHR ''_'' \<notin> set (print_d i)"
proof
  assume "0 \<le> i" "CHR ''_'' \<in> set (print_d i)"
  then have "CHR ''_'' \<in> set dec_digits" using print_d_nonneg_chars [of i] by blast
  then show False by (simp add: dec_digits_def)
qed

lemma pmi_key_inj: "pmi_key round rank = pmi_key round rank' \<Longrightarrow> rank = rank'"
  by (auto simp: pmi_key_def intro: print_d_inj)

lemma publish_all_keys:
  assumes "\<forall>(rank, v)\<in>set rvs. length v \<le> pmi_max_binary_bytes" "distinct (map fst rvs)"
  shows "\<exists>kvs'. pmi_publish_all round rvs kvs = Inr kvs'
    \<and> (\<forall>(rank, v)\<in>set rvs. \<exists>e. kvs' (pmi_key round rank) = Some e \<and> encode_pmi_value v = Inr e)
    \<and> (\<forall>k. k \<notin> pmi_key round ` fst ` set rvs \<longrightarrow> kvs' k = kvs k)"
  using assms
proof (induction rvs arbitrary: kvs)
  case (Cons x rvs)
  obtain rank v where x: "x = (rank, v)" by (cases x)
  then obtain e where e: "encode_pmi_value v = Inr e" using pmi_value_roundtrip [of v] Cons.prems(1) by auto
  obtain kvs' where k: "pmi_publish_all round rvs (kvs(pmi_key round rank \<mapsto> e)) = Inr kvs'"
    "\<forall>(rank, v)\<in>set rvs. \<exists>e. kvs' (pmi_key round rank) = Some e \<and> encode_pmi_value v = Inr e"
    "\<forall>k. k \<notin> pmi_key round ` fst ` set rvs \<longrightarrow> kvs' k = (kvs(pmi_key round rank \<mapsto> e)) k"
  proof -
    have "\<forall>(rank, v)\<in>set rvs. length v \<le> pmi_max_binary_bytes" "distinct (map fst rvs)" using Cons.prems by auto
    from Cons.IH [OF this, of "kvs(pmi_key round rank \<mapsto> e)"] show ?thesis by (elim exE conjE) (rule that)
  qed
  have "pmi_key round rank \<notin> pmi_key round ` fst ` set rvs"
  proof
    assume "pmi_key round rank \<in> pmi_key round ` fst ` set rvs"
    then have "rank \<in> fst ` set rvs" using pmi_key_inj by (metis imageE)
    with Cons.prems(2) x show False by simp
  qed
  with k(3) have own: "kvs' (pmi_key round rank) = Some e" by simp
  have "pmi_publish_all round (x # rvs) kvs = Inr kvs'" using x e k(1) by (simp add: pmi_publish_def)
  moreover have "\<forall>(rank, v)\<in>set (x # rvs). \<exists>e. kvs' (pmi_key round rank) = Some e \<and> encode_pmi_value v = Inr e"
    using x own e k(2) by simp
  moreover have "\<forall>k. k \<notin> pmi_key round ` fst ` set (x # rvs) \<longrightarrow> kvs' k = kvs k" using x k(3) by simp
  ultimately show ?case by blast
qed simp

text \<open>What the ranks publish is what every rank collects.\<close>

lemma allgather_exact:
  assumes "\<forall>v\<in>set vs. length v = sz" "sz \<le> pmi_max_binary_bytes"
    and "distinct order" "set order = set (map int [0..<length vs])"
  shows "\<exists>kvs'. pmi_publish_all round (map (\<lambda>rank. (rank, vs ! nat rank)) order) kvs = Inr kvs'
    \<and> pmi_collect round sz (map int [0..<length vs]) kvs' = Inr vs"
proof -
  let ?rvs = "map (\<lambda>rank. (rank, vs ! nat rank)) order"
  have len: "\<forall>(rank, v)\<in>set ?rvs. length v \<le> pmi_max_binary_bytes" using assms by auto
  have "distinct (map fst ?rvs)" using assms(3) by (simp add: comp_def)
  from publish_all_keys [OF len this, of round kvs] obtain kvs' where k: "pmi_publish_all round ?rvs kvs = Inr kvs'"
    "\<forall>(rank, v)\<in>set ?rvs. \<exists>e. kvs' (pmi_key round rank) = Some e \<and> encode_pmi_value v = Inr e" by (elim exE conjE)
  have got: "decode_pmi_value (case kvs' (pmi_key round (int i)) of None \<Rightarrow> [] | Some v \<Rightarrow> v) sz = Inr (vs ! i)" if "i < length vs" for i
  proof -
    have "int i \<in> set order" using that assms(4) by auto
    then have "(int i, vs ! i) \<in> set ?rvs" unfolding set_map by (rule rev_image_eqI) simp
    from bspec [OF k(2) this] obtain e where "kvs' (pmi_key round (int i)) = Some e" "encode_pmi_value (vs ! i) = Inr e" by auto
    with pmi_value_roundtrip [of "vs ! i"] assms(1,2) that show ?thesis by auto
  qed
  have "pmi_collect round sz (map int is) kvs' = Inr (map ((!) vs) is)" if "\<forall>i\<in>set is. i < length vs" for "is"
    using that got by (induction "is") simp_all
  from this [of "[0..<length vs]"] have "pmi_collect round sz (map int [0..<length vs]) kvs' = Inr vs" by (simp add: map_nth)
  with k(1) show ?thesis by blast
qed

lemma round_down_power: "\<exists>k. rounded = 2 ^ k \<Longrightarrow> \<exists>k. round_down_loop v rounded = 2 ^ k"
proof (induction v rounded rule: round_down_loop.induct)
  case (1 v rounded)
  show ?case
  proof (cases "0 < rounded \<and> rounded \<le> v div 2")
    case True
    moreover have "\<exists>k. rounded * 2 = 2 ^ k" using 1(2) by (metis mult.commute power_Suc)
    ultimately show ?thesis using 1(1) by (subst round_down_loop.simps) simp
  qed (subst round_down_loop.simps, use 1(2) in auto)
qed

lemma round_down_bounds: "0 < rounded \<Longrightarrow> rounded \<le> v \<Longrightarrow> round_down_loop v rounded \<le> v \<and> v < 2 * round_down_loop v rounded"
proof (induction v rounded rule: round_down_loop.induct)
  case (1 v rounded)
  show ?case
  proof (cases "rounded \<le> v div 2")
    case True
    with 1 show ?thesis by (subst (1 2) round_down_loop.simps) auto
  qed (subst (1 2) round_down_loop.simps, use 1(2,3) in auto)
qed

text \<open>The largest power of two that is at most the argument.\<close>

lemma round_down_spec:
  assumes "v \<noteq> 0"
  shows "\<exists>k. unat (round_down_to_power_of_two v) = 2 ^ k \<and> 2 ^ k \<le> unat v \<and> unat v < 2 * 2 ^ k"
proof -
  obtain k where k: "round_down_loop (unat v) 1 = 2 ^ k" using round_down_power [of 1 "unat v"] by (metis power_0)
  have b: "2 ^ k \<le> unat v" "unat v < 2 * 2 ^ k" using round_down_bounds [of 1 "unat v"] k assms by (auto simp: unat_gt_0 Suc_le_eq)
  have "2 ^ k < (2 :: nat) ^ 64" using b(1) unsigned_less [of v, where ?'a = nat] by simp
  then have "unat (of_nat (2 ^ k) :: u64) = 2 ^ k" by (subst unat_of_nat) simp
  with k b assms show ?thesis by (auto simp: round_down_to_power_of_two_def)
qed

section \<open>Who shares a host\<close>

record shm_context_t =
  sx_enabled :: bool
  sx_global_rank :: int
  sx_global_size :: int
  sx_local_rank :: int
  sx_local_size :: int
  sx_global_to_local :: "int list"
  sx_local_to_global :: "int list"
  sx_job_nonce :: "u64 \<times> u64"

text \<open>One rank of the loop over the hosts.\<close>

definition locality_step :: "string \<Rightarrow> (bool \<times> string) list \<Rightarrow> int \<Rightarrow> shm_context_t \<Rightarrow> shm_context_t" where
  "locality_step my_host records rank c =
     (if my_host = snd (records ! nat rank) then
        let local_rank = int (length (sx_local_to_global c));
            c = c\<lparr>sx_global_to_local := (sx_global_to_local c)[nat rank := local_rank],
                  sx_local_to_global := sx_local_to_global c @ [rank]\<rparr> in
        if rank = sx_global_rank c then c\<lparr>sx_local_rank := local_rank\<rparr> else c
      else c)"

text \<open>The nonce is the one that rank 0 drew and broadcast; a record is whether \<^verbatim>\<open>gethostname\<close> gave a terminated name, and
  the name.\<close>

definition alloc_context :: "bool \<Rightarrow> int \<Rightarrow> int \<Rightarrow> u64 \<times> u64 \<Rightarrow> string \<Rightarrow> (bool \<times> string) list \<Rightarrow> shm_context_t res" where
  "alloc_context enable rank nranks nonce my_host records =
     (let c = \<lparr>sx_enabled = enable, sx_global_rank = rank, sx_global_size = nranks, sx_local_rank = -1, sx_local_size = 0,
               sx_global_to_local = replicate (nat nranks) (-1), sx_local_to_global = [], sx_job_nonce = (0, 0)\<rparr> in
      if nranks \<le> 0 then Inr c
      else
        let c = c\<lparr>sx_job_nonce := nonce\<rparr> in
        if \<not> list_all fst records
        then Inl (Thrown ''SHM locality discovery failed: gethostname did not succeed on all ranks'')
        else
          let c = fold (locality_step my_host records) (map int [0..<nat nranks]) c;
              c = c\<lparr>sx_local_size := int (length (sx_local_to_global c))\<rparr> in
          if sx_local_rank c < 0 then Inl (Thrown ''SHM locality discovery failed to identify the local rank'')
          else Inr c)"

text \<open>The ranks of a host, in order, and the place of a rank among them.\<close>

definition host_ranks :: "string \<Rightarrow> (bool \<times> string) list \<Rightarrow> nat \<Rightarrow> int list" where
  "host_ranks host records k = map int (filter (\<lambda>i. snd (records ! i) = host) [0..<k])"

lemma host_ranks_Suc:
  "host_ranks host records (Suc k) = host_ranks host records k @ (if snd (records ! k) = host then [int k] else [])"
  by (simp add: host_ranks_def)

lemma host_ranks_mem: "x \<in> set (host_ranks host records k) \<longleftrightarrow> (\<exists>i<k. x = int i \<and> snd (records ! i) = host)"
  by (auto simp: host_ranks_def)

lemma host_ranks_distinct: "distinct (host_ranks host records k)"
  by (simp add: host_ranks_def distinct_map)

lemma host_ranks_nth:
  "i < k \<Longrightarrow> snd (records ! i) = host \<Longrightarrow> length (host_ranks host records i) < length (host_ranks host records k)
     \<and> host_ranks host records k ! length (host_ranks host records i) = int i"
proof (induction k)
  case (Suc k)
  then show ?case by (cases "i = k") (auto simp: host_ranks_Suc nth_append less_Suc_eq)
qed simp

lemma locality_loop:
  fixes my_host :: string and records :: "(bool \<times> string) list"
  assumes "k \<le> n" "0 \<le> rank" "c0 = \<lparr>sx_enabled = e, sx_global_rank = rank, sx_global_size = int n, sx_local_rank = -1, sx_local_size = 0,
     sx_global_to_local = replicate n (-1), sx_local_to_global = [], sx_job_nonce = nonce\<rparr>"
  shows "fold (locality_step my_host records) (map int [0..<k]) c0 =
    c0\<lparr>sx_local_to_global := host_ranks my_host records k,
       sx_global_to_local := map (\<lambda>i. if i < k \<and> snd (records ! i) = my_host then int (length (host_ranks my_host records i)) else -1) [0..<n],
       sx_local_rank := (if rank < int k \<and> snd (records ! nat rank) = my_host then int (length (host_ranks my_host records (nat rank))) else -1)\<rparr>"
  using assms(1)
proof (induction k)
  case 0
  have "map (\<lambda>i. if i < 0 \<and> snd (records ! i) = my_host then int (length (host_ranks my_host records i)) else -1) [0..<n] = replicate n (-1 :: int)"
    by (rule nth_equalityI) simp_all
  then show ?case using assms(2,3) by (simp add: host_ranks_def)
next
  case (Suc k)
  let ?g = "\<lambda>k. map (\<lambda>i. if i < k \<and> snd (records ! i) = my_host then int (length (host_ranks my_host records i)) else -1) [0..<n]"
  have g: "?g (Suc k) = (if snd (records ! k) = my_host then (?g k)[k := int (length (host_ranks my_host records k))] else ?g k)"
    by (rule nth_equalityI) (auto simp: nth_list_update less_Suc_eq)
  have r: "rank < int (Suc k) \<longleftrightarrow> rank < int k \<or> rank = int k" by auto
  have "fold (locality_step my_host records) (map int [0..<Suc k]) c0
      = locality_step my_host records (int k) (fold (locality_step my_host records) (map int [0..<k]) c0)" by simp
  also have "\<dots> = c0\<lparr>sx_local_to_global := host_ranks my_host records (Suc k), sx_global_to_local := ?g (Suc k),
       sx_local_rank := (if rank < int (Suc k) \<and> snd (records ! nat rank) = my_host then int (length (host_ranks my_host records (nat rank))) else -1)\<rparr>"
    unfolding Suc.IH [OF Suc_leD [OF Suc.prems]] g r using assms(3)
    by (auto simp: locality_step_def host_ranks_Suc Let_def)
  finally show ?case .
qed

text \<open>C21.  The ranks of a job that discover their hosts from the same records agree: every rank ends with
  the ranks of its host in increasing order, so ranks that share a host hold the same list; the two
  tables are inverse to each other; and each rank finds itself at its place.\<close>

theorem shm_topology_agreed:
  assumes "length records = n" "list_all fst records" "rank < n"
  shows "\<exists>c. alloc_context enable (int rank) (int n) nonce (snd (records ! rank)) records = Inr c
    \<and> sx_local_to_global c = host_ranks (snd (records ! rank)) records n
    \<and> sx_local_size c = int (length (sx_local_to_global c))
    \<and> 0 \<le> sx_local_rank c \<and> sx_local_rank c < sx_local_size c \<and> sx_local_to_global c ! nat (sx_local_rank c) = int rank
    \<and> (\<forall>peer<n. if snd (records ! peer) = snd (records ! rank)
         then 0 \<le> sx_global_to_local c ! peer \<and> sx_local_to_global c ! nat (sx_global_to_local c ! peer) = int peer
         else sx_global_to_local c ! peer = -1)"
proof -
  let ?h = "snd (records ! rank)"
  define c0 where "c0 = \<lparr>sx_enabled = enable, sx_global_rank = int rank, sx_global_size = int n, sx_local_rank = -1, sx_local_size = 0,
     sx_global_to_local = replicate n (-1), sx_local_to_global = [], sx_job_nonce = nonce\<rparr>"
  note loop = locality_loop [OF order_refl [of n] _ c0_def, of ?h records]
  have "0 < n" using assms(3) by simp
  then show ?thesis
    using assms(2,3) loop host_ranks_nth [of _ n records ?h]
    by (simp add: alloc_context_def Let_def c0_def [symmetric])
qed

theorem shm_topology_agreed_witness:
  "\<exists>c. alloc_context True 2 3 (1, 2) ''b'' [(True, ''b''), (True, ''a''), (True, ''b'')] = Inr c
    \<and> sx_local_to_global c = [0, 2] \<and> sx_local_to_global c ! nat (sx_local_rank c) = 2"
  using shm_topology_agreed [of "[(True, ''b''), (True, ''a''), (True, ''b'')]" 3 2 True "(1, 2)"]
  by (auto simp: host_ranks_def upt_rec)

section \<open>The device\<close>

record shm_device_t =
  sd_context :: "shm_context_t option"
  sd_enabled :: bool
  sd_uid :: u64
  sd_slot_count :: u64
  sd_slot_size :: u64
  sd_max_message_size :: u64
  sd_owner :: "mapping_t option"
  sd_peer_mappings :: "mapping_t option list"
  sd_routes :: "ring_t option list"

definition expected_ring :: "int \<Rightarrow> shm_context_t \<Rightarrow> u64 \<Rightarrow> int \<Rightarrow> u64 \<Rightarrow> u64 \<Rightarrow> u64 \<Rightarrow> posix_ring_expected_t" where
  "expected_ring page c device_uid owner slot_count slot_size max_message_size =
     \<lparr>px_owner = owner, px_device_uid = device_uid, px_mapping_size = posix_ring_mapping_size page slot_count slot_size,
      px_slot_count = slot_count, px_slot_size = slot_size, px_max_message_size = max_message_size,
      px_name = make_posix_ring_name (sx_job_nonce c) device_uid owner\<rparr>"

lemma expected_ring_expects:
  "expected_ring page c uid owner n sz mx = expects page (make_posix_ring_name (sx_job_nonce c) uid owner) owner uid n sz mx"
  by (simp add: expected_ring_def expects_def)

text \<open>What a rank computes before it talks to others: the number of slots, the largest message, and the error if
  there is one.  \<^verbatim>\<open>packet_payload\<close> is \<open>None\<close> if the core device has no packet pool.\<close>

definition device_geometry :: "u64 option \<Rightarrow> u64 \<Rightarrow> u64 \<Rightarrow> nat \<Rightarrow> nat \<Rightarrow> string + u64 \<times> u64" where
  "device_geometry packet_payload ring_size slot_size producer_attempts consumer_attempts =
     (case packet_payload of
        None \<Rightarrow> Inl ''core device packet pool is unavailable''
      | Some payload \<Rightarrow>
          if slot_size = 0 \<or> ring_size < slot_size \<or> producer_attempts = 0 \<or> consumer_attempts = 0 \<or> slot_size mod cache_line \<noteq> 0
          then Inl ''invalid slot/ring settings''
          else
            let slot_count = round_down_to_power_of_two (ring_size div slot_size);
                capacity = payload_capacity slot_size in
            if slot_count = 0 \<or> required_size slot_count slot_size = 0 \<or> capacity = 0 then Inl ''invalid ring geometry''
            else
              let effective_max = min capacity payload in
              if effective_max = 0 then Inl ''packet payload capacity is zero'' else Inr (slot_count, effective_max))"

text \<open>The surroundings of one rank: its page size and system calls, the handles and rings of the others, and
  the state they report.\<close>

record shm_env =
  se_page :: int
  se_calls :: "int \<Rightarrow> os_calls"
  se_raw :: "nat \<Rightarrow> u8 list"
  se_handles :: "posix_ring_handle_t list"
  se_mems :: "int \<Rightarrow> region_t"
  se_status :: "bool list"

text \<open>The loop over the local peers; it stops at the first that cannot be attached.\<close>

fun attach_peers :: "shm_env \<Rightarrow> shm_context_t \<Rightarrow> nat \<Rightarrow> nat \<Rightarrow> int list \<Rightarrow> shm_device_t \<Rightarrow> shm_os \<Rightarrow> ((bool \<times> shm_device_t) res) \<times> shm_os" where
  "attach_peers se c pa ca [] d os = (Inr (True, d), os)"
| "attach_peers se c pa ca (peer # peers) d os =
     (if peer = sx_global_rank c then attach_peers se c pa ca peers d os
      else case peer_attach (se_page se) (se_calls se peer) (se_mems se peer) (se_handles se ! nat peer)
                  (expected_ring (se_page se) c (sd_uid d) peer (sd_slot_count d) (sd_slot_size d) (sd_max_message_size d)) pa ca os of
          (Inl e, os) \<Rightarrow> (Inl e, os)
        | (Inr (Inl _), os) \<Rightarrow> (Inr (False, d), os)
        | (Inr (Inr m), os) \<Rightarrow>
            attach_peers se c pa ca peers
              (d\<lparr>sd_routes := (sd_routes d)[nat peer := Some (mp_ring m)],
                 sd_peer_mappings := (sd_peer_mappings d)[nat peer := Some m]\<rparr>) os)"

definition clear_device :: "shm_device_t \<Rightarrow> shm_os \<Rightarrow> shm_os" where
  "clear_device d os =
     (let os = fold (\<lambda>m os. case m of None \<Rightarrow> os | Some m \<Rightarrow> peer_destroy m os) (sd_peer_mappings d) os in
      case sd_owner d of None \<Rightarrow> os | Some m \<Rightarrow> owner_destroy m os)"

definition device_new :: "shm_context_t option \<Rightarrow> shm_device_t" where
  "device_new c = \<lparr>sd_context = c, sd_enabled = False, sd_uid = 0, sd_slot_count = 0, sd_slot_size = 0, sd_max_message_size = 0,
     sd_owner = None, sd_peer_mappings = [], sd_routes = []\<rparr>"

text \<open>Up to the exchange of the handles: the device with the rank's own ring, and whether all went well so far.\<close>

definition device_begin :: "shm_env \<Rightarrow> shm_context_t \<Rightarrow> u64 option \<Rightarrow> u64 \<Rightarrow> u64 \<Rightarrow> nat \<Rightarrow> nat \<Rightarrow> u64 \<Rightarrow> shm_os
    \<Rightarrow> ((bool \<times> shm_device_t) res) \<times> shm_os" where
  "device_begin se c packet_payload ring_size slot_size pa ca device_uid os =
     (let has_local_peers = sx_local_size c > 1;
          geo = (if has_local_peers then device_geometry packet_payload ring_size slot_size pa ca else Inr (0, 0));
          (slot_count, effective_max) = (case geo of Inl _ \<Rightarrow> (0, 0) | Inr p \<Rightarrow> p);
          local_init_ok = ((\<exists>p. geo = Inr p) \<and> device_uid \<noteq> 0);
          d = (device_new (Some c))\<lparr>sd_uid := device_uid, sd_slot_count := slot_count, sd_slot_size := slot_size,
                 sd_max_message_size := effective_max, sd_peer_mappings := replicate (nat (sx_global_size c)) None,
                 sd_routes := replicate (nat (sx_global_size c)) None\<rparr> in
      if has_local_peers \<and> local_init_ok then
        (case owner_create (se_page se) (se_calls se (sx_global_rank c)) (se_raw se) (make_posix_ring_name (sx_job_nonce c) device_uid (sx_global_rank c))
                (sx_global_rank c) device_uid slot_count slot_size effective_max pa ca os of
           (Inl e, os) \<Rightarrow> (Inl e, os)
         | (Inr (Inl _), os) \<Rightarrow> (Inr (False, d), os)
         | (Inr (Inr (m, _)), os) \<Rightarrow>
             (Inr (True, d\<lparr>sd_owner := Some m, sd_routes := (sd_routes d)[nat (sx_global_rank c) := Some (mp_ring m)]\<rparr>), os))
      else (Inr (local_init_ok, d), os))"

text \<open>From the exchange of the handles on.  The device comes up only if every rank reports that it is ready.\<close>

definition device_finish :: "bool list \<Rightarrow> shm_context_t \<Rightarrow> bool \<Rightarrow> shm_device_t \<Rightarrow> bool \<Rightarrow> shm_os \<Rightarrow> shm_device_t res \<times> shm_os" where
  "device_finish recv_status c unlink_ok d has_local_peers os =
     (if \<not> list_all (\<lambda>status. status) recv_status
      then (Inl (Thrown ''SHM device initialization failed''), clear_device d os)
      else
        let (d, os) = (case sd_owner d of
              None \<Rightarrow> (d, os)
            | Some m \<Rightarrow> (case unlink_name unlink_ok m os of (_, m, os) \<Rightarrow> (d\<lparr>sd_owner := Some m\<rparr>, os))) in
        (Inr (d\<lparr>sd_enabled := has_local_peers\<rparr>), os))"

definition alloc_device :: "shm_env \<Rightarrow> shm_context_t option \<Rightarrow> u64 option \<Rightarrow> bool \<Rightarrow> u64 \<Rightarrow> u64 \<Rightarrow> nat \<Rightarrow> nat \<Rightarrow> u64 \<Rightarrow> bool \<Rightarrow> shm_os
    \<Rightarrow> shm_device_t res \<times> shm_os" where
  "alloc_device se context packet_payload enable ring_size slot_size pa ca device_uid unlink_ok os =
     (case context of
        None \<Rightarrow> (Inr (device_new context), os)
      | Some c \<Rightarrow>
          if \<not> enable \<or> \<not> sx_enabled c \<or> sx_global_size c \<le> 0 then (Inr (device_new context), os)
          else case device_begin se c packet_payload ring_size slot_size pa ca device_uid os of
            (Inl e, os) \<Rightarrow> (Inl e, os)
          | (Inr (ok, d), os) \<Rightarrow>
              (case (if ok then attach_peers se c pa ca (take (nat (sx_local_size c)) (sx_local_to_global c)) d os else (Inr (False, d), os)) of
                 (Inl e, os) \<Rightarrow> (Inl e, os)
               | (Inr (ok, d), os) \<Rightarrow> device_finish (se_status se) c unlink_ok d (sx_local_size c > 1) os))"

definition free_device :: "shm_device_t option \<Rightarrow> shm_os \<Rightarrow> shm_os" where
  "free_device d os = (case d of None \<Rightarrow> os | Some d \<Rightarrow> clear_device d os)"

section \<open>Sending and receiving\<close>

definition is_enabled :: "shm_device_t option \<Rightarrow> bool" where
  "is_enabled d = (case d of None \<Rightarrow> False | Some d \<Rightarrow> sd_enabled d)"

definition can_send :: "shm_device_t option \<Rightarrow> int \<Rightarrow> nat \<Rightarrow> bool res" where
  "can_send d rank sz =
     (if \<not> is_enabled d then Inr False
      else case d of
        None \<Rightarrow> Inr False
      | Some d \<Rightarrow> (case sd_context d of
            None \<Rightarrow> Inl (Thrown ''shm context p_impl is nullptr!'')
          | Some c \<Rightarrow> Inr (rank \<ge> 0 \<and> rank < sx_global_size c \<and> sz \<le> unat (sd_max_message_size d) \<and> sd_routes d ! nat rank \<noteq> None)))"

text \<open>A sender that does not take a retry repeats an attempt that lost to others; \<open>None\<close> if the attempts whose
  outcome is given do not suffice.\<close>

fun shm_post_loop :: "ring_t \<Rightarrow> (nat \<Rightarrow> bool) list \<Rightarrow> bool \<Rightarrow> bool \<Rightarrow> msg_t \<Rightarrow> region_t \<Rightarrow> (errorcode_t \<times> region_t) res option" where
  "shm_post_loop r [] allow_retry null m g = None"
| "shm_post_loop r (w # ws) allow_retry null m g =
     (case ring_post_send r w null m g of
        Inl e \<Rightarrow> Some (Inl e)
      | Inr (error, g) \<Rightarrow> if \<not> allow_retry \<and> error = ec_retry_lock then shm_post_loop r ws allow_retry null m g else Some (Inr (error, g)))"

text \<open>\<^verbatim>\<open>g\<close> is the ring that the rank to send to owns.\<close>

definition shm_post_send :: "shm_device_t option \<Rightarrow> (nat \<Rightarrow> bool) list \<Rightarrow> int \<Rightarrow> bool \<Rightarrow> u8 list \<Rightarrow> net_imm_data_t \<Rightarrow> bool \<Rightarrow> region_t
    \<Rightarrow> (errorcode_t \<times> region_t) res option" where
  "shm_post_send d ws rank null bytes imm_data allow_retry g =
     (case can_send d rank (length bytes) of
        Inl e \<Rightarrow> Some (Inl e)
      | Inr False \<Rightarrow> Some (Inr (ec_fatal, g))
      | Inr True \<Rightarrow> (case d of
            Some d \<Rightarrow> (case (sd_context d, sd_routes d ! nat rank) of
                (Some c, Some r) \<Rightarrow> shm_post_loop r ws allow_retry null \<lparr>mg_source = sx_global_rank c, mg_bytes = bytes, mg_imm = imm_data\<rparr> g
              | _ \<Rightarrow> Some (Inl Undefined_behaviour))
          | None \<Rightarrow> Some (Inl Undefined_behaviour)))"

definition shm_recv_available :: "shm_device_t option \<Rightarrow> region_t \<Rightarrow> u64" where
  "shm_recv_available d g = (case d of
     Some d \<Rightarrow> (if \<not> sd_enabled d then 0 else case sd_owner d of None \<Rightarrow> 0 | Some m \<Rightarrow> recv_available_approx (mp_ring m) g)
   | None \<Rightarrow> 0)"

definition shm_poll_comp :: "shm_device_t option \<Rightarrow> (nat \<Rightarrow> bool) \<Rightarrow> recv_slot_t \<Rightarrow> region_t \<Rightarrow> (bool \<times> recv_slot_t \<times> region_t) res" where
  "shm_poll_comp d w slot g = (case d of
     Some d \<Rightarrow> (if \<not> sd_enabled d then Inr (False, slot, g)
       else case sd_owner d of None \<Rightarrow> Inr (False, slot, g) | Some m \<Rightarrow> ring_poll (mp_ring m) w slot g)
   | None \<Rightarrow> Inr (False, slot, g))"

definition shm_release :: "shm_device_t option \<Rightarrow> recv_slot_t \<Rightarrow> region_t \<Rightarrow> (recv_slot_t \<times> region_t) res" where
  "shm_release d slot g = (case d of
     Some d \<Rightarrow> (case sd_owner d of None \<Rightarrow> Inr (slot, g)
       | Some m \<Rightarrow> bindR (ring_release (mp_ring m) slot g) (\<lambda>(released, slot, g). Inr (slot, g)))
   | None \<Rightarrow> Inr (slot, g))"

text \<open>The loop of \<^verbatim>\<open>progress_shm\<close> over the packets it got; the result has the packets it did not use.\<close>

fun shm_drain :: "config \<Rightarrow> backend \<Rightarrow> shm_device_t option \<Rightarrow> (nat \<Rightarrow> bool) \<Rightarrow> nat \<Rightarrow> addr list \<Rightarrow> nat \<Rightarrow> world \<Rightarrow> region_t
    \<Rightarrow> (nat \<times> addr list \<times> world \<times> region_t) res" where
  "shm_drain cf be d w payload [] progressed v g = Inr (progressed, [], v, g)"
| "shm_drain cf be d w payload (packet # packets) progressed v g =
     bindR (shm_poll_comp d w recv_slot_empty g) (\<lambda>(found, slot, g).
     if \<not> found then Inr (progressed, packet # packets, v, g)
     else
       bindR (lci_assert (unat (rv_size slot) \<le> payload)) (\<lambda>_.
       let v = (if rv_size slot > 0
                then v\<lparr>w_mem := write_bytes (w_mem v) (get_payload_address packet) (mg_bytes (view_msg g slot))\<rparr> else v);
           ns = \<lparr>ns_opcode = net_RECV, ns_rank = rv_source slot, ns_user_context = packet, ns_length = unat (rv_size slot), ns_imm_data = rv_imm slot\<rparr> in
       bindR (shm_release d slot g) (\<lambda>(slot, g).
       bindR (progress_recv cf be ns v) (\<lambda>v.
       shm_drain cf be d w payload packets (progressed + 1) v g))))"

text \<open>\<^verbatim>\<open>get_n\<close> is the packet pool: the packets it gives for a request, at most as many.\<close>

definition progress_shm :: "config \<Rightarrow> backend \<Rightarrow> shm_device_t option \<Rightarrow> (nat \<Rightarrow> bool) \<Rightarrow> nat \<Rightarrow> (nat \<Rightarrow> addr list) option \<Rightarrow> nat \<Rightarrow> world \<Rightarrow> region_t
    \<Rightarrow> (bool \<times> world \<times> region_t) res" where
  "progress_shm cf be d w shm_max_polls get_n payload v g =
     (case get_n of
        None \<Rightarrow> Inr (False, v, g)
      | Some get_n \<Rightarrow>
          if \<not> is_enabled d then Inr (False, v, g)
          else
            let available = unat (shm_recv_available d g);
                max_polls = (if available < shm_max_polls then available else shm_max_polls) in
            if max_polls = 0 then Inr (False, v, g)
            else
              let packets = get_n max_polls in
              if packets = [] then Inr (False, v, g)
              else
                bindR (shm_drain cf be d w payload packets 0 v g) (\<lambda>(progressed, unused, v, g).
                Inr (progressed > 0, fold put_back unused v, g)))"

section \<open>Shared memory and network deliver alike\<close>

text \<open>What the progress engine does with messages that the network delivers into packets.\<close>

fun recv_all :: "config \<Rightarrow> backend \<Rightarrow> msg_t list \<Rightarrow> addr list \<Rightarrow> world \<Rightarrow> world res" where
  "recv_all cf be (m # ms) (pk # pks) v =
     bindR (progress_recv cf be \<lparr>ns_opcode = net_RECV, ns_rank = mg_source m, ns_user_context = pk,
              ns_length = length (mg_bytes m), ns_imm_data = mg_imm m\<rparr> (with_payload pk (mg_bytes m) v)) (recv_all cf be ms pks)"
| "recv_all cf be _ _ v = Inr v"

lemma view_fields:
  assumes "view_msg g v = m" "ring_poll r w recv_slot_empty g0 = Inr (True, v, g)" "msg_ok r m" "ring_fifo r g0 ms"
  shows "rv_source v = mg_source m" "rv_imm v = mg_imm m" "unat (rv_size v) = length (mg_bytes m)"
proof -
  show "rv_source v = mg_source m" "rv_imm v = mg_imm m" using assms(1) by (auto simp: view_msg_def)
  obtain s where s: "shm_reach r s" "ss_region s = g0" using assms(4) by (auto simp: ring_fifo_def)
  note I = reach_inv [OF s(1)]
  have "\<exists>q. v = view_of r g q \<and> \<not> metadata_corrupted r (rg_slots g ! slot_at r q) \<and> rg_slots g = rg_slots g0"
  proof -
    have "poll_attempts r w recv_slot_empty g0 k = Inr (True, v, g) \<Longrightarrow>
        \<exists>q. v = view_of r g q \<and> \<not> metadata_corrupted r (rg_slots g ! slot_at r q) \<and> rg_slots g = rg_slots g0" for k
      by (induction k) (auto simp: Let_def split: if_splits)
    with assms(2) show ?thesis by (auto simp: ring_poll_def split: if_splits)
  qed
  then obtain q where q: "v = view_of r g q" "\<not> metadata_corrupted r (rg_slots g ! slot_at r q)" "rg_slots g = rg_slots g0" by blast
  let ?sl = "rg_slots g ! slot_at r q"
  have pay: "length (sl_payload ?sl) = unat (max_payload_size r)" using slot_length(2) [OF I] q(3) s(2) by simp
  have "unat (ucast (sl_payload_size ?sl) :: u64) \<le> unat (max_payload_size r)"
    using q(2) by (simp add: metadata_corrupted_def not_less word_le_nat_alt)
  then have "length (mg_bytes (view_msg g v)) = unat (rv_size v)" using q(1) pay by (simp add: view_msg_def view_of_def Let_def)
  with assms(1) show "unat (rv_size v) = length (mg_bytes m)" by simp
qed

lemma write_nothing: "write_bytes mem a [] = mem"
  by (auto simp: write_bytes_def fun_eq_iff)

lemma drain_like_network:
  assumes "ring_fifo r g ms" "0 < rt_consumer_attempts r" "sd_enabled d" "sd_owner d = Some m" "mp_ring m = r"
    and "\<forall>x\<in>set ms. length (mg_bytes x) \<le> payload"
  shows "\<exists>g'. ring_fifo r g' (drop (length pks) ms)
    \<and> (\<forall>k v. shm_drain cf be (Some d) (\<lambda>_. True) payload pks k v g
      = bindR (recv_all cf be ms pks v) (\<lambda>v'. Inr (k + min (length ms) (length pks), drop (length ms) pks, v', g')))"
  using assms(1,6)
proof (induction pks arbitrary: ms g)
  case Nil
  then show ?case by (cases ms) auto
next
  case (Cons pk pks)
  have dev: "shm_poll_comp (Some d) (\<lambda>_. True) recv_slot_empty g = ring_poll r (\<lambda>_. True) recv_slot_empty g"
    "shm_release (Some d) sl gg = bindR (ring_release r sl gg) (\<lambda>(released, slot, g). Inr (slot, g))" for sl gg
    using assms(3-5) by (simp_all add: shm_poll_comp_def shm_release_def)
  show ?case
  proof (cases ms)
    case Nil
    with Cons.prems(1) fifo_poll_empty [of r g] assms(2) dev show ?thesis by auto
  next
    case (Cons x xs)
    with Cons.prems assms(2) obtain u g1 g2 where u: "ring_poll r (\<lambda>_. True) recv_slot_empty g = Inr (True, u, g1)" "view_msg g1 u = x"
      "ring_release r u g1 = Inr (True, recv_slot_empty, g2)" "ring_fifo r g2 xs" "msg_ok r x"
      using fifo_poll [of r g x xs] by metis
    note f = view_fields [OF u(2,1,5) Cons.prems(1)]
    have mem: "(if rv_size u > 0 then v\<lparr>w_mem := write_bytes (w_mem v) (get_payload_address pk) (mg_bytes (view_msg g1 u))\<rparr> else v)
        = with_payload pk (mg_bytes x) v" for v
    proof (cases "rv_size u > 0")
      case True
      then show ?thesis using u(2) by (simp add: with_payload_def)
    next
      case False
      then have "rv_size u = 0" by (simp add: word_less_nat_alt unat_eq_0)
      then have "mg_bytes x = []" using f(3) by simp
      with False show ?thesis by (simp add: with_payload_def write_nothing)
    qed
    have "\<forall>y\<in>set xs. length (mg_bytes y) \<le> payload" using Cons.prems(2) Cons by simp
    from Cons.IH [OF u(4) this] obtain g' where g': "ring_fifo r g' (drop (length pks) xs)"
      "\<And>k v. shm_drain cf be (Some d) (\<lambda>_. True) payload pks k v g2
      = bindR (recv_all cf be xs pks v) (\<lambda>v'. Inr (k + min (length xs) (length pks), drop (length xs) pks, v', g'))" by blast
    let ?ns = "\<lparr>ns_opcode = net_RECV, ns_rank = mg_source x, ns_user_context = pk, ns_length = length (mg_bytes x), ns_imm_data = mg_imm x\<rparr>"
    have run: "shm_drain cf be (Some d) (\<lambda>_. True) payload (pk # pks) k v g
        = bindR (progress_recv cf be ?ns (with_payload pk (mg_bytes x) v)) (\<lambda>v. shm_drain cf be (Some d) (\<lambda>_. True) payload pks (k + 1) v g2)" for k v
      using dev u(1,3) mem f Cons.prems(2) Cons by (simp add: Let_def)
    show ?thesis using run g' Cons by (intro exI [of _ g']) (simp add: bindR_assoc)
  qed
qed

lemma fifo_available:
  assumes "ring_fifo r g ms"
  shows "unat (recv_available_approx r g) = length ms"
proof -
  obtain s where s: "shm_reach r s" "ss_region s = g" "ms = drop (unat (rg_consumer g)) (ss_log s)" using assms by (auto simp: ring_fifo_def)
  with available_exact [OF reach_inv [OF s(1)]] show ?thesis by simp
qed

lemma progress_like_network:
  assumes "ring_fifo r g ms" "0 < rt_consumer_attempts r" "sd_enabled d" "sd_owner d = Some m" "mp_ring m = r"
    and "\<forall>x\<in>set ms. length (mg_bytes x) \<le> payload" "length ms \<le> max_polls" "length (get_n (length ms)) = length ms" "ms \<noteq> []"
  shows "\<exists>g'. ring_fifo r g' [] \<and> progress_shm cf be (Some d) (\<lambda>_. True) max_polls (Some get_n) payload v g
      = bindR (recv_all cf be ms (get_n (length ms)) v) (\<lambda>v'. Inr (True, v', g'))"
proof -
  obtain g' where g': "ring_fifo r g' (drop (length (get_n (length ms))) ms)"
    "\<And>k v. shm_drain cf be (Some d) (\<lambda>_. True) payload (get_n (length ms)) k v g
      = bindR (recv_all cf be ms (get_n (length ms)) v) (\<lambda>v'. Inr (k + min (length ms) (length (get_n (length ms))), drop (length ms) (get_n (length ms)), v', g'))"
    using drain_like_network [OF assms(1-6), of "get_n (length ms)"] by blast
  have "unat (shm_recv_available (Some d) g) = length ms" using fifo_available [OF assms(1)] assms(3-5) by (simp add: shm_recv_available_def)
  moreover have "get_n (length ms) \<noteq> []" using assms(8,9) by auto
  ultimately show ?thesis using g' assms(3,7,8,9)
    by (intro exI [of _ g']) (auto simp: progress_shm_def is_enabled_def bindR_assoc Let_def)
qed

text \<open>C11.  A message sent over shared memory is processed as if the network had delivered it.  If the ring of
  the receiver holds fewer messages than it has slots, the sender's post succeeds at once, and the next
  call of \<^verbatim>\<open>progress_shm\<close> at the receiver, if the packet pool has enough packets, hands all waiting messages and
  then this one to the same function, with the same source, immediate data, length and payload,
  as the completions of network receives, and leaves the ring empty.\<close>

theorem shm_like_network:
  assumes "ring_fifo r g ms" "length ms < unat (rt_slot_count r)" "rg_producer g < maximum_position"
    and "0 < rt_producer_attempts r" "0 < rt_consumer_attempts r"
    and "can_send (Some ds) rank (length bytes) = Inr True" "sd_context ds = Some c" "0 \<le> sx_global_rank c"
    and "sd_routes ds ! nat rank = Some r" "sd_max_message_size ds \<le> max_payload_size r"
    and "sd_enabled dr" "sd_owner dr = Some mo" "mp_ring mo = r"
    and "length bytes \<le> payload" "\<forall>x\<in>set ms. length (mg_bytes x) \<le> payload"
    and "length ms < max_polls" "length (get_n (length ms + 1)) = length ms + 1"
  shows "\<exists>g1 g2. shm_post_send (Some ds) ((\<lambda>_. True) # ws) rank False bytes imm allow_retry g = Some (Inr (ec_done, g1))
    \<and> progress_shm cf be (Some dr) (\<lambda>_. True) max_polls (Some get_n) payload v g1
      = bindR (recv_all cf be (ms @ [\<lparr>mg_source = sx_global_rank c, mg_bytes = bytes, mg_imm = imm\<rparr>]) (get_n (length ms + 1)) v)
          (\<lambda>v'. Inr (True, v', g2))
    \<and> ring_fifo r g2 []"
proof -
  let ?m = "\<lparr>mg_source = sx_global_rank c, mg_bytes = bytes, mg_imm = imm\<rparr>"
  have "length bytes \<le> unat (sd_max_message_size ds)"
    using assms(6,7) by (auto simp: can_send_def split: if_splits)
  also have "\<dots> \<le> unat (max_payload_size r)" using assms(10) by (simp add: word_le_nat_alt)
  finally have nr: "\<not> post_refused r False ?m" using assms(8) by (simp add: post_refused_def)
  obtain g1 where g1: "ring_post_send r (\<lambda>_. True) False ?m g = Inr (ec_done, g1)" "ring_fifo r g1 (ms @ [?m])"
    using fifo_post(1) [OF assms(1,4) nr assms(3,2)] by blast
  have post: "shm_post_send (Some ds) ((\<lambda>_. True) # ws) rank False bytes imm allow_retry g = Some (Inr (ec_done, g1))"
    using assms(6,7,9) g1(1) by (simp add: shm_post_send_def)
  have "\<forall>x\<in>set (ms @ [?m]). length (mg_bytes x) \<le> payload" using assms(14,15) by auto
  from progress_like_network [OF g1(2) assms(5,11-13) this, of max_polls get_n cf be v] assms(16,17) post show ?thesis by auto
qed

lemma fifo_example: "ring_fifo ring_example region_example []"
proof -
  have "quiet sys_example" by (simp add: quiet_def sys_example_def)
  then show ?thesis unfolding ring_fifo_def
    by (intro exI [of _ sys_example]) (use sys_example_reach in \<open>simp add: sys_example_def\<close>)
qed

definition shm_context_example :: shm_context_t where
  "shm_context_example = \<lparr>sx_enabled = True, sx_global_rank = 1, sx_global_size = 2, sx_local_rank = 1, sx_local_size = 2,
     sx_global_to_local = [0, 1], sx_local_to_global = [0, 1], sx_job_nonce = (1, 2)\<rparr>"

definition shm_mapping_example :: mapping_t where
  "shm_mapping_example = \<lparr>mp_region = 4096, mp_handle = handle_new, mp_ring = ring_example, mp_linked = False\<rparr>"

definition shm_sender_example :: shm_device_t where
  "shm_sender_example = (device_new (Some shm_context_example))\<lparr>sd_enabled := True, sd_max_message_size := 40, sd_routes := [Some ring_example, None]\<rparr>"

definition shm_receiver_example :: shm_device_t where
  "shm_receiver_example = (device_new None)\<lparr>sd_enabled := True, sd_owner := Some shm_mapping_example\<rparr>"

theorem shm_like_network_witness:
  "\<exists>g1 g2. shm_post_send (Some shm_sender_example) [\<lambda>_. True] 0 False [7, 8, 9] 5 False region_example = Some (Inr (ec_done, g1))
    \<and> progress_shm config_new always_accept (Some shm_receiver_example) (\<lambda>_. True) 16 (Some (\<lambda>n. [512])) 100 (world_new 2) g1
      = bindR (recv_all config_new always_accept [\<lparr>mg_source = 1, mg_bytes = [7, 8, 9], mg_imm = 5\<rparr>] [512] (world_new 2)) (\<lambda>v'. Inr (True, v', g2))"
proof -
  have s: "can_send (Some shm_sender_example) 0 (length [7 :: u8, 8, 9]) = Inr True" "sd_context shm_sender_example = Some shm_context_example"
    "sd_routes shm_sender_example ! nat 0 = Some ring_example" "sd_max_message_size shm_sender_example \<le> max_payload_size ring_example"
    by (simp_all add: can_send_def is_enabled_def shm_sender_example_def device_new_def shm_context_example_def max_payload_size_def
        payload_capacity_def ring_example_def sizeof_slot_header_def)
  have r: "sd_enabled shm_receiver_example" "sd_owner shm_receiver_example = Some shm_mapping_example" "mp_ring shm_mapping_example = ring_example"
    by (simp_all add: shm_receiver_example_def shm_mapping_example_def device_new_def)
  have p: "rg_producer region_example < maximum_position" "length ([] :: msg_t list) < unat (rt_slot_count ring_example)"
      "0 < rt_producer_attempts ring_example" "0 < rt_consumer_attempts ring_example" "0 \<le> sx_global_rank shm_context_example"
    by (simp_all add: region_example_def maximum_position_def ring_example_def shm_context_example_def)
  show ?thesis
    using shm_like_network [OF fifo_example p(2,1,3,4) s(1,2) p(5) s(3,4) r, of 100 16 "\<lambda>n. [512]" "[]" 5 False config_new always_accept "world_new 2"]
    by (auto simp: shm_context_example_def)
qed

section \<open>A device comes up on all ranks or on none\<close>

definition unmap_all :: "mapping_t option list \<Rightarrow> shm_os \<Rightarrow> shm_os" where
  "unmap_all ms os = fold (\<lambda>m os. case m of None \<Rightarrow> os | Some m \<Rightarrow> peer_destroy m os) ms os"

lemma remove1_swap: "remove1 x (remove1 y xs) = remove1 y (remove1 x xs)"
  by (induction xs) auto

lemma peer_destroy_swap: "peer_destroy m (peer_destroy m' os) = peer_destroy m' (peer_destroy m os)"
  by (auto simp: peer_destroy_def munmap_def remove1_swap)

lemma unmap_all_destroy: "unmap_all ms (peer_destroy m os) = peer_destroy m (unmap_all ms os)"
proof (induction ms arbitrary: os)
  case (Cons x ms)
  then show ?case by (cases x) (simp_all add: unmap_all_def peer_destroy_swap [of _ m])
qed (simp add: unmap_all_def)

lemma unmap_all_update:
  "i < length ms \<Longrightarrow> ms ! i = None \<Longrightarrow> unmap_all (ms[i := Some m]) os = unmap_all ms (peer_destroy m os)"
proof (induction ms arbitrary: i os)
  case (Cons x ms)
  then show ?case by (cases i; cases x) (auto simp: unmap_all_def peer_destroy_swap)
qed simp

lemma unmap_all_None: "unmap_all (replicate n None) os = os"
  by (induction n) (simp_all add: unmap_all_def)

lemma clear_device_unmap:
  "clear_device d os = (case sd_owner d of None \<Rightarrow> unmap_all (sd_peer_mappings d) os | Some m \<Rightarrow> owner_destroy m (unmap_all (sd_peer_mappings d) os))"
  by (simp add: clear_device_def unmap_all_def Let_def split: option.splits)

text \<open>The loop over the peers: what it attaches can be undone, and if it gets through, every peer has a route with the
  geometry of the device.\<close>

definition device_ring :: "shm_device_t \<Rightarrow> nat \<Rightarrow> nat \<Rightarrow> ring_t" where
  "device_ring d pa ca = \<lparr>rt_slot_count = sd_slot_count d, rt_slot_size = sd_slot_size d, rt_producer_attempts = pa, rt_consumer_attempts = ca\<rparr>"

lemma attach_one:
  assumes "peer_attach page oc mem h (expected_ring page c (sd_uid d) p (sd_slot_count d) (sd_slot_size d) (sd_max_message_size d)) pa ca os
      = (Inr (Inr m), os1)" "mmap_ok oc"
  shows "mp_ring m = device_ring d pa ca" "peer_destroy m os1 = os"
proof -
  let ?x = "expected_ring page c (sd_uid d) p (sd_slot_count d) (sd_slot_size d) (sd_max_message_size d)"
  obtain a where a: "oc_mmap oc = Some a" "validate_handle_against page h ?x = []" "mp_region m = a"
    "mp_ring m = \<lparr>rt_slot_count = ph_slot_count h, rt_slot_size = ph_slot_size h, rt_producer_attempts = pa, rt_consumer_attempts = ca\<rparr>"
    "os1 = os\<lparr>os_maps := a # os_maps os\<rparr>" using attach_cases [OF assms(1)] by auto
  show "mp_ring m = device_ring d pa ca"
    using a(2,4) by (auto simp: validate_handle_against_def expected_ring_def device_ring_def split: if_splits)
  show "peer_destroy m os1 = os" using a(1,3,5) assms(2) by (auto simp: peer_destroy_def munmap_def mmap_ok_def)
qed

lemma attach_peers_spec:
  assumes "attach_peers se c pa ca peers d os = (res, os')" "\<And>peer. mmap_ok (se_calls se peer)" "pa \<noteq> 0" "ca \<noteq> 0"
    and "distinct peers" "\<forall>p\<in>set peers. 0 \<le> p \<and> nat p < length (sd_routes d)" "length (sd_peer_mappings d) = length (sd_routes d)"
    and "\<forall>p\<in>set peers. sd_peer_mappings d ! nat p = None"
  shows "\<exists>ok d'. res = Inr (ok, d') \<and> unmap_all (sd_peer_mappings d') os' = unmap_all (sd_peer_mappings d) os
    \<and> sd_owner d' = sd_owner d \<and> sd_context d' = sd_context d \<and> sd_max_message_size d' = sd_max_message_size d
    \<and> device_ring d' pa ca = device_ring d pa ca \<and> length (sd_routes d') = length (sd_routes d)
    \<and> (\<forall>i<length (sd_routes d). int i \<notin> set peers - {sx_global_rank c} \<longrightarrow> sd_routes d' ! i = sd_routes d ! i)
    \<and> (ok \<longrightarrow> (\<forall>p\<in>set peers - {sx_global_rank c}. sd_routes d' ! nat p = Some (device_ring d pa ca)))"
  using assms
proof (induction peers arbitrary: d os)
  case Nil
  then have "res = Inr (True, d)" "os' = os" by simp_all
  then show ?case by (intro exI [of _ True]) simp
next
  case (Cons p peers)
  show ?case
  proof (cases "p = sx_global_rank c")
    case True
    have eq: "set (p # peers) - {sx_global_rank c} = set peers - {sx_global_rank c}" using True by auto
    show ?thesis unfolding eq by (rule Cons.IH) (use Cons.prems True in simp_all)
  next
    case False
    let ?x = "expected_ring (se_page se) c (sd_uid d) p (sd_slot_count d) (sd_slot_size d) (sd_max_message_size d)"
    obtain r1 os1 where at: "peer_attach (se_page se) (se_calls se p) (se_mems se p) (se_handles se ! nat p) ?x pa ca os = (r1, os1)" by fastforce
    note ac = attach_cases [OF at]
    show ?thesis
    proof (cases r1)
      case (Inl e)
      with attach_no_throw [of "se_page se" "se_calls se p"] at Cons.prems(2-4) show ?thesis by metis
    next
      case (Inr y)
      show ?thesis
      proof (cases y)
        case (Inl msg)
        with Inr at ac False Cons.prems(1) show ?thesis by auto
      next
        case m: (Inr m)
        note one = attach_one [OF at [unfolded Inr m] Cons.prems(2)]
        let ?d = "d\<lparr>sd_routes := (sd_routes d)[nat p := Some (mp_ring m)], sd_peer_mappings := (sd_peer_mappings d)[nat p := Some m]\<rparr>"
        have run: "attach_peers se c pa ca peers ?d os1 = (res, os')" using Cons.prems(1) False at Inr m by simp
        have pb: "0 \<le> p" "nat p < length (sd_routes d)" "sd_peer_mappings d ! nat p = None" using Cons.prems(6,8) by auto
        have ne: "nat q \<noteq> nat p" if "q \<in> set peers" for q using that Cons.prems(5,6) pb(1) eq_nat_nat_iff [of q p] by auto
        have undone: "unmap_all ((sd_peer_mappings d)[nat p := Some m]) os1 = unmap_all (sd_peer_mappings d) os"
          using unmap_all_update [of "nat p" "sd_peer_mappings d" m os1] pb(2,3) Cons.prems(7) one(2) by simp
        have fresh: "\<forall>q\<in>set peers. sd_peer_mappings ?d ! nat q = None"
        proof
          fix q assume q: "q \<in> set peers"
          with Cons.prems(8) ne [OF q] show "sd_peer_mappings ?d ! nat q = None" by simp
        qed
        obtain ok d' where ih: "res = Inr (ok, d')" "unmap_all (sd_peer_mappings d') os' = unmap_all (sd_peer_mappings d) os"
          "sd_owner d' = sd_owner d" "sd_context d' = sd_context d" "sd_max_message_size d' = sd_max_message_size d"
          "device_ring d' pa ca = device_ring d pa ca \<and> length (sd_routes d') = length (sd_routes d)"
          "\<forall>i<length (sd_routes d). int i \<notin> set peers - {sx_global_rank c} \<longrightarrow> sd_routes d' ! i = sd_routes ?d ! i"
          "ok \<longrightarrow> (\<forall>q\<in>set peers - {sx_global_rank c}. sd_routes d' ! nat q = Some (device_ring d pa ca))"
          using Cons.IH [OF run Cons.prems(2-4)] Cons.prems(5-7) fresh undone by (auto simp: device_ring_def)
        have own: "sd_routes d' ! nat p = Some (device_ring d pa ca)"
          using ih(7) pb(1,2) Cons.prems(5) one(1) by simp
        have keep: "(sd_routes d)[nat p := x] ! i = sd_routes d ! i" if "int i \<noteq> p" for i x
          using that pb(1) by (subst nth_list_update_neq) auto
        show ?thesis using ih own False keep by (auto simp: nth_list_update)
      qed
    qed
  qed
qed

text \<open>Whether a rank reports that it is ready.\<close>

definition device_ready :: "shm_env \<Rightarrow> shm_context_t \<Rightarrow> u64 option \<Rightarrow> u64 \<Rightarrow> u64 \<Rightarrow> nat \<Rightarrow> nat \<Rightarrow> u64 \<Rightarrow> shm_os \<Rightarrow> bool" where
  "device_ready se c packet_payload ring_size slot_size pa ca device_uid os =
     (case device_begin se c packet_payload ring_size slot_size pa ca device_uid os of
        (Inr (True, d), os) \<Rightarrow> (case attach_peers se c pa ca (take (nat (sx_local_size c)) (sx_local_to_global c)) d os of
            (Inr (ok, _), _) \<Rightarrow> ok
          | _ \<Rightarrow> False)
      | _ \<Rightarrow> False)"

lemma device_begin_spec:
  assumes "device_begin se c payload ring_size slot_size pa ca uid os = (res, os1)" "mmap_ok (se_calls se (sx_global_rank c))"
    and "sx_local_size c > 1" "0 \<le> sx_global_rank c" "sx_global_rank c < sx_global_size c"
  shows "\<exists>ok d. res = Inr (ok, d) \<and> clear_device d os1 = os \<and> sd_context d = Some c
     \<and> sd_peer_mappings d = replicate (nat (sx_global_size c)) None \<and> length (sd_routes d) = nat (sx_global_size c)
     \<and> (ok \<longrightarrow> pa \<noteq> 0 \<and> ca \<noteq> 0 \<and> sd_routes d = (replicate (nat (sx_global_size c)) None)[nat (sx_global_rank c) := Some (device_ring d pa ca)])"
proof (cases "device_geometry payload ring_size slot_size pa ca")
  case (Inl e)
  then have r: "res = Inr (False, (device_new (Some c))\<lparr>sd_uid := uid, sd_slot_count := 0, sd_slot_size := slot_size,
                 sd_max_message_size := 0, sd_peer_mappings := replicate (nat (sx_global_size c)) None,
                 sd_routes := replicate (nat (sx_global_size c)) None\<rparr>)" "os1 = os"
    using assms(1,3) by (auto simp: device_begin_def Let_def)
  then show ?thesis by (intro exI [of _ False]) (simp add: clear_device_unmap unmap_all_None device_new_def)
next
  case (Inr nm)
  obtain n mx where nm: "nm = (n, mx)" by (cases nm)
  have att: "pa \<noteq> 0" "ca \<noteq> 0" using Inr by (auto simp: device_geometry_def split: option.splits if_splits)
  let ?d = "(device_new (Some c))\<lparr>sd_uid := uid, sd_slot_count := n, sd_slot_size := slot_size,
                 sd_max_message_size := mx, sd_peer_mappings := replicate (nat (sx_global_size c)) None,
                 sd_routes := replicate (nat (sx_global_size c)) None\<rparr>"
  have clean: "clear_device ?d os = os" by (simp add: clear_device_unmap unmap_all_None device_new_def)
  show ?thesis
  proof (cases "uid = 0")
    case True
    then have "res = Inr (False, ?d)" "os1 = os" using assms(1,3) Inr nm by (auto simp: device_begin_def Let_def)
    then show ?thesis using clean by (intro exI [of _ False]) (simp add: device_new_def)
  next
    case False
    let ?name = "make_posix_ring_name (sx_job_nonce c) uid (sx_global_rank c)"
    obtain r1 os2 where cr: "owner_create (se_page se) (se_calls se (sx_global_rank c)) (se_raw se) ?name (sx_global_rank c) uid n slot_size mx pa ca os = (r1, os2)"
      by fastforce
    note cc = create_cases [OF cr assms(2)]
    have "r1 \<noteq> Inl e" for e using create_no_throw [OF _ assms(2) att] cr by blast
    then consider msg where "r1 = Inr (Inl msg)" | m mem where "r1 = Inr (Inr (m, mem))" by (metis old.sum.exhaust surj_pair)
    then show ?thesis
    proof cases
      case 1
      then have "res = Inr (False, ?d)" "os1 = os" using assms(1,3) Inr nm False cr cc by (auto simp: device_begin_def Let_def)
      then show ?thesis using clean by (intro exI [of _ False]) (simp add: device_new_def)
    next
      case 2
      then have ring: "mp_ring m = \<lparr>rt_slot_count = n, rt_slot_size = slot_size, rt_producer_attempts = pa, rt_consumer_attempts = ca\<rparr>"
        using cc by auto
      have undo: "owner_destroy m os2 = os" using create_undo [OF cr [unfolded 2] assms(2)] .
      have "res = Inr (True, ?d\<lparr>sd_owner := Some m, sd_routes := (sd_routes ?d)[nat (sx_global_rank c) := Some (mp_ring m)]\<rparr>)" "os1 = os2"
        using assms(1,3) Inr nm False cr 2 by (auto simp: device_begin_def Let_def)
      then show ?thesis using undo ring att by (intro exI [of _ True]) (simp add: clear_device_unmap unmap_all_None device_ring_def device_new_def)
    qed
  qed
qed

lemma munmap_unlink: "munmap a (unlink name os) = unlink name (munmap a os)"
  by (simp add: munmap_def unlink_def)

lemma unmap_all_unlink: "unmap_all ms (unlink name os) = unlink name (unmap_all ms os)"
proof (induction ms arbitrary: os)
  case (Cons x ms)
  then show ?case by (cases x) (simp_all add: unmap_all_def peer_destroy_def munmap_unlink)
qed (simp add: unmap_all_def)

text \<open>Taking the name away early does not change what is left in the end.\<close>

lemma unlink_then_destroy:
  "unlink_name ok m os = (b, m', os') \<Longrightarrow> owner_destroy m' (unmap_all ms os') = owner_destroy m (unmap_all ms os)"
  by (auto simp: unlink_name_def unmap_all_unlink owner_destroy_def munmap_unlink Let_def split: if_splits)

lemma device_finish_spec:
  assumes "device_finish sts c unlink_ok d True os = (res, os')"
  shows "if list_all (\<lambda>status. status) sts
     then \<exists>d'. res = Inr d' \<and> sd_enabled d' \<and> clear_device d' os' = clear_device d os \<and> sd_context d' = sd_context d
       \<and> sd_routes d' = sd_routes d \<and> sd_max_message_size d' = sd_max_message_size d \<and> device_ring d' pa ca = device_ring d pa ca
     else res = Inl (Thrown ''SHM device initialization failed'') \<and> os' = clear_device d os"
proof (cases "list_all (\<lambda>status. status) sts")
  case True
  show ?thesis
  proof (cases "sd_owner d")
    case None
    then show ?thesis using assms True by (auto simp: device_finish_def clear_device_unmap device_ring_def)
  next
    case (Some m)
    obtain b m' os1 where u: "unlink_name unlink_ok m os = (b, m', os1)" by (metis prod_cases3)
    then have "res = Inr (d\<lparr>sd_owner := Some m', sd_enabled := True\<rparr>)" "os' = os1"
      using assms True Some by (auto simp: device_finish_def)
    then show ?thesis using True Some unlink_then_destroy [OF u] by (simp add: clear_device_unmap device_ring_def)
  qed
qed (use assms in \<open>auto simp: device_finish_def\<close>)

text \<open>A rank's part of bringing a device up: what it did can be undone, and it says it is ready only if it has a route to
  every local rank and to no other.\<close>

lemma device_open_spec:
  assumes "alloc_device se (Some c) payload True ring_size slot_size pa ca uid unlink_ok os = (res, os')"
    and "sx_enabled c" "sx_local_size c > 1" "0 \<le> sx_global_rank c" "sx_global_rank c < sx_global_size c" "\<And>p. mmap_ok (se_calls se p)"
    and "distinct (take (nat (sx_local_size c)) (sx_local_to_global c))"
    and "\<forall>p\<in>set (take (nat (sx_local_size c)) (sx_local_to_global c)). 0 \<le> p \<and> p < sx_global_size c"
    and "sx_global_rank c \<in> set (take (nat (sx_local_size c)) (sx_local_to_global c))"
  shows "\<exists>d os1. device_finish (se_status se) c unlink_ok d True os1 = (res, os') \<and> clear_device d os1 = os \<and> sd_context d = Some c
    \<and> (device_ready se c payload ring_size slot_size pa ca uid os \<longrightarrow>
         (\<forall>p. 0 \<le> p \<longrightarrow> p < sx_global_size c \<longrightarrow> sd_routes d ! nat p
            = (if p \<in> set (take (nat (sx_local_size c)) (sx_local_to_global c)) then Some (device_ring d pa ca) else None)))"
proof -
  let ?l = "take (nat (sx_local_size c)) (sx_local_to_global c)"
  obtain r1 os1 where b: "device_begin se c payload ring_size slot_size pa ca uid os = (r1, os1)" by fastforce
  obtain ok d where bs: "r1 = Inr (ok, d)" "clear_device d os1 = os" "sd_context d = Some c"
      "sd_peer_mappings d = replicate (nat (sx_global_size c)) None" "length (sd_routes d) = nat (sx_global_size c)"
      "ok \<longrightarrow> pa \<noteq> 0 \<and> ca \<noteq> 0 \<and> sd_routes d = (replicate (nat (sx_global_size c)) None)[nat (sx_global_rank c) := Some (device_ring d pa ca)]"
    using device_begin_spec [OF b assms(6) assms(3-5)] by (elim exE conjE)
  show ?thesis
  proof (cases ok)
    case False
    then have "device_finish (se_status se) c unlink_ok d True os1 = (res, os')"
      using assms(1-5) b bs(1) by (simp add: alloc_device_def)
    moreover have "\<not> device_ready se c payload ring_size slot_size pa ca uid os" using b bs(1) False by (simp add: device_ready_def)
    ultimately show ?thesis using bs(2,3) by blast
  next
    case True
    obtain r2 os2 where at: "attach_peers se c pa ca ?l d os1 = (r2, os2)" by fastforce
    have rng: "\<forall>p\<in>set ?l. 0 \<le> p \<and> nat p < length (sd_routes d)" "\<forall>p\<in>set ?l. sd_peer_mappings d ! nat p = None"
      using assms(8) bs(4,5) by auto
    obtain ok2 d2 where as: "r2 = Inr (ok2, d2)" "unmap_all (sd_peer_mappings d2) os2 = unmap_all (sd_peer_mappings d) os1"
        "sd_owner d2 = sd_owner d" "sd_context d2 = sd_context d" "device_ring d2 pa ca = device_ring d pa ca"
        "\<forall>i<length (sd_routes d). int i \<notin> set ?l - {sx_global_rank c} \<longrightarrow> sd_routes d2 ! i = sd_routes d ! i"
        "ok2 \<longrightarrow> (\<forall>p\<in>set ?l - {sx_global_rank c}. sd_routes d2 ! nat p = Some (device_ring d pa ca))"
      using attach_peers_spec [OF at assms(6) _ _ assms(7) rng(1) _ rng(2)] bs(4-6) True by (simp, elim exE conjE) simp
    have fin: "device_finish (se_status se) c unlink_ok d2 True os2 = (res, os')"
      using assms(1-5) b bs(1) True at as(1) by (simp add: alloc_device_def)
    have clr: "clear_device d2 os2 = os" using bs(2) as(2,3) by (simp add: clear_device_unmap cong: option.case_cong)
    have rts: "sd_routes d2 ! nat p = (if p \<in> set ?l then Some (device_ring d2 pa ca) else None)" if "ok2" "0 \<le> p" "p < sx_global_size c" for p
    proof (cases "p \<in> set ?l - {sx_global_rank c}")
      case False
      then have "sd_routes d2 ! nat p = sd_routes d ! nat p" using as(6) [rule_format, of "nat p"] that bs(5) by simp
      moreover have "nat (sx_global_rank c) = nat p \<longleftrightarrow> sx_global_rank c = p" using that assms(4) by (simp add: eq_nat_nat_iff)
      ultimately show ?thesis using False that bs(6) True assms(4,5,9) as(5) by (auto simp: nth_list_update)
    qed (use that as(5,7) in simp)
    have "device_ready se c payload ring_size slot_size pa ca uid os = ok2" using b bs(1) True at as(1) by (simp add: device_ready_def)
    then show ?thesis using fin clr rts bs(3) as(4) by (intro exI [of _ d2] exI [of _ os2]) simp
  qed
qed


text \<open>Rank 1 of a node of two.  Rank 0 has made its ring and says it is ready.\<close>

definition shm_os_example :: shm_os where
  "shm_os_example = \<lparr>os_names = [make_posix_ring_name (1, 2) 3 0 \<mapsto> 4096], os_fds = 0, os_maps = []\<rparr>"

definition shm_env_example :: shm_env where
  "shm_env_example = \<lparr>se_page = 4096, se_calls = (\<lambda>_. calls_example), se_raw = (\<lambda>_. replicate 40 0),
     se_handles = [owner_handle 4096 (make_posix_ring_name (1, 2) 3 0) 0 3 1 64 40, owner_handle 4096 (make_posix_ring_name (1, 2) 3 1) 1 3 1 64 40],
     se_mems = (\<lambda>_. region_example), se_status = [True, True]\<rparr>"

lemma shm_env_example_simps [simp]:
  "se_page shm_env_example = 4096" "se_calls shm_env_example p = calls_example" "se_raw shm_env_example = (\<lambda>_. replicate 40 0)"
  "se_handles shm_env_example ! 0 = owner_handle 4096 (make_posix_ring_name (1, 2) 3 0) 0 3 1 64 40" "se_mems shm_env_example p = region_example"
  "se_status shm_env_example = [True, True]" "sx_global_rank shm_context_example = 1" "sx_global_size shm_context_example = 2"
  "sx_local_size shm_context_example = 2" "sx_local_to_global shm_context_example = [0, 1]" "sx_job_nonce shm_context_example = (1, 2)"
  "sx_enabled shm_context_example"
  by (simp_all add: shm_env_example_def shm_context_example_def)

lemma example_peer:
  "validate_handle_against 4096 (owner_handle 4096 (make_posix_ring_name (1, 2) 3 0) 0 3 1 64 40) (expected_ring 4096 shm_context_example 3 0 1 64 40) = []"
  "str_of (ph_name (owner_handle 4096 (make_posix_ring_name (1, 2) 3 0) 0 3 1 64 40)) = make_posix_ring_name (1, 2) 3 0"
proof -
  note nf = ring_name_facts [of "(1, 2)" 3 0]
  have len: "length (make_posix_ring_name (1, 2) 3 0) < posix_ring_name_capacity"
    using nf(4) by (simp add: posix_ring_name_capacity_def posix_ring_portable_name_max_def)
  have valid: "validate_handle 4096 (owner_handle 4096 (make_posix_ring_name (1, 2) 3 0) 0 3 1 64 40) = []" by (rule example_valid) simp_all
  note own = own_handle_expected [OF valid ring_name_shape(2) nf(1-3) len]
  show "validate_handle_against 4096 (owner_handle 4096 (make_posix_ring_name (1, 2) 3 0) 0 3 1 64 40) (expected_ring 4096 shm_context_example 3 0 1 64 40) = []"
    using own(1) by (simp add: expected_ring_expects)
  show "str_of (ph_name (owner_handle 4096 (make_posix_ring_name (1, 2) 3 0) 0 3 1 64 40)) = make_posix_ring_name (1, 2) 3 0" by (rule own(2))
qed

lemma example_ready: "device_ready shm_env_example shm_context_example (Some 40) 64 64 4 1 3 shm_os_example"
proof -
  have "make_posix_ring_name (1, 2) 3 1 \<noteq> make_posix_ring_name (1, 2) 3 0" by code_simp
  then have free: "make_posix_ring_name (1, 2) 3 1 \<notin> dom (os_names shm_os_example)" by (simp add: shm_os_example_def)
  have made: "owner_create 4096 calls_example (\<lambda>_. replicate 40 0) (make_posix_ring_name (1, 2) 3 1) 1 3 1 64 40 4 1 shm_os_example =
     (Inr (Inr (\<lparr>mp_region = 4096, mp_handle = owner_handle 4096 (make_posix_ring_name (1, 2) 3 1) 1 3 1 64 40, mp_ring = ring_example, mp_linked = True\<rparr>,
        region_example)), shm_os_example\<lparr>os_names := (os_names shm_os_example)(make_posix_ring_name (1, 2) 3 1 \<mapsto> 4096), os_maps := 4096 # os_maps shm_os_example\<rparr>)"
    by (rule example_created [OF _ _ free]) simp_all
  have named: "make_posix_ring_name (1, 2) 3 0 \<in> dom (os_names shm_os_example)" by (simp add: shm_os_example_def)
  have geo: "device_geometry (Some 40) 64 64 4 1 = Inr (1, 40)" by code_simp
  have new: "ring_new 4096 1 64 4 1 = Inr ring_example" by (simp add: ring_new_def example_geometry cache_line_def ring_example_def Let_def)
  have fields: "ph_mapping_size (owner_handle 4096 name 0 3 1 64 40) = 4096" "ph_slot_count (owner_handle 4096 name 0 3 1 64 40) = 1"
    "ph_slot_size (owner_handle 4096 name 0 3 1 64 40) = 64" for name by (simp_all add: owner_handle_def example_geometry)
  have "peer_attach 4096 calls_example region_example (owner_handle 4096 (make_posix_ring_name (1, 2) 3 0) 0 3 1 64 40)
      (expected_ring 4096 shm_context_example 3 0 1 64 40) 4 1 os =
    (Inr (Inr \<lparr>mp_region = 4096, mp_handle = owner_handle 4096 (make_posix_ring_name (1, 2) 3 0) 0 3 1 64 40, mp_ring = ring_example, mp_linked = False\<rparr>),
     os\<lparr>os_maps := 4096 # os_maps os\<rparr>)" if "make_posix_ring_name (1, 2) 3 0 \<in> dom (os_names os)" for os
    using that new fields by (simp add: peer_attach_def Let_def example_peer calls_example_def example_geometry close_fd_def mmap_def)
  then show ?thesis
    using named by (simp add: device_ready_def device_begin_def Let_def geo made device_new_def domIff del: One_nat_def)
qed


end
