(* ===== verification/LCI_Rdv_Transfer.thy ===== *)
theory LCI_Rdv_Transfer
  imports LCI_Transfer
begin

text \<open>
  The rendezvous protocol from one process to another: a send whose data does not fit in a packet
  (\<^verbatim>\<open>do_rdv\<close> of \<^verbatim>\<open>src/core/communicate.cpp\<close>) asks the receiver, the receiver answers where the data is to go when
  the send has met a receive, the sender writes the data there in chunks, and the end of the
  transfer is signalled to the receiver by the immediate data of the last write or by a message.
  The handlers are those of \<^verbatim>\<open>LCI_Rendezvous\<close> and \<^verbatim>\<open>LCI_Progress\<close>; this theory composes them with a
  reliable network between two processes.
\<close>

section \<open>Messages on the wire\<close>

lemma load_copy:
  "off + k \<le> n \<Longrightarrow> load (write_bytes m p (read_bytes m' q n)) (p + off) k = load m' (q + off) k"
proof -
  assume "off + k \<le> n"
  then have "read_bytes (write_bytes m p (read_bytes m' q n)) (p + off) k = read_bytes m' (q + off) k"
    by (intro nth_equalityI) (auto simp: read_bytes_def write_bytes_def add.assoc)
  then show ?thesis by (simp add: load_def)
qed

lemma read_rts_copy: "read_rts (write_bytes m p (read_bytes m' q sizeof_rts)) p = read_rts m' q"
  using load_copy [of 0 4 sizeof_rts m p m' q] by (simp add: read_rts_def load_copy sizeof_rts_def)

lemma read_rtr_copy: "read_rtr (write_bytes m p (read_bytes m' q sizeof_rtr)) p = read_rtr m' q"
  using load_copy [of 0 8 sizeof_rtr m p m' q] by (simp add: read_rtr_def load_copy sizeof_rtr_def)

text \<open>Regions of memory that do not overlap.\<close>

definition apart :: "addr \<Rightarrow> nat \<Rightarrow> addr \<Rightarrow> nat \<Rightarrow> bool" where
  "apart a n b k \<longleftrightarrow> a + n \<le> b \<or> b + k \<le> a"

lemma read_write_apart: "apart a n b (length bs) \<Longrightarrow> read_bytes (write_bytes m b bs) a n = read_bytes m a n"
  by (simp add: apart_def)

lemma apart_mono: "apart a n b k \<Longrightarrow> b \<le> b' \<Longrightarrow> b' + k' \<le> b + k \<Longrightarrow> apart a n b' k'"
  by (auto simp: apart_def)

lemma read_store_apart: "apart a n b k \<Longrightarrow> read_bytes (store m b k x) a n = read_bytes m a n"
  by (simp add: store_def apart_def)

lemma read_write_rts_apart: "apart a n p sizeof_rts \<Longrightarrow> read_bytes (write_rts m p r) a n = read_bytes m a n"
  by (auto simp: write_rts_def sizeof_rts_def apart_def read_store_apart)

lemma read_write_rtr_apart: "apart a n p sizeof_rtr \<Longrightarrow> read_bytes (write_rtr m p r) a n = read_bytes m a n"
  by (auto simp: write_rtr_def sizeof_rtr_def apart_def read_store_apart)

section \<open>The request of the sender\<close>

definition rdv_args :: "config \<Rightarrow> post_env \<Rightarrow> post_comm_args_t \<Rightarrow> bool" where
  "rdv_args cf pe a \<longleftrightarrow> pa_direction a = dir_OUT \<and> pa_rmr a = rmr_empty \<and> \<not> pe_accelerator pe
     \<and> get_max_bcopy_size cf < pa_size a \<and> pa_allow_posted a \<and> pa_local_comp a \<notin> {COMP_NULL, COMP_NULL_RETRY}"

definition send_context :: "post_comm_args_t \<Rightarrow> addr \<Rightarrow> internal_context_t" where
  "send_context a packet = new_internal_context\<lparr>ic_is_user_posted_op := True, ic_rank := pa_rank a, ic_tag := pa_tag a,
     ic_user_context := pa_user_context a, ic_buffer := pa_local_buffer a, ic_size := pa_size a, ic_comp := pa_local_comp a,
     ic_packet_to_free := packet\<rparr>"

lemma send_context_simps [simp]:
  "ic_rank (send_context a p) = pa_rank a" "ic_tag (send_context a p) = pa_tag a" "ic_buffer (send_context a p) = pa_local_buffer a"
  "ic_user_context (send_context a p) = pa_user_context a" "ic_size (send_context a p) = pa_size a"
  "ic_comp (send_context a p) = pa_local_comp a" "ic_packet_to_free (send_context a p) = p" "ic_is_user_posted_op (send_context a p)"
  by (simp_all add: send_context_def new_internal_context_def)

text \<open>The request that an accepted post hands to the network, and the state that waits for the answer.\<close>

definition rts_of :: "post_env \<Rightarrow> post_comm_args_t \<Rightarrow> addr \<Rightarrow> rts_msg_t" where
  "rts_of pe a ctx = \<lparr>rts_rcomp = rhandler_of pe a, rts_send_ctx = ctx, rts_tag = pa_tag a, rts_size = pa_size a\<rparr>"

definition rdv_requested :: "post_env \<Rightarrow> post_comm_args_t \<Rightarrow> world \<Rightarrow> world \<Rightarrow> net_req \<Rightarrow> bool" where
  "rdv_requested pe a w w' rq \<longleftrightarrow> w_sent (pa_rank a) w' = w_sent (pa_rank a) w @ [rq]
     \<and> rq_size rq = sizeof_rts \<and> length (req_bytes (w_mem w') rq) = sizeof_rts
     \<and> decode_imm (rq_imm rq) = Inr (Imm_typed IMM_DATA_MSG_RTS)
     \<and> (\<forall>m p. read_rts (write_bytes m p (req_bytes (w_mem w') rq)) p = rts_of pe a (w_next w))
     \<and> w_ctxs w' = (w_ctxs w)(w_next w \<mapsto> Simple (send_context a (pe_packet pe))) \<and> w_next w < w_next w'
     \<and> ep_ok (pa_rank a) w' \<and> w_archive w' = w_archive w \<and> w_signals w' = w_signals w \<and> w_returned w' = w_returned w
     \<and> ep_pending_ops (w_ep w') = ep_pending_ops (w_ep w) + 1
     \<and> read_bytes (w_mem w') (pa_local_buffer a) (pa_size a) = read_bytes (w_mem w) (pa_local_buffer a) (pa_size a)"

lemma rdv_protocol:
  assumes "rdv_args cf pe a" "validate_and_get_traits cf a = Inr t"
  shows "preprocess_args pe a = Inr a" "pt_local_buffer_only t"
    "set_protocol cf pe a t (resolve_rhandler pe a t post_comm_state_init)
       = (resolve_rhandler pe a t post_comm_state_init)\<lparr>ps_protocol := pr_rdv_zcopy\<rparr>"
    "ps_rhandler (resolve_rhandler pe a t post_comm_state_init) = rhandler_of pe a"
proof -
  show "preprocess_args pe a = Inr a" using assms(1) by (simp add: preprocess_args_def rdv_args_def Let_def)
  have t: "pt_local_buffer_only t" "pt_max_bcopy_size t = get_max_bcopy_size cf"
    using assms by (auto simp: validate_and_get_traits_def rdv_args_def Let_def bind_assert split: if_splits)
  show "pt_local_buffer_only t" by (rule t(1))
  show "set_protocol cf pe a t (resolve_rhandler pe a t post_comm_state_init)
       = (resolve_rhandler pe a t post_comm_state_init)\<lparr>ps_protocol := pr_rdv_zcopy\<rparr>"
    using assms(1) t by (simp add: set_protocol_def rdv_args_def Let_def)
  show "ps_rhandler (resolve_rhandler pe a t post_comm_state_init) = rhandler_of pe a"
    using t(1) by (simp add: resolve_rhandler_def rhandler_of_def post_comm_state_init_def Let_def)
qed

text \<open>A request that was handed over: the exit of the post leaves the state alone.\<close>

lemma exit_posted:
  assumes "exit_handler pe e a s w = Inr (st, w')" "is_posted e" "pa_allow_posted a"
  shows "w' = w \<and> is_posted (st_error st)"
  using assms(1)
proof (rule exit_handler_run)
  fix w1 st1 w2
  assume "(if is_retry e then undo_ctx s w else Inr w) = Inr w1"
    "(st1, w2) = (if is_posted e \<and> \<not> pa_allow_posted a
         then (set_done (fst (pe_wait pe w1)), snd (pe_wait pe w1)) else ((ps_status s)\<lparr>st_error := e\<rparr>, w1))"
    "st = (if is_done (st_error st1) \<and> \<not> pa_allow_done a then set_posted st1 else st1)"
    "w' = (let w = (if \<not> pa_allow_posted a then w2\<lparr>w_freed_comps := w_freed_comps w2 @ [ps_local_comp s]\<rparr> else w2) in
         if is_done (st_error st1) \<and> \<not> pa_allow_done a then comp_signal (ps_local_comp s) st1 w else w)"
  moreover have "\<not> is_retry e" "\<not> is_done e" using assms(2) by (auto simp: ec_category)
  ultimately show ?thesis using assms(2,3) by auto
qed

text \<open>The network operation of a rendezvous post.\<close>

lemma rdv_posted:
  assumes be: "net_backend be" and run: "do_rdv cf be a t s w = Inr (e, s', w')" and nr: "\<not> is_retry e"
    and ep: "ep_ok (pa_rank a) w" and h: "ps_internal_ctx s < 2 ^ 64" "pa_size a < 2 ^ 64"
    and buf: "pa_local_buffer a + pa_size a \<le> w_next w" "apart (pa_local_buffer a) (pa_size a) (get_payload_address (ps_packet s)) sizeof_rts"
  shows "is_posted e \<and> (\<exists>rq. w_sent (pa_rank a) w' = w_sent (pa_rank a) w @ [rq]
     \<and> rq_size rq = sizeof_rts \<and> length (req_bytes (w_mem w') rq) = sizeof_rts \<and> rq_imm rq = ps_imm_data s
     \<and> (\<forall>m p. read_rts (write_bytes m p (req_bytes (w_mem w') rq)) p
          = \<lparr>rts_rcomp = ps_rhandler s, rts_send_ctx = ps_internal_ctx s, rts_tag = pa_tag a, rts_size = pa_size a\<rparr>))
     \<and> w_ctxs w' = w_ctxs w \<and> w_next w \<le> w_next w' \<and> ep_ok (pa_rank a) w' \<and> w_archive w' = w_archive w
     \<and> w_signals w' = w_signals w \<and> w_returned w' = w_returned w \<and> ep_pending_ops (w_ep w') = ep_pending_ops (w_ep w)
     \<and> read_bytes (w_mem w') (pa_local_buffer a) (pa_size a) = read_bytes (w_mem w) (pa_local_buffer a) (pa_size a)"
proof -
  let ?rts = "\<lparr>rts_rcomp = ps_rhandler s, rts_send_ctx = ps_internal_ctx s, rts_tag = pa_tag a, rts_size = pa_size a\<rparr>"
  let ?inj = "sizeof_rts \<le> pt_max_inject_size t"
  define p where "p = (if ?inj then w_next w else get_payload_address (ps_packet s))"
  define w1 where "w1 = w\<lparr>w_next := (if ?inj then w_next w + sizeof_rts + 1 else w_next w), w_mem := write_rts (w_mem w) p ?rts\<rparr>"
  define rq where "rq = (if ?inj then mk_sends (pa_rank a) (read_bytes (w_mem w1) p sizeof_rts) (ps_imm_data s) No_ctx
     else mk_send (pa_rank a) p sizeof_rts (cf_packet_mr cf) (ps_imm_data s) No_ctx)"
  have "bindR (via_ep be post_req rq a s w1) (\<lambda>(e, s, w). Inr (if is_done e then ec_posted else e, s, w)) = Inr (e, s', w')"
    using run by (cases ?inj) (simp_all add: do_rdv_def Let_def bind_assert allocate_def p_def w1_def rq_def via_ep_kinds split: if_splits)
  then obtain e0 where via: "via_ep be post_req rq a s w1 = Inr (e0, s', w')" and e: "e = (if is_done e0 then ec_posted else e0)"
    by (auto simp: bindR_Inr_iff)
  have ok: "ep_ok (rq_rank rq) w1" using ep by (simp add: rq_def w1_def ep_ok_def)
  have nr0: "\<not> is_retry e0" using nr e by (auto simp: ec_category split: if_splits)
  from net_backend.via_ep_spec [OF be via ok] nr0 obtain ep' where
      v: "if is_short (rq_op rq) then is_done e0 else is_posted e0" "\<forall>r. w_sent r w' = w_sent r w1 @ for_rank r [rq]"
        "w' = w1\<lparr>w_ep := ep'\<rparr>" "ep_ok (rq_rank rq) w'" "ep_pending_ops (w_ep w') = ep_pending_ops (w_ep w1)" by auto
  have "is_posted e" using v(1) e by (auto simp: ec_category split: if_splits)
  moreover have "w_sent (pa_rank a) w' = w_sent (pa_rank a) w @ [rq]" using v(2) by (simp add: rq_def w1_def)
  moreover have "req_bytes (w_mem w') rq = read_bytes (w_mem w1) p sizeof_rts" "rq_size rq = sizeof_rts" "rq_imm rq = ps_imm_data s"
    using v(3) by (simp_all add: rq_def req_bytes_def mk_sends_def mk_send_def)
  moreover have "read_rts (write_bytes m q (read_bytes (w_mem w1) p sizeof_rts)) q = ?rts" for m q
    using h by (simp add: read_rts_copy w1_def)
  moreover have "read_bytes (w_mem w') (pa_local_buffer a) (pa_size a) = read_bytes (w_mem w) (pa_local_buffer a) (pa_size a)"
    using v(3) buf by (simp add: w1_def p_def read_write_rts_apart apart_def)
  ultimately show ?thesis using v(3-5) by (auto simp: w1_def rq_def)
qed

lemma rdv_request:
  assumes be: "net_backend be" and a: "rdv_args cf pe a" and ep: "ep_ok (pa_rank a) w"
    and run: "post_comm cf be pe a w = Inr (st, w')" and acc: "\<not> is_retry (st_error st)"
    and h: "w_next w < 2 ^ 64" "pa_size a < 2 ^ 64" "pa_local_buffer a + pa_size a \<le> w_next w"
    and pk: "apart (pa_local_buffer a) (pa_size a) (get_payload_address (pe_packet pe)) sizeof_rts"
  shows "is_posted (st_error st) \<and> (\<exists>rq. rdv_requested pe a w w' rq)"
  using run
proof (cases rule: post_comm_steps)
  case (early a1 t e s)
  then have "is_retry e" by (auto simp: ec_category)
  with exit_retry [OF early(5)] acc show ?thesis by simp
next
  case (op a1 t s2 w2 s3 s5 w5 e6 s6 w6)
  have "preprocess_args pe a = Inr a" using a by (simp add: preprocess_args_def rdv_args_def Let_def)
  then have a1: "a1 = a" using op(1) by simp
  note op = op [unfolded a1] note p = rdv_protocol [OF a op(2)]
  have out: "pa_direction a = dir_OUT" "pa_allow_posted a" "pa_local_comp a \<noteq> 0" using a by (auto simp: rdv_args_def COMP_NULL_def)
  have s2: "ps_protocol s2 = pr_rdv_zcopy" "ps_packet s2 = pe_packet pe" "ps_rhandler s2 = rhandler_of pe a" "w2 = w"
    using op(3) p(3,4) by (auto simp: set_packet_if_needed_def Let_def bind_assert split: if_splits)
  obtain imm where imm: "encode_msg_type IMM_DATA_MSG_RTS = Inr imm" "decode_imm imm = Inr (Imm_typed IMM_DATA_MSG_RTS)"
    using encode_msg_type_total by blast
  have s3: "s3 = s2\<lparr>ps_imm_data := imm\<rparr>" using op(4) s2(1) imm(1) by (simp add: set_immediate_data_def)
  let ?s4 = "set_status a (set_local_comp pe a s3)"
  have s4: "ps_protocol ?s4 = pr_rdv_zcopy" "ps_packet ?s4 = pe_packet pe" "ps_rhandler ?s4 = rhandler_of pe a"
      "ps_local_comp ?s4 = pa_local_comp a" "ps_imm_data ?s4 = imm"
    using s2 out(2) by (simp_all add: s3 set_status_def set_local_comp_def)
  have s5: "s5 = ?s4\<lparr>ps_internal_ctx := w_next w, ps_comp_passed := True, ps_mr := pa_mr a\<rparr>"
      "w5 = w\<lparr>w_ep := add_pending_ops 1 (w_ep w), w_ctxs := (w_ctxs w)(w_next w \<mapsto> Simple (send_context a (pe_packet pe))), w_next := w_next w + 1\<rparr>"
    using op(5) s2(4) s4 out(3)
    by (simp_all add: set_internal_ctx_def set_user_posted_op_def new_ctx_def bind_assert send_context_def new_internal_context_def Let_def)
  have nr: "\<not> is_retry e6" using exit_retry [OF op(7)] acc by blast
  have ok: "ep_ok (pa_rank a) w5" using ep by (auto intro: ep_ok_pending simp: s5(2))
  have rdv: "do_rdv cf be a t s5 w5 = Inr (e6, s6, w6)" using op(6) out(1) s4(1) by (simp add: post_network_op_def s5(1))
  have "pa_local_buffer a + pa_size a \<le> w_next w5" using h(3) by (simp add: s5(2))
  moreover have "ps_internal_ctx s5 < 2 ^ 64" "apart (pa_local_buffer a) (pa_size a) (get_payload_address (ps_packet s5)) sizeof_rts"
    using h(1) pk s4(2) by (simp_all add: s5(1))
  ultimately have d: "is_posted e6" and r: "\<exists>rq. w_sent (pa_rank a) w6 = w_sent (pa_rank a) w5 @ [rq]
     \<and> rq_size rq = sizeof_rts \<and> length (req_bytes (w_mem w6) rq) = sizeof_rts \<and> rq_imm rq = ps_imm_data s5
     \<and> (\<forall>m p. read_rts (write_bytes m p (req_bytes (w_mem w6) rq)) p
          = \<lparr>rts_rcomp = ps_rhandler s5, rts_send_ctx = ps_internal_ctx s5, rts_tag = pa_tag a, rts_size = pa_size a\<rparr>)"
    and f: "w_ctxs w6 = w_ctxs w5" "w_next w5 \<le> w_next w6" "ep_ok (pa_rank a) w6" "w_archive w6 = w_archive w5"
     "w_signals w6 = w_signals w5" "w_returned w6 = w_returned w5" "ep_pending_ops (w_ep w6) = ep_pending_ops (w_ep w5)"
     "read_bytes (w_mem w6) (pa_local_buffer a) (pa_size a) = read_bytes (w_mem w5) (pa_local_buffer a) (pa_size a)"
    using rdv_posted [OF be rdv nr ok _ h(2)] by blast+
  have fin: "w' = w6" "is_posted (st_error st)" using exit_posted [OF op(7) d out(2)] by auto
  obtain rq where rq: "w_sent (pa_rank a) w6 = w_sent (pa_rank a) w @ [rq]" "rq_size rq = sizeof_rts"
     "length (req_bytes (w_mem w6) rq) = sizeof_rts" "rq_imm rq = imm"
     "\<forall>m p. read_rts (write_bytes m p (req_bytes (w_mem w6) rq)) p = rts_of pe a (w_next w)"
    using r s4(3,5) by (auto simp: s5 rts_of_def add_pending_ops_def ep_sent_def)
  have "rdv_requested pe a w w' rq"
    using rq f imm(2) by (simp add: rdv_requested_def fin(1) s5(2) add_pending_ops_def)
  then show ?thesis using fin(2) by blast
qed

section \<open>The answer of the receiver\<close>

text \<open>The state after the request has met the receive \<open>r\<close>, relative to the state \<open>v\<close> before either: the context
  of the receive waits at \<open>w_next v\<close>, and the answer is on its way in the packet of the request.\<close>

definition rts_answered :: "config \<Rightarrow> int \<Rightarrow> post_comm_args_t \<Rightarrow> addr \<Rightarrow> rts_msg_t \<Rightarrow> world \<Rightarrow> nat \<Rightarrow> net_imm_data_t \<Rightarrow> world \<Rightarrow> bool" where
  "rts_answered cf src r pk rts v key imm v' \<longleftrightarrow>
     (let rc = w_next v; c = rdv_ready cf rts src (recv_context r); pl = get_payload_address pk in
      rdv_key cf rc key (w_archive v') \<and> decode_imm imm = Inr (Imm_typed IMM_DATA_MSG_RTR)
      \<and> ar_tag_bits (w_archive v') = ar_tag_bits (w_archive v) \<and> (cf_writeimm cf \<longrightarrow> archive_inv (w_archive v'))
      \<and> w_sent src v' = w_sent src v @ [mk_send src pl sizeof_rtr (cf_packet_mr cf) imm (Ctx (rc + 1))]
      \<and> (\<exists>m. w_mem v' = write_rtr m pl (rtr_for cf rts key c))
      \<and> w_ctxs v' = (w_ctxs v)(rc \<mapsto> Simple c, rc + 1 \<mapsto> Simple (new_internal_context\<lparr>ic_packet_to_free := pk\<rparr>))
      \<and> w_signals v' = w_signals v \<and> w_returned v' = w_returned v
      \<and> map_pend (w_engines v' (pa_matching_engine r)) = map_pend (w_engines v (pa_matching_engine r))
      \<and> ep_ok src v' \<and> ep_pending_ops (w_ep v') = ep_pending_ops (w_ep v) + 1)"

text \<open>A state in which the two have just met.\<close>

definition rts_met :: "int \<Rightarrow> post_comm_args_t \<Rightarrow> addr \<Rightarrow> rts_msg_t \<Rightarrow> world \<Rightarrow> world \<Rightarrow> bool" where
  "rts_met src r pk rts v x \<longleftrightarrow> w_ctxs x = (w_ctxs v)(w_next v \<mapsto> Simple (recv_context r)) \<and> w_next x = w_next v + 1
     \<and> read_rts (w_mem x) (get_payload_address pk) = rts \<and> pc_rank (w_packets x pk) = src \<and> \<not> pc_is_eager (w_packets x pk)
     \<and> w_ep x = add_pending_ops 1 (w_ep v) \<and> w_archive x = w_archive v \<and> w_signals x = w_signals v \<and> w_returned x = w_returned v
     \<and> map_pend (w_engines x (pa_matching_engine r)) = map_pend (w_engines v (pa_matching_engine r))"

context live_backend
begin

lemma rts_met_answered:
  assumes met: "rts_met src r pk rts v x" and h: "heap_ok v" and sz: "rts_size rts \<le> pa_size r"
    and ep: "ep_ok src v" "\<And>rq. rq_rank rq = src \<Longrightarrow> ok rq"
    and ar: "cf_writeimm cf \<Longrightarrow> archive_room (w_archive v) \<and> w_next v < 2 ^ 64 - 1"
  shows "\<exists>v' key imm. handle_rdv_rts_common cf backend pk (w_next v) x = Inr v' \<and> rts_answered cf src r pk rts v key imm v'"
proof -
  note m = met [unfolded rts_met_def]
  have hx: "heap_ok x" using h m by (auto simp: heap_ok_def less_Suc_eq)
  have ctx: "w_ctxs x (w_next v) = Some (Simple (recv_context r))" using m by simp
  have ok: "ep_ok src x" using ep_ok_pending [OF ep(1)] m by blast
  have rd: "rts = read_rts (w_mem x) (get_payload_address pk)" "src = pc_rank (w_packets x pk)" using m by simp_all
  have ar': "cf_writeimm cf \<Longrightarrow> archive_room (w_archive x) \<and> w_next v < 2 ^ 64 - 1" using ar m by simp
  have sz': "rts_size rts \<le> ic_size (recv_context r)" using sz by simp
  obtain v' key imm where s: "handle_rdv_rts_common cf backend pk (w_next v) x = Inr v'"
      "rdv_key cf (w_next v) key (w_archive v')" "decode_imm imm = Inr (Imm_typed IMM_DATA_MSG_RTR)"
      "ar_tag_bits (w_archive v') = ar_tag_bits (w_archive x)" "cf_writeimm cf \<longrightarrow> archive_inv (w_archive v')"
      "w_sent src v' = w_sent src x @ [mk_send src (get_payload_address pk) sizeof_rtr (cf_packet_mr cf) imm (Ctx (w_next x))]"
      "w_mem v' = write_rtr (w_mem x) (get_payload_address pk) (rtr_for cf rts key (rdv_ready cf rts src (recv_context r)))"
      "w_ctxs v' = (w_ctxs x)(w_next v \<mapsto> Simple (rdv_ready cf rts src (recv_context r)),
           w_next x \<mapsto> Simple (new_internal_context\<lparr>ic_packet_to_free := pk\<rparr>))"
      "w_signals v' = w_signals x" "w_returned v' = w_returned x" "ep_ok src v'" "w_engines v' = w_engines x"
      "ep_pending_ops (w_ep v') = ep_pending_ops (w_ep x)"
    by (rule exE [OF rts_common_spec [OF hx ctx sz' rd ok, of cf]]) (erule ep(2), erule ar', elim exE conjE, rule that, assumption+)
  have ctxs: "w_ctxs v' = (w_ctxs v)(w_next v \<mapsto> Simple (rdv_ready cf rts src (recv_context r)),
      w_next v + 1 \<mapsto> Simple (new_internal_context\<lparr>ic_packet_to_free := pk\<rparr>))" using s(8) m by simp
  have mem: "\<exists>mm. w_mem v' = write_rtr mm (get_payload_address pk) (rtr_for cf rts key (rdv_ready cf rts src (recv_context r)))"
    using s(7) by blast
  have "w_sent src x = w_sent src v" "ep_pending_ops (w_ep x) = ep_pending_ops (w_ep v) + 1"
    using m by (simp_all add: add_pending_ops_def ep_sent_def)
  then have "rts_answered cf src r pk rts v key imm v'"
    unfolding rts_answered_def Let_def using s(2-6,9-) ctxs mem m by simp
  with s(1) show ?thesis by blast
qed

end

text \<open>The arrival of a request at a matching engine.\<close>

definition rts_packet :: "int \<Rightarrow> addr \<Rightarrow> tag_t \<Rightarrow> world \<Rightarrow> world" where
  "rts_packet src pk tag v = v\<lparr>w_packets := (w_packets v)(pk := (w_packets v pk)\<lparr>pc_rank := src, pc_tag := tag, pc_is_eager := False\<rparr>)\<rparr>"

lemma rts_packet_simps [simp]:
  "w_ctxs (rts_packet src pk tag v) = w_ctxs v" "w_mem (rts_packet src pk tag v) = w_mem v"
  "w_engines (rts_packet src pk tag v) = w_engines v" "w_returned (rts_packet src pk tag v) = w_returned v"
  "w_signals (rts_packet src pk tag v) = w_signals v" "w_ep (rts_packet src pk tag v) = w_ep v"
  "w_next (rts_packet src pk tag v) = w_next v" "w_archive (rts_packet src pk tag v) = w_archive v"
  "pc_rank (w_packets (rts_packet src pk tag v) pk) = src" "\<not> pc_is_eager (w_packets (rts_packet src pk tag v) pk)"
  by (simp_all add: rts_packet_def)

lemma rts_arrives:
  assumes "decode_imm (rq_imm rq) = Inr (Imm_typed IMM_DATA_MSG_RTS)" "rts = read_rts (write_bytes (w_mem v) (get_payload_address pk) bs) (get_payload_address pk)"
    and "rr_get (rts_rcomp rts) (w_registry v) = Inr entry" "re_type entry = rh_matching_engine" "re_value entry = eng"
    and "make_key src (rts_tag rts) (policy_of (re_metadata entry)) = Inr key"
  shows "progress_recv cf be (recv_completion src rq pk) (with_payload pk bs v) =
     (let (ret, v) = engine_insert eng key pk it_send (rts_packet src pk (rts_tag rts) (with_payload pk bs v)) in
      if ret = 0 then Inr v else handle_rdv_rts_common cf be pk ret v)"
proof -
  have dm: "decode_message (recv_completion src rq pk) pk (with_payload pk bs v) = Inr (IMM_DATA_MSG_RTS, rq_size rq, 0, 0)"
    using assms(1) by (simp add: decode_message_def recv_completion_def)
  have pk: "(with_payload pk bs v)\<lparr>w_packets := (w_packets v)(pk := (w_packets v pk)\<lparr>pc_rank := src, pc_tag := rts_tag rts, pc_is_eager := False\<rparr>)\<rparr>
      = rts_packet src pk (rts_tag rts) (with_payload pk bs v)" by (simp add: rts_packet_def)
  show ?thesis unfolding progress_recv_def Let_def
    using dm assms(2-6) pk by (simp add: recv_completion_def handle_rdv_rts_def Let_def)
qed

text \<open>The receive comes first.\<close>

lemma recv_then_rts:
  assumes imm: "decode_imm (rq_imm rq) = Inr (Imm_typed IMM_DATA_MSG_RTS)" and rts: "\<And>m p. read_rts (write_bytes m p bs) p = rts"
    and entry: "rr_get (rts_rcomp rts) (w_registry v) = Inr entry" "re_type entry = rh_matching_engine" "re_value entry = pa_matching_engine r"
    and key: "make_key src (rts_tag rts) (policy_of (re_metadata entry)) = Inr key" "make_key (pa_rank r) (pa_tag r) (recv_policy r) = Inr key"
    and r: "recv_args per r" "ep_ok (pa_rank r) v" "heap_ok v" and pk: "pk \<noteq> 0"
    and eng: "table_inv (w_engines v (pa_matching_engine r))" "map_pend (w_engines v (pa_matching_engine r)) key = (\<lambda>_. [])"
  shows "\<exists>sr v1 x. post_comm cf be per r v = Inr (sr, v1) \<and> is_posted (st_error sr)
     \<and> progress_recv cf be (recv_completion src rq pk) (with_payload pk bs v1) = handle_rdv_rts_common cf be pk (w_next v) x
     \<and> rts_met src r pk rts v x"
proof -
  let ?eng = "pa_matching_engine r" and ?p = "map_pend (w_engines v (pa_matching_engine r))"
  obtain s where s: "post_comm cf be per r v = bindR (do_recv cf be r s (with_recv r v)) (\<lambda>(e, s, w). exit_handler per e r s w)"
      "ps_internal_ctx s = w_next v" "ps_protocol s = pr_recv"
    using post_recv_run [OF r(1,2)] by blast
  have nz: "w_next v \<noteq> 0" using r(3) by (auto simp: heap_ok_def)
  obtain tb where tb: "engine_insert ?eng key (w_next v) it_recv (with_recv r v)
        = (0, (with_recv r v)\<lparr>w_engines := (w_engines v)(?eng := tb)\<rparr>)"
      "table_inv tb" "map_pend tb = ?p(key := (?p key)(it_recv := [w_next v]))"
    using engine_insert_first [of "with_recv r v" ?eng "w_next v" key it_recv] eng nz by (auto simp: with_recv_def)
  define v1 where "v1 = (with_recv r v)\<lparr>w_engines := (w_engines v)(?eng := tb)\<rparr>"
  have "exit_handler per ec_posted r s v1 = Inr ((ps_status s)\<lparr>st_error := ec_posted\<rparr>, v1)"
    using s(3) r(1) by (simp add: exit_handler_def recv_args_def ec_category)
  then have post: "post_comm cf be per r v = Inr ((ps_status s)\<lparr>st_error := ec_posted\<rparr>, v1)"
    using s(1,2) tb(1) key(2) by (simp add: do_recv_def v1_def)
  let ?v1 = "rts_packet src pk (rts_tag rts) (with_payload pk bs v1)"
  obtain tb2 where tb2: "engine_insert ?eng key pk it_send ?v1 = (w_next v, ?v1\<lparr>w_engines := (w_engines ?v1)(?eng := tb2)\<rparr>)"
      "map_pend tb2 = (map_pend tb)(key := (map_pend tb key)(it_recv := []))"
    using engine_insert_second [of ?v1 ?eng pk key it_send "w_next v" "[]"] tb pk by (auto simp: v1_def)
  let ?x = "?v1\<lparr>w_engines := (w_engines ?v1)(?eng := tb2)\<rparr>"
  have ent1: "rr_get (rts_rcomp rts) (w_registry v1) = Inr entry" using entry(1) by (simp add: v1_def with_recv_def)
  have arr: "progress_recv cf be (recv_completion src rq pk) (with_payload pk bs v1) = handle_rdv_rts_common cf be pk (w_next v) ?x"
    using rts_arrives [OF imm, of rts v1 pk bs entry ?eng src key cf be] rts ent1 entry(2,3) key(1) tb2(1) nz by simp
  have "map_pend tb2 = ?p" using tb(3) tb2(2) eng(2) by (auto simp: fun_eq_iff)
  then have "rts_met src r pk rts v ?x" using rts by (simp add: rts_met_def v1_def with_recv_def)
  with post arr show ?thesis by (intro exI conjI) (auto simp: ec_category)
qed

text \<open>The request comes first.\<close>

lemma rts_then_recv:
  assumes imm: "decode_imm (rq_imm rq) = Inr (Imm_typed IMM_DATA_MSG_RTS)" and rts: "\<And>m p. read_rts (write_bytes m p bs) p = rts"
    and entry: "rr_get (rts_rcomp rts) (w_registry v) = Inr entry" "re_type entry = rh_matching_engine" "re_value entry = pa_matching_engine r"
    and key: "make_key src (rts_tag rts) (policy_of (re_metadata entry)) = Inr key" "make_key (pa_rank r) (pa_tag r) (recv_policy r) = Inr key"
    and r: "recv_args per r" "ep_ok (pa_rank r) v" "heap_ok v" and pk: "pk \<noteq> 0"
    and eng: "table_inv (w_engines v (pa_matching_engine r))" "map_pend (w_engines v (pa_matching_engine r)) key = (\<lambda>_. [])"
  shows "\<exists>v1 x. progress_recv cf be (recv_completion src rq pk) (with_payload pk bs v) = Inr v1 \<and> rts_met src r pk rts v x
     \<and> (\<forall>v'. handle_rdv_rts_common cf be pk (w_next v) x = Inr v' \<longrightarrow> (\<exists>sr. post_comm cf be per r v1 = Inr (sr, v') \<and> is_posted (st_error sr)))"
proof -
  let ?eng = "pa_matching_engine r" and ?p = "map_pend (w_engines v (pa_matching_engine r))"
  let ?v = "rts_packet src pk (rts_tag rts) (with_payload pk bs v)"
  have nz: "w_next v \<noteq> 0" using r(3) by (auto simp: heap_ok_def)
  obtain tb where tb: "engine_insert ?eng key pk it_send ?v = (0, ?v\<lparr>w_engines := (w_engines v)(?eng := tb)\<rparr>)"
      "table_inv tb" "map_pend tb = ?p(key := (?p key)(it_send := [pk]))"
    using engine_insert_first [of ?v ?eng pk key it_send] eng pk by auto
  define v1 where "v1 = ?v\<lparr>w_engines := (w_engines v)(?eng := tb)\<rparr>"
  have arr: "progress_recv cf be (recv_completion src rq pk) (with_payload pk bs v) = Inr v1"
    using rts_arrives [OF imm, of rts v pk bs entry ?eng src key cf be] rts entry key(1) tb(1) by (simp add: v1_def)
  have ok: "ep_ok (pa_rank r) v1" and nx: "w_next v1 = w_next v" using r(2) by (simp_all add: ep_ok_def v1_def)
  obtain s where s: "post_comm cf be per r v1 = bindR (do_recv cf be r s (with_recv r v1)) (\<lambda>(e, s, w). exit_handler per e r s w)"
      "ps_internal_ctx s = w_next v" "ps_protocol s = pr_recv"
    using post_recv_run [OF r(1) ok] nx by auto
  obtain tb2 where tb2: "engine_insert ?eng key (w_next v) it_recv (with_recv r v1)
        = (pk, (with_recv r v1)\<lparr>w_engines := (w_engines v1)(?eng := tb2)\<rparr>)"
      "map_pend tb2 = (map_pend tb)(key := (map_pend tb key)(it_send := []))"
    using engine_insert_second [of "with_recv r v1" ?eng "w_next v" key it_recv pk "[]"] tb nz by (auto simp: v1_def with_recv_def)
  let ?x = "(with_recv r v1)\<lparr>w_engines := (w_engines v1)(?eng := tb2)\<rparr>"
  have "map_pend tb2 = ?p" using tb(3) tb2(2) eng(2) by (auto simp: fun_eq_iff)
  then have met: "rts_met src r pk rts v ?x" using rts by (simp add: rts_met_def v1_def with_recv_def rts_packet_def)
  have "\<exists>sr. post_comm cf be per r v1 = Inr (sr, v') \<and> is_posted (st_error sr)" if c: "handle_rdv_rts_common cf be pk (w_next v) ?x = Inr v'" for v'
  proof -
    let ?st = "set_posted (ps_status s)"
    have "handle_matched_sendrecv cf be pk (w_next v) (Some (ps_status s)) ?x = Inr (Some ?st, v')"
      using c met by (simp add: handle_matched_sendrecv_def rts_met_def)
    moreover have "exit_handler per ec_posted r (s\<lparr>ps_status := ?st\<rparr>) v' = Inr (?st, v')" "st_error ?st = ec_posted"
      using s(3) r(1) by (simp_all add: exit_handler_def recv_args_def ec_category set_posted_def)
    ultimately show ?thesis using s(1,2) tb2(1) key(2) pk by (simp add: do_recv_def ec_category)
  qed
  with arr met show ?thesis by blast
qed

section \<open>The data and the end of the transfer\<close>

text \<open>What a reliable network does from the answer on.  The answer arrives in a packet of the sender and its
  send completes at the receiver; the writes of the sender reach the memory of the receiver and
  complete; and the receiver learns of the last one by its immediate data or by the message that the sender posts when all
  have completed.\<close>

definition net_completion :: "net_opcode_t \<Rightarrow> int \<Rightarrow> addr \<Rightarrow> net_imm_data_t \<Rightarrow> net_status_t" where
  "net_completion opcode rank user_context imm =
     \<lparr>ns_opcode = opcode, ns_rank = rank, ns_user_context = user_context, ns_length = 0, ns_imm_data = imm\<rparr>"

definition deliver :: "config \<Rightarrow> backend \<Rightarrow> int \<Rightarrow> world \<Rightarrow> net_req \<Rightarrow> addr \<Rightarrow> world \<Rightarrow> world res" where
  "deliver cf be src s rq packet v = progress_recv cf be (recv_completion src rq packet) (with_payload packet (req_bytes (w_mem s) rq) v)"

definition rdv_exchange :: "config \<Rightarrow> backend \<Rightarrow> config \<Rightarrow> backend \<Rightarrow> int \<Rightarrow> int \<Rightarrow> addr \<Rightarrow> addr \<Rightarrow> world \<Rightarrow> world \<Rightarrow> (world \<times> world) res" where
  "rdv_exchange cf be cfr ber src dst spk fpk w v =
     (let rtr = last (w_sent src v) in
      bindR (deliver cf be dst v rtr spk w) (\<lambda>w1.
      bindR (progress_send (net_completion net_SEND src (ctx_addr (rq_ctx rtr)) 0) v) (\<lambda>v.
      let puts = drop (length (w_sent dst w)) (w_sent dst w1);
          v = v\<lparr>w_mem := fold (apply_put (w_mem w1)) puts (w_mem v)\<rparr> in
      bindR (process_loop cf be (map (\<lambda>rq. net_completion net_WRITE dst (ctx_addr (rq_ctx rq)) 0) puts) (None, w1)) (\<lambda>(_, w2).
      bindR (if cf_writeimm cfr then progress_remote_write cfr (net_completion net_REMOTE_WRITE src fpk (rq_imm (last puts))) v
             else deliver cfr ber src w2 (last (w_sent dst w2)) fpk v) (\<lambda>v.
      Inr (w2, v))))))"

lemma net_completion_simps [simp]:
  "ns_opcode (net_completion opc r u i) = opc" "ns_rank (net_completion opc r u i) = r"
  "ns_user_context (net_completion opc r u i) = u" "ns_imm_data (net_completion opc r u i) = i"
  by (simp_all add: net_completion_def)

lemma rdv_chunk_ctx [simp]: "rq_ctx (rdv_chunk mx wi rank b sz mr rtr imm e off) = Ctx e"
  by (simp add: rdv_chunk_def mk_put_def mk_putImm_def Let_def)

lemma chunk_offs_nonempty: "0 < mx \<Longrightarrow> off < sz \<Longrightarrow> chunk_offs mx sz off \<noteq> []"
  by (subst chunk_offs.simps) simp

text \<open>The last write carries the immediate data.\<close>

lemma last_chunk_imm:
  assumes "0 < mx" "off < sz"
  shows "rq_imm (last (map (rdv_chunk mx True rank b sz mr rtr imm e) (chunk_offs mx sz off))) = imm"
  using assms(2)
proof (induction "sz - off" arbitrary: off rule: less_induct)
  case less
  have offs: "chunk_offs mx sz off = off # chunk_offs mx sz (off + mx)" using less.prems assms(1) by (subst chunk_offs.simps) simp
  show ?case
  proof (cases "sz \<le> off + mx")
    case True
    then have "chunk_offs mx sz (off + mx) = []" by (simp add: chunk_offs.simps)
    then show ?thesis using offs True less.prems by (simp add: rdv_chunk_def Let_def mk_putImm_def)
  next
    case False
    have "chunk_offs mx sz (off + mx) \<noteq> []" using chunk_offs_nonempty [of mx "off + mx" sz] assms(1) False by simp
    then show ?thesis using offs less.hyps [of "off + mx"] False assms(1) by simp
  qed
qed

context live_backend
begin

lemma writes_completed:
  assumes x: "w_ctxs w a = Some (Extended x)" "a \<noteq> 0" "xc_signal_count x = int (length nss)" "nss \<noteq> []" "xc_imm_data_rank x = -1"
    and c: "w_ctxs w (xc_internal_ctx x) = Some (Simple c)" "ic_comp c \<noteq> 0"
    and ns: "\<forall>ns\<in>set nss. ns_opcode ns = net_WRITE \<and> ns_user_context ns = a"
    and ep: "ep_ok (ic_rank c) w" "\<And>rq. rq_rank rq = ic_rank c \<Longrightarrow> ok rq"
  shows "\<exists>w' imm. process_loop cf backend nss (f, w) = Inr (f, w') \<and> decode_imm imm = Inr (Imm_typed IMM_DATA_MSG_FIN)
       \<and> w_sent (ic_rank c) w' = w_sent (ic_rank c) w
           @ (if xc_recv_ctx x \<noteq> 0 then [mk_sends (ic_rank c) (le_bytes 8 (xc_recv_ctx x)) imm No_ctx] else [])
       \<and> w_ctxs w' = (w_ctxs w)(a := None, xc_internal_ctx x := None)
       \<and> w_signals w' = w_signals w @ [(ic_comp c, ic_get_status c)]
       \<and> w_returned w' = w_returned w @ (if ic_packet_to_free c \<noteq> 0 then [ic_packet_to_free c] else [])
       \<and> ep_pending_ops (w_ep w') = ep_pending_ops (w_ep w) - (if ic_is_user_posted_op c then 1 else 0)"
proof -
  let ?x = "x\<lparr>xc_signal_count := 1\<rparr>" let ?w = "w\<lparr>w_ctxs := (w_ctxs w)(a \<mapsto> Extended ?x)\<rparr>"
  have len: "int (length (butlast nss)) < xc_signal_count x" "xc_signal_count x - int (length (butlast nss)) = 1"
    using x(3,4) by (simp_all add: of_nat_diff Suc_le_eq)
  have "process_loop cf backend (butlast nss) (f, w) = Inr (f, ?w)"
    using writes_counted [OF x(1,2) _ len(1), of cf backend f] ns len(2) by (auto dest: in_set_butlastD)
  then have run: "process_loop cf backend nss (f, w) = process_completion cf backend (last nss) (f, ?w)"
    using process_loop_append [of cf backend "butlast nss" "[last nss]" "(f, w)"] x(4)
    by (simp, simp add: bindR_def split: sum.splits)
  have ne: "xc_internal_ctx x \<noteq> a" using x(1) c(1) by auto
  have ok: "ep_ok (ic_rank c) ?w" using ep(1) by (simp add: ep_ok_def)
  have p: "w_ctxs ?w a = Some (Extended ?x)" "xc_signal_count ?x = 1" "xc_imm_data_rank ?x = -1"
      "w_ctxs ?w (xc_internal_ctx ?x) = Some (Simple c)" "ns_opcode (last nss) = net_WRITE" "ns_user_context (last nss) = a"
    using x(4,5) c(1) ne ns by simp_all
  obtain w' imm where l: "process_completion cf backend (last nss) (f, ?w) = Inr (f, w')" "decode_imm imm = Inr (Imm_typed IMM_DATA_MSG_FIN)"
      "w_sent (ic_rank c) w' = w_sent (ic_rank c) ?w @ (if xc_recv_ctx ?x \<noteq> 0 then [mk_sends (ic_rank c) (le_bytes 8 (xc_recv_ctx ?x)) imm No_ctx] else [])"
      "w_ctxs w' = (w_ctxs ?w)(a := None, xc_internal_ctx ?x := None)" "w_signals w' = w_signals ?w @ [(ic_comp c, ic_get_status c)]"
      "w_returned w' = w_returned ?w @ (if ic_packet_to_free c \<noteq> 0 then [ic_packet_to_free c] else [])"
      "ep_pending_ops (w_ep w') = ep_pending_ops (w_ep ?w) - (if ic_is_user_posted_op c then 1 else 0)"
    by (rule exE [OF last_write [OF p(1) x(2) p(2-4) c(2) p(5,6) ok, of cf f]]) (erule ep(2), elim exE conjE, rule that, assumption+)
  show ?thesis unfolding run using l by (intro exI [of _ w'] exI [of _ imm]) simp
qed

end

lemma sint_count: "n < 2 ^ 31 \<Longrightarrow> sint (of_nat n :: u32) = int n"
  by (simp add: signed_of_nat signed_take_bit_int_eq_self)

text \<open>The sender, from the answer to the completion of its last write.\<close>

definition rtr_served :: "config \<Rightarrow> backend \<Rightarrow> post_comm_args_t \<Rightarrow> addr \<Rightarrow> addr \<Rightarrow> addr \<Rightarrow> nat \<Rightarrow> addr \<Rightarrow> world \<Rightarrow> world \<Rightarrow> net_req list \<Rightarrow> world \<Rightarrow> bool" where
  "rtr_served cf be a sc p ra key spk w w1 puts w2 \<longleftrightarrow>
     w_sent (pa_rank a) w1 = w_sent (pa_rank a) w @ puts
     \<and> (\<forall>m. fold (apply_put (w_mem w1)) puts m = write_bytes m ra (read_bytes (w_mem w) (pa_local_buffer a) (pa_size a)))
     \<and> process_loop cf be (map (\<lambda>rq. net_completion net_WRITE (pa_rank a) (ctx_addr (rq_ctx rq)) 0) puts) (None, w1) = Inr (None, w2)
     \<and> w_ctxs w2 = (w_ctxs w)(sc := None)
     \<and> w_signals w2 = w_signals w @ [(pa_local_comp a, ic_get_status (send_context a p))]
     \<and> w_returned w2 = w_returned w @ [spk] @ (if p \<noteq> 0 then [p] else [])
     \<and> ep_pending_ops (w_ep w2) = ep_pending_ops (w_ep w) - 1
     \<and> (if cf_writeimm cf
        then decode_imm (rq_imm (last puts)) = Inr (Imm_typed IMM_DATA_MSG_FIN)
          \<and> decode_archive_tag (int (ar_tag_bits (w_archive w))) (rq_imm (last puts)) = Inr (of_nat key)
        else \<exists>imm. decode_imm imm = Inr (Imm_typed IMM_DATA_MSG_FIN)
          \<and> w_sent (pa_rank a) w2 = w_sent (pa_rank a) w1 @ [mk_sends (pa_rank a) (le_bytes 8 key) imm No_ctx])"

context live_backend
begin

lemma rtr_serves:
  assumes w: "w_ctxs w sc = Some (Simple (send_context a p))" "heap_ok w" "ep_ok (pa_rank a) w" "\<And>rq. rq_rank rq = pa_rank a \<Longrightarrow> ok rq"
    and a: "0 < cf_max_msg_size cf" "pa_local_comp a \<noteq> 0" "0 < pa_size a"
      "(pa_size a + cf_max_msg_size cf - 1) div cf_max_msg_size cf < 2 ^ 31" "apart (pa_local_buffer a) (pa_size a) (get_payload_address spk) (length bs)"
    and rq: "decode_imm (rq_imm rq) = Inr (Imm_typed IMM_DATA_MSG_RTR)" "\<And>m q. read_rtr (write_bytes m q bs) q = rtr" "rtr_send_ctx rtr = sc"
    and key: "cf_writeimm cf \<Longrightarrow> archive_inv (w_archive w) \<and> rtr_recv_ctx_or_key rtr < 2 ^ ar_tag_bits (w_archive w)"
      "\<not> cf_writeimm cf \<Longrightarrow> rtr_recv_ctx_or_key rtr \<noteq> 0"
    and ra: "rmr_base (rtr_rmr rtr) + rtr_offset rtr = of_nat ra" "ra + pa_size a < 2 ^ 64"
  shows "\<exists>w1 puts w2. progress_recv cf backend (recv_completion (pa_rank a) rq spk) (with_payload spk bs w) = Inr w1
     \<and> rtr_served cf backend a sc p ra (rtr_recv_ctx_or_key rtr) spk w w1 puts w2"
proof -
  let ?w = "with_payload spk bs w" and ?c = "send_context a p" and ?mx = "cf_max_msg_size cf" and ?wi = "cf_writeimm cf"
  let ?offs = "chunk_offs ?mx (pa_size a) 0"
  have arr: "progress_recv cf backend (recv_completion (pa_rank a) rq spk) ?w = handle_rdv_rtr cf backend spk ?w"
    using rq(1) by (simp add: progress_recv_def decode_message_def recv_completion_def)
  have h: "heap_ok ?w" "ep_ok (pa_rank a) ?w" using w(2,3) by (simp_all add: heap_ok_def ep_ok_def)
  have rd: "rtr = read_rtr (w_mem ?w) (get_payload_address spk)" using rq(2) by simp
  have cx: "w_ctxs ?w (rtr_send_ctx rtr) = Some (Simple ?c)" using w(1) rq(3) by simp
  have k: "?wi \<Longrightarrow> archive_inv (w_archive ?w) \<and> rtr_recv_ctx_or_key rtr < 2 ^ ar_tag_bits (w_archive ?w)" using key(1) by simp
  have okc: "ep_ok (ic_rank ?c) ?w" using h(2) by simp
  let ?x = "new_internal_context_extended\<lparr>xc_internal_ctx := rtr_send_ctx rtr,
     xc_signal_count := sint (of_nat (length (chunk_offs ?mx (ic_size ?c) 0)) :: u32), xc_recv_ctx := (if ?wi then 0 else rtr_recv_ctx_or_key rtr)\<rparr>"
  obtain w1 imm where r: "handle_rdv_rtr cf backend spk ?w = Inr w1"
      "?wi \<longrightarrow> decode_imm imm = Inr (Imm_typed IMM_DATA_MSG_FIN) \<and> decode_archive_tag (int (ar_tag_bits (w_archive ?w))) imm = Inr (of_nat (rtr_recv_ctx_or_key rtr))"
      "w_sent (ic_rank ?c) w1 = w_sent (ic_rank ?c) ?w
           @ map (rdv_chunk ?mx ?wi (ic_rank ?c) (ic_buffer ?c) (ic_size ?c) (ic_mr (rdv_sending cf ?c)) rtr imm (w_next ?w)) (chunk_offs ?mx (ic_size ?c) 0)"
      "w_ctxs w1 = (w_ctxs ?w)(w_next ?w \<mapsto> Extended ?x, rtr_send_ctx rtr \<mapsto> Simple (rdv_sending cf ?c))"
      "w_mem w1 = w_mem ?w" "w_signals w1 = w_signals ?w" "w_returned w1 = w_returned ?w @ [spk]" "ep_ok (ic_rank ?c) w1"
      "ep_pending_ops (w_ep w1) = ep_pending_ops (w_ep ?w)"
    by (rule exE [OF handle_rdv_rtr_spec [OF h(1) rd cx a(1) okc]])
      (simp add: w(4), erule k, elim exE conjE, rule that, assumption+)
  define x where "x = ?x"
  note r = r [folded x_def]
  define puts where "puts = map (rdv_chunk ?mx ?wi (pa_rank a) (pa_local_buffer a) (pa_size a) (ic_mr (rdv_sending cf ?c)) rtr imm (w_next w)) ?offs"
  have sent: "w_sent (pa_rank a) w1 = w_sent (pa_rank a) w @ puts" using r(3) by (simp add: puts_def)
  have fresh: "w_ctxs w (w_next w) = None" "w_next w \<noteq> 0" "sc \<noteq> w_next w" using w(1,2) by (auto simp: heap_ok_def)
  let ?nss = "map (\<lambda>rq. net_completion net_WRITE (pa_rank a) (ctx_addr (rq_ctx rq)) 0) puts"
  have len: "length ?offs < 2 ^ 31" using length_chunk_offs [OF a(1), of "pa_size a" 0] a(4) by simp
  have ext: "w_ctxs w1 (w_next w) = Some (Extended x)" using r(4) rq(3) fresh(3) by simp
  have cnt: "xc_signal_count x = int (length ?nss)" using sint_count [OF len] by (simp add: x_def puts_def)
  have ne: "?nss \<noteq> []" using chunk_offs_nonempty [OF a(1,3)] by (simp add: puts_def)
  have rk: "xc_imm_data_rank x = -1" by (simp add: x_def new_internal_context_extended_def)
  have cx1: "w_ctxs w1 (xc_internal_ctx x) = Some (Simple (rdv_sending cf ?c))" using r(4) by (simp add: x_def)
  have cm: "ic_comp (rdv_sending cf ?c) \<noteq> 0" using a(2) by simp
  have all: "\<forall>ns\<in>set ?nss. ns_opcode ns = net_WRITE \<and> ns_user_context ns = w_next w" by (auto simp: puts_def)
  have ok1: "ep_ok (ic_rank (rdv_sending cf ?c)) w1" using r(8) by simp
  obtain w2 fin where l: "process_loop cf backend ?nss (None, w1) = Inr (None, w2)" "decode_imm fin = Inr (Imm_typed IMM_DATA_MSG_FIN)"
      "w_sent (ic_rank (rdv_sending cf ?c)) w2 = w_sent (ic_rank (rdv_sending cf ?c)) w1
           @ (if xc_recv_ctx x \<noteq> 0 then [mk_sends (ic_rank (rdv_sending cf ?c)) (le_bytes 8 (xc_recv_ctx x)) fin No_ctx] else [])"
      "w_ctxs w2 = (w_ctxs w1)(w_next w := None, xc_internal_ctx x := None)"
      "w_signals w2 = w_signals w1 @ [(ic_comp (rdv_sending cf ?c), ic_get_status (rdv_sending cf ?c))]"
      "w_returned w2 = w_returned w1 @ (if ic_packet_to_free (rdv_sending cf ?c) \<noteq> 0 then [ic_packet_to_free (rdv_sending cf ?c)] else [])"
      "ep_pending_ops (w_ep w2) = ep_pending_ops (w_ep w1) - (if ic_is_user_posted_op (rdv_sending cf ?c) then 1 else 0)"
    by (rule exE [OF writes_completed [OF ext fresh(2) cnt ne rk cx1 cm all ok1, of cf None]])
      (simp add: w(4), elim exE conjE, rule that, assumption+)
  have "read_bytes (w_mem w1) (pa_local_buffer a) (pa_size a) = read_bytes (w_mem w) (pa_local_buffer a) (pa_size a)"
    using r(5) read_write_apart [OF a(5)] by simp
  then have copy: "fold (apply_put (w_mem w1)) puts m = write_bytes m ra (read_bytes (w_mem w) (pa_local_buffer a) (pa_size a))" for m
    unfolding puts_def using chunks_copy [OF ra a(1), of 0] by simp
  have ctxs: "w_ctxs w2 = (w_ctxs w)(sc := None)" using l(4) r(4) rq(3) fresh by (auto simp: x_def)
  have tell: "if ?wi then decode_imm (rq_imm (last puts)) = Inr (Imm_typed IMM_DATA_MSG_FIN)
          \<and> decode_archive_tag (int (ar_tag_bits (w_archive w))) (rq_imm (last puts)) = Inr (of_nat (rtr_recv_ctx_or_key rtr))
        else \<exists>imm. decode_imm imm = Inr (Imm_typed IMM_DATA_MSG_FIN)
          \<and> w_sent (pa_rank a) w2 = w_sent (pa_rank a) w1 @ [mk_sends (pa_rank a) (le_bytes 8 (rtr_recv_ctx_or_key rtr)) imm No_ctx]"
    using r(2) l(2,3) key(2) last_chunk_imm [OF a(1,3)] by (auto simp: puts_def x_def)
  have "rtr_served cf backend a sc p ra (rtr_recv_ctx_or_key rtr) spk w w1 puts w2"
    unfolding rtr_served_def by (intro conjI allI sent copy l(1) ctxs tell) (use l(5-7) r(6,7,9) in \<open>simp_all add: ic_get_status_def\<close>)
  with arr r(1) show ?thesis by auto
qed

end

text \<open>The receiver, from the completion of its answer to the end.\<close>

definition rdv_received :: "int \<Rightarrow> post_comm_args_t \<Rightarrow> tag_t \<Rightarrow> nat \<Rightarrow> u8 list \<Rightarrow> addr \<Rightarrow> addr \<Rightarrow> world \<Rightarrow> world \<Rightarrow> bool" where
  "rdv_received src r tag n data pk fpk v v' \<longleftrightarrow>
     w_signals v' = w_signals v @ [(pa_local_comp r, matched_status src tag n r)]
     \<and> read_bytes (w_mem v') (pa_local_buffer r) n = data
     \<and> w_ctxs v' = w_ctxs v \<and> w_returned v' = w_returned v @ [pk] @ (if fpk \<noteq> 0 then [fpk] else [])
     \<and> map_pend (w_engines v' (pa_matching_engine r)) = map_pend (w_engines v (pa_matching_engine r))
     \<and> ep_pending_ops (w_ep v') = ep_pending_ops (w_ep v)"

text \<open>The receiver between the completion of its answer and the notification, with the data in place.\<close>

definition rdv_placed :: "config \<Rightarrow> int \<Rightarrow> post_comm_args_t \<Rightarrow> rts_msg_t \<Rightarrow> u8 list \<Rightarrow> addr \<Rightarrow> world \<Rightarrow> world \<Rightarrow> bool" where
  "rdv_placed cf src r rts data pk v y \<longleftrightarrow>
     w_ctxs y = (w_ctxs v)(w_next v \<mapsto> Simple (rdv_ready cf rts src (recv_context r)))
     \<and> read_bytes (w_mem y) (pa_local_buffer r) (rts_size rts) = data
     \<and> w_signals y = w_signals v \<and> w_returned y = w_returned v @ [pk]
     \<and> map_pend (w_engines y (pa_matching_engine r)) = map_pend (w_engines v (pa_matching_engine r))
     \<and> ep_pending_ops (w_ep y) = ep_pending_ops (w_ep v) + 1"

lemma answer_sent:
  assumes an: "rts_answered cf src r pk rts v key imm v'" and h: "heap_ok v" and pk: "pk \<noteq> 0" and len: "length data = rts_size rts"
  shows "\<exists>y. progress_send (net_completion net_SEND src (w_next v + 1) 0) v' = Inr y \<and> w_mem y = w_mem v' \<and> w_archive y = w_archive v'
     \<and> rdv_placed cf src r rts data pk v (y\<lparr>w_mem := write_bytes m (pa_local_buffer r) data\<rparr>)"
proof -
  let ?c = "new_internal_context\<lparr>ic_packet_to_free := pk\<rparr>" let ?y = "ctx_destructor ?c (v'\<lparr>w_ctxs := (w_ctxs v')(w_next v + 1 := None)\<rparr>)"
  note a = an [unfolded rts_answered_def Let_def]
  have "w_ctxs v' (w_next v + 1) = Some (Simple ?c)" using a by simp
  then have run: "progress_send (net_completion net_SEND src (w_next v + 1) 0) v' = Inr ?y"
    by (simp add: progress_send_def free_ctx_and_signal_comp_def delete_ctx_def get_ctx_def new_internal_context_def)
  have fresh: "w_ctxs v (w_next v + 1) = None" using h by (auto simp: heap_ok_def)
  have "(w_ctxs v)(w_next v \<mapsto> x, w_next v + 1 := None) = (w_ctxs v)(w_next v \<mapsto> x)" for x using fresh by (auto simp: fun_eq_iff)
  moreover have "w_ctxs v' = (w_ctxs v)(w_next v \<mapsto> Simple (rdv_ready cf rts src (recv_context r)), w_next v + 1 \<mapsto> Simple ?c)" using a by blast
  ultimately have ctxs: "w_ctxs ?y = (w_ctxs v)(w_next v \<mapsto> Simple (rdv_ready cf rts src (recv_context r)))" by simp
  show ?thesis
    using run ctxs a pk len by (intro exI [of _ ?y]) (simp add: rdv_placed_def new_internal_context_def)
qed

text \<open>The end: the context of the receive is completed.\<close>

lemma placed_completes:
  assumes p: "rdv_placed cf src r rts data pk v y" and h: "heap_ok v" and c: "pa_local_comp r \<noteq> 0"
    and z: "w_ctxs z = w_ctxs y" "w_signals z = w_signals y" "w_engines z = w_engines y" "w_ep z = w_ep y"
      "read_bytes (w_mem z) (pa_local_buffer r) (rts_size rts) = read_bytes (w_mem y) (pa_local_buffer r) (rts_size rts)"
      "w_returned z = w_returned y @ (if fpk \<noteq> 0 then [fpk] else [])"
  shows "\<exists>v'. handle_rdv_remote_comp (w_next v) z = Inr v' \<and> rdv_received src r (rts_tag rts) (rts_size rts) data pk fpk v v'"
proof -
  let ?c = "rdv_ready cf rts src (recv_context r)"
  let ?v = "comp_signal (ic_comp ?c) (ic_get_status ?c) (ctx_destructor ?c (z\<lparr>w_ctxs := (w_ctxs z)(w_next v := None)\<rparr>))"
  note p = p [unfolded rdv_placed_def]
  have "w_ctxs z (w_next v) = Some (Simple ?c)" using p z(1) by simp
  then have run: "handle_rdv_remote_comp (w_next v) z = Inr ?v"
    using free_ctx_fields [of z "w_next v" ?c] c by (simp add: handle_rdv_remote_comp_def)
  have st: "ic_get_status ?c = matched_status src (rts_tag rts) (rts_size rts) r"
    by (simp add: ic_get_status_def matched_status_def set_done_def status_init_def)
  have "w_ctxs v (w_next v) = None" using h by (auto simp: heap_ok_def)
  then have "(w_ctxs v)(w_next v := None) = w_ctxs v" by auto
  then have "rdv_received src r (rts_tag rts) (rts_size rts) data pk fpk v ?v"
    using p z by (simp add: rdv_received_def st comp_signal_def)
  with run show ?thesis by blast
qed

lemma rdv_notified:
  assumes p: "rdv_placed cf src r rts data pk v y" and h: "heap_ok v" "w_next v < 2 ^ 64 - 1" and c: "pa_local_comp r \<noteq> 0"
    and key: "rdv_key cf (w_next v) key (w_archive y)" "cf_writeimm cf \<longrightarrow> archive_inv (w_archive y)"
    and wi: "cf_writeimm cf \<Longrightarrow> decode_imm imm = Inr (Imm_typed IMM_DATA_MSG_FIN)
         \<and> decode_archive_tag (int (ar_tag_bits (w_archive y))) imm = Inr (of_nat key)"
    and fin: "\<not> cf_writeimm cf \<Longrightarrow> fpk \<noteq> 0 \<and> apart (pa_local_buffer r) (rts_size rts) (get_payload_address fpk) 8
         \<and> decode_imm (rq_imm rq) = Inr (Imm_typed IMM_DATA_MSG_FIN) \<and> req_bytes (w_mem s) rq = le_bytes 8 key"
  shows "\<exists>v'. (if cf_writeimm cf then progress_remote_write cf (net_completion net_REMOTE_WRITE src fpk imm) y else deliver cf be src s rq fpk y) = Inr v'
     \<and> rdv_received src r (rts_tag rts) (rts_size rts) data pk fpk v v'"
proof (cases "cf_writeimm cf")
  case True
  let ?ar = "w_archive y" let ?z0 = "if fpk \<noteq> 0 then put_back fpk y else y"
  have u: "unat (of_nat (w_next v) :: u64) = w_next v" using h(2) by (simp add: unsigned_of_nat take_bit_nat_eq_self)
  moreover have "unat empty_value = 2 ^ 64 - 1" by (simp add: empty_value_def unsigned_minus_1_eq_mask mask_eq_exp_minus_1)
  ultimately have ne: "(of_nat (w_next v) :: u64) \<noteq> empty_value" using h(2) by auto
  have peek: "archive_peek (of_nat key) ?ar = Inr (of_nat (w_next v))" using key(1) True by (simp add: rdv_key_def)
  then obtain ar' where rm: "archive_remove (of_nat key) ?ar = Inr (of_nat (w_next v), ar')"
    using ne by (auto simp: archive_peek_def archive_remove_def bind_assert Let_def split: if_splits)
  have "\<exists>v'. handle_rdv_remote_comp (w_next v) (?z0\<lparr>w_archive := ar'\<rparr>) = Inr v' \<and> rdv_received src r (rts_tag rts) (rts_size rts) data pk fpk v v'"
    by (rule placed_completes [OF p h(1) c]) (simp_all add: put_back_def)
  then obtain v' where v': "handle_rdv_remote_comp (w_next v) (?z0\<lparr>w_archive := ar'\<rparr>) = Inr v'" "rdv_received src r (rts_tag rts) (rts_size rts) data pk fpk v v'" by blast
  have "w_archive ?z0 = ?ar" by simp
  then have "progress_remote_write cf (net_completion net_REMOTE_WRITE src fpk imm) y = Inr v'"
    using wi True rm v'(1) u by (cases "fpk = 0") (simp_all add: progress_remote_write_def Let_def)
  then show ?thesis using True v'(2) by simp
next
  case False
  then have k: "key = w_next v" using key(1) by (simp add: rdv_key_def)
  note f = fin [OF False]
  let ?y = "with_payload fpk (le_bytes 8 key) y"
  have "load (w_mem ?y) (get_payload_address fpk) 8 = key" using h(2) k by (simp add: load_def le_nat_le_bytes)
  moreover obtain v' where v': "handle_rdv_remote_comp (w_next v) (put_back fpk ?y) = Inr v'" "rdv_received src r (rts_tag rts) (rts_size rts) data pk fpk v v'"
    using placed_completes [OF p h(1) c, of "put_back fpk ?y" fpk] f read_write_apart [of "pa_local_buffer r" "rts_size rts" "get_payload_address fpk" "le_bytes 8 key"]
    by (auto simp: put_back_def)
  ultimately have "deliver cf be src s rq fpk y = Inr v'"
    using f k by (simp add: deliver_def progress_recv_def decode_message_def recv_completion_def handle_rdv_fin_def Let_def)
  then show ?thesis using False v'(2) by simp
qed

section \<open>The whole transfer\<close>

text \<open>What both processes look like in the end.\<close>

definition rdv_sent :: "post_comm_args_t \<Rightarrow> addr \<Rightarrow> addr \<Rightarrow> world \<Rightarrow> world \<Rightarrow> bool" where
  "rdv_sent a p spk w w' \<longleftrightarrow>
     w_signals w' = w_signals w @ [(pa_local_comp a, matched_status (pa_rank a) (pa_tag a) (pa_size a) a)]
     \<and> w_ctxs w' = w_ctxs w \<and> w_returned w' = w_returned w @ [spk] @ (if p \<noteq> 0 then [p] else [])
     \<and> ep_pending_ops (w_ep w') = ep_pending_ops (w_ep w)"

lemma rdv_exchange_completes:
  assumes be: "live_backend be ok" "\<And>rq. rq_rank rq = pa_rank a \<Longrightarrow> ok rq"
    and w: "heap_ok w" "rdv_requested pe a w w1 rq0" "w_next w < 2 ^ 64" "0 < pa_size a" "pa_local_comp a \<noteq> 0"
    and cf: "0 < cf_max_msg_size cf" "(pa_size a + cf_max_msg_size cf - 1) div cf_max_msg_size cf < 2 ^ 31" "cf_writeimm cf = cf_writeimm cfr"
      "cf_writeimm cf \<Longrightarrow> archive_inv (w_archive w) \<and> ar_tag_bits (w_archive w) = ar_tag_bits (w_archive v)"
    and v: "heap_ok v" "w_next v < 2 ^ 64 - 1" "pa_local_comp r \<noteq> 0" "pk \<noteq> 0" "pa_local_buffer r + pa_size a < 2 ^ 64"
    and an: "rts_answered cfr src r pk (rts_of pe a (w_next w)) v key imm v1"
    and sp: "apart (pa_local_buffer a) (pa_size a) (get_payload_address spk) sizeof_rtr"
    and fp: "\<not> cf_writeimm cf \<Longrightarrow> fpk \<noteq> 0 \<and> apart (pa_local_buffer r) (pa_size a) (get_payload_address fpk) 8"
  shows "\<exists>w' v'. rdv_exchange cf be cfr ber src (pa_rank a) spk fpk w1 v1 = Inr (w', v') \<and> rdv_sent a (pe_packet pe) spk w w'
     \<and> rdv_received src r (pa_tag a) (pa_size a) (read_bytes (w_mem w) (pa_local_buffer a) (pa_size a)) pk fpk v v'"
proof -
  let ?rts = "rts_of pe a (w_next w)" and ?data = "read_bytes (w_mem w) (pa_local_buffer a) (pa_size a)" and ?pl = "get_payload_address pk"
  let ?c = "rdv_ready cfr ?rts src (recv_context r)" and ?dst = "pa_rank a"
  let ?rtr = "rtr_for cfr ?rts key ?c"
  note q = w(2) [unfolded rdv_requested_def] and a = an [unfolded rts_answered_def Let_def]
  have rts: "rts_size ?rts = pa_size a" "rts_tag ?rts = pa_tag a" "rts_send_ctx ?rts = w_next w" by (simp_all add: rts_of_def)
  let ?rq = "mk_send src ?pl sizeof_rtr (cf_packet_mr cfr) imm (Ctx (w_next v + 1))"
  have lastq: "last (w_sent src v1) = ?rq" using a by simp
  have rqf: "rq_imm ?rq = imm" "rq_ctx ?rq = Ctx (w_next v + 1)" "req_bytes (w_mem v1) ?rq = read_bytes (w_mem v1) ?pl sizeof_rtr"
    by (simp_all add: mk_send_def req_bytes_def)
  have key64: "key < 2 ^ 64"
  proof (cases "cf_writeimm cfr")
    case True
    then have "key < 2 ^ ar_tag_bits (w_archive v1)" "ar_tag_bits (w_archive v1) \<le> 16" using a by (auto simp: rdv_key_def archive_inv_def)
    moreover have "(2 :: nat) ^ ar_tag_bits (w_archive v1) \<le> 2 ^ 16" using calculation(2) by (intro power_increasing) auto
    ultimately show ?thesis by simp
  qed (use a v(2) in \<open>simp add: rdv_key_def\<close>)
  have rtr: "read_rtr (write_bytes m x (read_bytes (w_mem v1) ?pl sizeof_rtr)) x = ?rtr" for m x
    using a w(3) key64 rts(3) by (auto simp: read_rtr_copy rtr_for_def)
  have rf: "rtr_send_ctx ?rtr = w_next w" "rtr_recv_ctx_or_key ?rtr = key" "rmr_base (rtr_rmr ?rtr) + rtr_offset ?rtr = of_nat (pa_local_buffer r)"
    by (simp_all add: rtr_for_def rts(3))
  have w1: "w_ctxs w1 (w_next w) = Some (Simple (send_context a (pe_packet pe)))" "heap_ok w1" "ep_ok ?dst w1"
    using q w(1) by (auto simp: heap_ok_def)
  have k1: "cf_writeimm cf \<Longrightarrow> archive_inv (w_archive w1) \<and> rtr_recv_ctx_or_key ?rtr < 2 ^ ar_tag_bits (w_archive w1)"
      "\<not> cf_writeimm cf \<Longrightarrow> rtr_recv_ctx_or_key ?rtr \<noteq> 0"
    unfolding rf(2) using q a cf(3,4) v(1) by (auto simp: rdv_key_def heap_ok_def)
  have im: "decode_imm (rq_imm ?rq) = Inr (Imm_typed IMM_DATA_MSG_RTR)" using a rqf(1) by simp
  have ap: "apart (pa_local_buffer a) (pa_size a) (get_payload_address spk) (length (read_bytes (w_mem v1) ?pl sizeof_rtr))" using sp by simp
  obtain w2 puts w3 where s: "progress_recv cf be (recv_completion ?dst ?rq spk) (with_payload spk (read_bytes (w_mem v1) ?pl sizeof_rtr) w1) = Inr w2"
      "rtr_served cf be a (w_next w) (pe_packet pe) (pa_local_buffer r) key spk w1 w2 puts w3"
    using live_backend.rtr_serves [OF be(1) w1 be(2) cf(1) w(5,4) cf(2) ap im rtr rf(1) k1 rf(3) v(5)] by (auto simp: rf(2))
  note sv = s(2) [unfolded rtr_served_def]
  have data: "read_bytes (w_mem w1) (pa_local_buffer a) (pa_size a) = ?data" using q by blast
  have len: "length ?data = rts_size ?rts" by (simp add: rts)
  obtain y where y: "progress_send (net_completion net_SEND src (w_next v + 1) 0) v1 = Inr y" "w_mem y = w_mem v1" "w_archive y = w_archive v1"
      "rdv_placed cfr src r ?rts ?data pk v (y\<lparr>w_mem := write_bytes (w_mem v1) (pa_local_buffer r) ?data\<rparr>)"
    using answer_sent [OF an v(1,4) len] by blast
  let ?y = "y\<lparr>w_mem := write_bytes (w_mem v1) (pa_local_buffer r) ?data\<rparr>"
  have put: "fold (apply_put (w_mem w2)) puts (w_mem v1) = write_bytes (w_mem v1) (pa_local_buffer r) ?data" using sv data by simp
  have n1: "rdv_key cfr (w_next v) key (w_archive ?y)" "cf_writeimm cfr \<longrightarrow> archive_inv (w_archive ?y)" using a y(3) by simp_all
  have n2: "cf_writeimm cfr \<Longrightarrow> decode_imm (rq_imm (last puts)) = Inr (Imm_typed IMM_DATA_MSG_FIN)
         \<and> decode_archive_tag (int (ar_tag_bits (w_archive ?y))) (rq_imm (last puts)) = Inr (of_nat key)"
    using sv cf(3,4) q a y(3) by simp
  have n3: "\<not> cf_writeimm cfr \<Longrightarrow> fpk \<noteq> 0 \<and> apart (pa_local_buffer r) (rts_size ?rts) (get_payload_address fpk) 8
         \<and> decode_imm (rq_imm (last (w_sent ?dst w3))) = Inr (Imm_typed IMM_DATA_MSG_FIN) \<and> req_bytes (w_mem w3) (last (w_sent ?dst w3)) = le_bytes 8 key"
    using sv cf(3) fp rts(1) by (auto simp: mk_sends_def req_bytes_def)
  obtain v' where v': "(if cf_writeimm cfr then progress_remote_write cfr (net_completion net_REMOTE_WRITE src fpk (rq_imm (last puts))) ?y
        else deliver cfr ber src w3 (last (w_sent ?dst w3)) fpk ?y) = Inr v'" "rdv_received src r (pa_tag a) (pa_size a) ?data pk fpk v v'"
    using rdv_notified [OF y(4) v(1-3) n1 n2 n3] unfolding rts(1,2) by blast
  have new: "drop (length (w_sent ?dst w1)) (w_sent ?dst w2) = puts" using sv by simp
  have loop: "process_loop cf be (map (\<lambda>rq. net_completion net_WRITE ?dst (ctx_addr (rq_ctx rq)) 0) puts) (None, w2) = Inr (None, w3)" using sv by blast
  have "rdv_exchange cf be cfr ber src ?dst spk fpk w1 v1 = Inr (w3, v')"
    unfolding rdv_exchange_def Let_def lastq deliver_def rqf s(1) bindR_simps ctx_addr.simps y(1,2) new put loop prod.case
    using v'(1) by (cases "cf_writeimm cfr") (simp_all add: deliver_def)
  moreover have "w_ctxs w3 = w_ctxs w"
  proof -
    have "w_ctxs w (w_next w) = None" using w(1) by (auto simp: heap_ok_def)
    then have "(w_ctxs w)(w_next w := None) = w_ctxs w" by auto
    then show ?thesis using sv q by simp
  qed
  then have "rdv_sent a (pe_packet pe) spk w w3"
    using sv q by (simp add: rdv_sent_def ic_get_status_def matched_status_def set_done_def status_init_def)
  ultimately show ?thesis using v'(2) by blast
qed

text \<open>The two processes before the transfer.  Buffers are apart from the packets that the network fills, addresses and
  sizes fit in the 64 bits they have in the messages, the number of chunks fits in the signal counter, and where the end is signalled by
  immediate data the archives of the two have the same width and there is room for one more receive.\<close>

definition rdv_sender_ok :: "config \<Rightarrow> post_env \<Rightarrow> post_comm_args_t \<Rightarrow> addr \<Rightarrow> world \<Rightarrow> bool" where
  "rdv_sender_ok cf pe a spk w \<longleftrightarrow> heap_ok w \<and> ep_ok (pa_rank a) w \<and> w_next w < 2 ^ 64 \<and> pa_size a < 2 ^ 64
     \<and> pa_local_buffer a + pa_size a \<le> w_next w
     \<and> apart (pa_local_buffer a) (pa_size a) (get_payload_address (pe_packet pe)) sizeof_rts
     \<and> apart (pa_local_buffer a) (pa_size a) (get_payload_address spk) sizeof_rtr
     \<and> 0 < cf_max_msg_size cf \<and> (pa_size a + cf_max_msg_size cf - 1) div cf_max_msg_size cf < 2 ^ 31
     \<and> (cf_writeimm cf \<longrightarrow> archive_inv (w_archive w))"

definition rdv_receiver_ok :: "config \<Rightarrow> int \<Rightarrow> post_comm_args_t \<Rightarrow> nat \<Rightarrow> key_t \<Rightarrow> addr \<Rightarrow> addr \<Rightarrow> world \<Rightarrow> bool" where
  "rdv_receiver_ok cf src r n key pk fpk v \<longleftrightarrow> heap_ok v \<and> ep_ok src v \<and> ep_ok (pa_rank r) v \<and> w_next v < 2 ^ 64 - 1
     \<and> n \<le> pa_size r \<and> pa_local_buffer r + n < 2 ^ 64 \<and> pk \<noteq> 0
     \<and> table_inv (w_engines v (pa_matching_engine r)) \<and> map_pend (w_engines v (pa_matching_engine r)) key = (\<lambda>_. [])
     \<and> (if cf_writeimm cf then archive_room (w_archive v) else fpk \<noteq> 0 \<and> apart (pa_local_buffer r) n (get_payload_address fpk) 8)"

text \<open>C2.  A send that is too large for a packet reaches the receive that matches it, whichever of the two
  comes first.  The accepted \<^verbatim>\<open>post_send\<close> hands the network one request and waits.  When request and receive have
  met, the receiver answers, the sender's writes, in chunks of the largest message size, fill the receive
  buffer with the bytes that were sent, and both sides complete: each completion object is signalled once, with the rank, the tag, the size
  and the buffer of its operation, both contexts are gone, every packet is back in its pool, the matching engine is as before and no operation is left pending.  This holds for
  both ways to signal the end.\<close>

theorem rendezvous_transfer:
  assumes "live_backend be ok" "\<And>rq. rq_rank rq = pa_rank a \<Longrightarrow> ok rq" "live_backend ber okr" "\<And>rq. rq_rank rq = src \<Longrightarrow> okr rq"
    and "rdv_args cf pe (a\<lparr>pa_direction := dir_OUT, pa_rmr := rmr_empty\<rparr>)" "rdv_sender_ok cf pe a spk w" "pa_matching_engine a \<noteq> 0"
    and "post_send_x cf be pe a w = Inr (st, w1)" "\<not> is_retry (st_error st)"
    and "recv_args per (r\<lparr>pa_direction := dir_IN, pa_rmr := rmr_empty, pa_remote_comp := 0\<rparr>)" "rdv_receiver_ok cfr src r (pa_size a) key pk fpk v"
    and "rh = get_rhandler (pe_engine_base pe (pa_matching_engine a)) (pa_matching_policy a)" "rr_get rh (w_registry v) = Inr entry"
      "re_type entry = rh_matching_engine" "re_value entry = pa_matching_engine r"
    and "make_key src (pa_tag a) (policy_of (re_metadata entry)) = Inr key" "make_key (pa_rank r) (pa_tag r) (recv_policy r) = Inr key"
    and "cf_writeimm cf = cf_writeimm cfr" "ar_tag_bits (w_archive w) = ar_tag_bits (w_archive v)"
  shows "\<exists>rq. w_sent (pa_rank a) w1 = w_sent (pa_rank a) w @ [rq] \<and> is_posted (st_error st)
     \<and> (\<exists>sr v1 v2 w' v'. post_recv_x cfr ber per r v = Inr (sr, v1) \<and> is_posted (st_error sr) \<and> deliver cfr ber src w1 rq pk v1 = Inr v2
          \<and> rdv_exchange cf be cfr ber src (pa_rank a) spk fpk w1 v2 = Inr (w', v') \<and> rdv_sent a (pe_packet pe) spk w w'
          \<and> rdv_received src r (pa_tag a) (pa_size a) (read_bytes (w_mem w) (pa_local_buffer a) (pa_size a)) pk fpk v v')
     \<and> (\<exists>sr v1 v2 w' v'. deliver cfr ber src w1 rq pk v = Inr v1 \<and> post_recv_x cfr ber per r v1 = Inr (sr, v2) \<and> is_posted (st_error sr)
          \<and> rdv_exchange cf be cfr ber src (pa_rank a) spk fpk w1 v2 = Inr (w', v') \<and> rdv_sent a (pe_packet pe) spk w w'
          \<and> rdv_received src r (pa_tag a) (pa_size a) (read_bytes (w_mem w) (pa_local_buffer a) (pa_size a)) pk fpk v v')"
proof -
  let ?a = "a\<lparr>pa_direction := dir_OUT, pa_remote_disp := 0, pa_rmr := rmr_empty, pa_remote_comp := 0\<rparr>"
  let ?r = "r\<lparr>pa_direction := dir_IN, pa_remote_disp := 0, pa_rmr := rmr_empty, pa_remote_comp := 0\<rparr>"
  let ?rts = "rts_of pe ?a (w_next w)" and ?d = "read_bytes (w_mem w) (pa_local_buffer a) (pa_size a)"
  note so = assms(6) [unfolded rdv_sender_ok_def] and ro = assms(11) [unfolded rdv_receiver_ok_def]
  have net: "net_backend be" using assms(1) by (simp add: live_backend_def)
  have ra: "rdv_args cf pe ?a" "recv_args per ?r" using assms(5,10) by (simp_all add: rdv_args_def recv_args_def)
  have run: "post_comm cf be pe ?a w = Inr (st, w1)" using assms(8) by (simp add: post_send_x_def)
  obtain rq where rq: "is_posted (st_error st)" "rdv_requested pe ?a w w1 rq"
    using rdv_request [OF net ra(1) _ run assms(9)] so by auto
  note q = rq(2) [unfolded rdv_requested_def]
  have rts: "rts_rcomp ?rts = rh" "rts_tag ?rts = pa_tag a" "rts_size ?rts = pa_size a"
    using assms(7,12) by (simp_all add: rts_of_def rhandler_of_def)
  have met: "\<exists>v'. handle_rdv_rts_common cfr ber pk (w_next v) x = Inr v' \<and> (\<exists>w'' v''. rdv_exchange cf be cfr ber src (pa_rank a) spk fpk w1 v' = Inr (w'', v'')
       \<and> rdv_sent a (pe_packet pe) spk w w'' \<and> rdv_received src r (pa_tag a) (pa_size a) ?d pk fpk v v'')"
    if m: "rts_met src ?r pk ?rts v x" for x
  proof -
    have sz: "rts_size ?rts \<le> pa_size ?r" using ro rts(3) by simp
    obtain v' key' imm where an: "handle_rdv_rts_common cfr ber pk (w_next v) x = Inr v'" "rts_answered cfr src ?r pk ?rts v key' imm v'"
      using live_backend.rts_met_answered [OF assms(3) m _ sz _ assms(4), of cfr] ro by auto
    have "\<exists>w'' v''. rdv_exchange cf be cfr ber src (pa_rank ?a) spk fpk w1 v' = Inr (w'', v'') \<and> rdv_sent ?a (pe_packet pe) spk w w''
       \<and> rdv_received src ?r (pa_tag ?a) (pa_size ?a) (read_bytes (w_mem w) (pa_local_buffer ?a) (pa_size ?a)) pk fpk v v''"
      by (rule rdv_exchange_completes [OF assms(1) _ _ rq(2) _ _ _ _ _ assms(18) _ _ _ _ _ _ an(2)])
        (use so ro ra assms(2,18,19) in \<open>auto simp: rdv_args_def recv_args_def COMP_NULL_def\<close>)
    then show ?thesis using an(1) by (auto simp: rdv_sent_def rdv_received_def matched_status_def)
  qed
  have pol: "recv_policy ?r = recv_policy r" by (simp add: recv_policy_def)
  have key: "make_key src (rts_tag ?rts) (policy_of (re_metadata entry)) = Inr key" "make_key (pa_rank ?r) (pa_tag ?r) (recv_policy ?r) = Inr key"
    using assms(16,17) rts(2) pol by simp_all
  have ent: "rr_get (rts_rcomp ?rts) (w_registry v) = Inr entry" "re_value entry = pa_matching_engine ?r" using assms(13,15) rts(1) by simp_all
  have imm: "decode_imm (rq_imm rq) = Inr (Imm_typed IMM_DATA_MSG_RTS)" and bs: "\<And>m p. read_rts (write_bytes m p (req_bytes (w_mem w1) rq)) p = ?rts"
    using q by blast+
  have r: "ep_ok (pa_rank ?r) v" "heap_ok v" "pk \<noteq> 0" "table_inv (w_engines v (pa_matching_engine ?r))"
      "map_pend (w_engines v (pa_matching_engine ?r)) key = (\<lambda>_. [])" using ro by simp_all
  note one = recv_then_rts [OF imm bs ent(1) assms(14) ent(2) key ra(2) r, of cfr ber]
  note two = rts_then_recv [OF imm bs ent(1) assms(14) ent(2) key ra(2) r, of cfr ber]
  have "\<exists>sr v1 v2 w' v'. post_recv_x cfr ber per r v = Inr (sr, v1) \<and> is_posted (st_error sr) \<and> deliver cfr ber src w1 rq pk v1 = Inr v2
          \<and> rdv_exchange cf be cfr ber src (pa_rank a) spk fpk w1 v2 = Inr (w', v') \<and> rdv_sent a (pe_packet pe) spk w w'
          \<and> rdv_received src r (pa_tag a) (pa_size a) ?d pk fpk v v'"
    using one met by (fastforce simp: post_recv_x_def deliver_def)
  moreover have "\<exists>sr v1 v2 w' v'. deliver cfr ber src w1 rq pk v = Inr v1 \<and> post_recv_x cfr ber per r v1 = Inr (sr, v2) \<and> is_posted (st_error sr)
          \<and> rdv_exchange cf be cfr ber src (pa_rank a) spk fpk w1 v2 = Inr (w', v') \<and> rdv_sent a (pe_packet pe) spk w w'
          \<and> rdv_received src r (pa_tag a) (pa_size a) ?d pk fpk v v'"
    using two met by (fastforce simp: post_recv_x_def deliver_def)
  ultimately show ?thesis using q rq(1) by auto
qed

text \<open>Ten bytes in three writes.\<close>

definition rdv_config :: config where
  "rdv_config = config_new\<lparr>cf_payload_size := 16, cf_writeimm := True\<rparr>"

definition rdv_msg :: post_comm_args_t where
  "rdv_msg = (msg_args 7)\<lparr>pa_size := 10\<rparr>"

definition rdv_buffer :: post_comm_args_t where
  "rdv_buffer = (recv_example 7)\<lparr>pa_size := 16\<rparr>"

lemma always_accept_live: "live_backend always_accept (\<lambda>_. True)"
  by (intro live_backend.intro always_accept_backend live_backend_axioms.intro) (simp add: always_accept_def)

theorem rendezvous_transfer_witness:
  "\<exists>st w1 rq sr v1 v2 w' v'. post_send_x rdv_config always_accept env_new rdv_msg sender_example = Inr (st, w1) \<and> w_sent 1 w1 = [rq]
     \<and> post_recv_x rdv_config always_accept env_new rdv_buffer engine_example = Inr (sr, v1)
     \<and> deliver rdv_config always_accept 0 w1 rq 512 v1 = Inr v2
     \<and> rdv_exchange rdv_config always_accept rdv_config always_accept 0 1 600 0 w1 v2 = Inr (w', v')
     \<and> w_signals w' = [(55, matched_status 1 7 10 rdv_msg)] \<and> w_signals v' = [(77, matched_status 0 7 10 rdv_buffer)]
     \<and> read_bytes (w_mem v') 300 10 = [100, 101, 102, 103, 104, 105, 106, 107, 108, 109]"
proof -
  let ?e = "\<lparr>re_type = rh_matching_engine, re_value = 9, re_metadata = 3\<rparr>"
  have flds: "pa_rank rdv_msg = 1" "pa_local_buffer rdv_msg = 100" "pa_size rdv_msg = 10" "pa_tag rdv_msg = 7" "pa_local_comp rdv_msg = 55"
      "pa_local_comp rdv_buffer = 77" "pa_local_buffer rdv_buffer = 300" "pa_size rdv_buffer = 16" "pa_matching_engine rdv_buffer = 9"
      "pa_rank rdv_buffer = 0" "pa_tag rdv_buffer = 7" "pa_matching_engine rdv_msg \<noteq> 0" "pe_packet env_new = 2048"
    by (simp_all add: rdv_msg_def rdv_buffer_def msg_args_def recv_example_def put_args_def env_new_def)
  obtain imm where imm: "encode_msg_type IMM_DATA_MSG_RTS = Inr imm" using encode_msg_type_total by blast
  obtain st w1 where run: "post_send_x rdv_config always_accept env_new rdv_msg sender_example = Inr (st, w1)" and acc: "\<not> is_retry (st_error st)"
    by (simp add: post_send_x_def rdv_config_def rdv_msg_def msg_args_def sender_example_def post_eval example_defs do_rdv_def sizeof_rts_def
        imm post_sends_def mk_sends_def new_internal_context_def allocate_def always_accept_def Let_def get_rhandler_def)
  have ra: "rdv_args rdv_config env_new (rdv_msg\<lparr>pa_direction := dir_OUT, pa_rmr := rmr_empty\<rparr>)"
    "recv_args env_new (rdv_buffer\<lparr>pa_direction := dir_IN, pa_rmr := rmr_empty, pa_remote_comp := 0\<rparr>)"
    by (simp_all add: rdv_args_def rdv_config_def rdv_msg_def msg_args_def put_args_def config_new_def env_new_def get_max_bcopy_size_def
        COMP_NULL_def COMP_NULL_RETRY_def recv_args_def rdv_buffer_def recv_example_def)
  have ar: "archive_inv (w_archive sender_example)" "archive_room (w_archive engine_example)"
      "ar_tag_bits (w_archive sender_example) = ar_tag_bits (w_archive engine_example)"
    by (simp_all add: sender_example_def engine_example_def world_new_def archive_room_def archive_inv_def mask_eq_exp_minus_1)
  have so: "rdv_sender_ok rdv_config env_new rdv_msg 600 sender_example"
    using sender_example_ok [of 1] ar(1) flds world_new_ok(1) [of 2]
    by (simp add: rdv_sender_ok_def apart_def get_payload_address_def sizeof_packet_local_context_def sizeof_rts_def sizeof_rtr_def rdv_config_def config_new_def)
      (simp add: sender_example_def world_new_def heap_ok_def)
  have ro: "rdv_receiver_ok rdv_config 0 rdv_buffer (pa_size rdv_msg) 7 512 0 engine_example"
    using engine_example_ok ar(2) flds by (simp add: rdv_receiver_ok_def rdv_config_def) (simp add: engine_example_def world_new_def)
  have rh: "(4 :: rcomp_t) = get_rhandler (pe_engine_base env_new (pa_matching_engine rdv_msg)) (pa_matching_policy rdv_msg)"
    by (simp add: get_rhandler_def env_new_def rdv_msg_def msg_args_def put_args_def)
  have ent: "rr_get 4 (w_registry engine_example) = Inr ?e"
    by (simp add: engine_example_def rr_get_def decode_idx_def registry_of_def array_get_def upt_rec)
  have key: "make_key 0 (pa_tag rdv_msg) (policy_of (re_metadata ?e)) = Inr 7" "make_key (pa_rank rdv_buffer) (pa_tag rdv_buffer) (recv_policy rdv_buffer) = Inr 7"
    by (simp_all add: rdv_msg_def msg_args_def rdv_buffer_def recv_example_def put_args_def policy_of_def recv_policy_def set_bits64_def ANY_SOURCE_def ANY_TAG_def)
  have mem: "read_bytes (w_mem sender_example) 100 10 = [100, 101, 102, 103, 104, 105, 106, 107, 108, 109]" "w_sent 1 sender_example = []"
      "w_signals sender_example = []"
    by (simp_all add: sender_example_def world_new_def read_bytes_def upt_rec ep_sent_def endpoint_new_def)
  have en: "re_type ?e = rh_matching_engine" "re_value ?e = pa_matching_engine rdv_buffer" using flds by simp_all
  note all = rendezvous_transfer [OF always_accept_live TrueI always_accept_live TrueI ra(1) so flds(12) run acc ra(2) ro rh ent en key refl ar(3),
      unfolded flds mem rdv_sent_def rdv_received_def engine_example_ok(3)]
  show ?thesis using all run by simp blast
qed

end
