(* ===== verification/Spec2Isabelle.thy ===== *)
theory Spec2Isabelle
  imports LCI_Matching_Map LCI_Packet LCI_Device LCI_Registry LCI_OFI LCI_IBV LCI_Comp LCI_Shm_Transport LCI_Rdv_Transfer
begin

text \<open>
  LCI, the Lightweight Communication Interface: a verification development of its core.

  \<^bold>\<open>The program.\<close>  LCI is a library for asynchronous communication between the processes (ranks) of a
  parallel job.  A thread posts a communication (\<^verbatim>\<open>post_comm_x\<close>); the post chooses a protocol, takes a packet from the packet pool,
  and hands a request to the endpoint, which gives it to the network backend, to the shared-memory transport, or to a backlog
  queue if the network is busy.  Any thread may call \<^verbatim>\<open>progress_x\<close>, which polls the network and the shared
  memory, matches arrived messages with posted receives in a matching engine, runs the rendezvous handlers, and signals the completion
  object of each operation.  Files are named relative to \<^verbatim>\<open>src/src\<close>, those under \<^verbatim>\<open>lct\<close> relative to \<^verbatim>\<open>src\<close>.

  \<^bold>\<open>The theories\<close>, each opening with what it holds:

    \<^item> \<^verbatim>\<open>LCI_Prelude\<close>: machine integers, the result type \<^verbatim>\<open>res\<close> (failed assertion, exception, undefined behaviour or
      deadlock as a value), the error codes and the status of \<^verbatim>\<open>api/lci.hpp\<close>, and shared lemmas on lists,
      words and on threads that hold positions.  \<^verbatim>\<open>LCI_Strings\<close>: C strings and the printing of numbers in a radix.
    \<^item> \<^verbatim>\<open>LCI_Bits\<close>: the bit fields of \<^verbatim>\<open>util/misc.hpp\<close>, the immediate data of \<^verbatim>\<open>core/communicate.cpp\<close> and
      \<^verbatim>\<open>core/progress.cpp\<close>, and the matching key of \<^verbatim>\<open>matching_engine/matching_engine.hpp\<close>.
    \<^item> \<^verbatim>\<open>LCI_Matching\<close>, \<^verbatim>\<open>LCI_Matching_Map\<close>: the list engine and the hash-table engine of \<^verbatim>\<open>matching_engine\<close> as
      implementations of one contract (\<^verbatim>\<open>matching_contract\<close>): per key the n-th send meets the n-th receive.
    \<^item> \<^verbatim>\<open>LCI_Packet\<close>: the deques of \<^verbatim>\<open>data_structure/mpmc_set.hpp\<close> and the pool of \<^verbatim>\<open>packet_pool\<close>; no packet is
      lost or handed out twice.
    \<^item> \<^verbatim>\<open>LCI_Registry\<close>: \<^verbatim>\<open>data_structure/mpmc_array.hpp\<close> with lock-free readers, \<^verbatim>\<open>rhandler_registry\<close> and
      \<^verbatim>\<open>data_structure/imm_tag_archive.hpp\<close>.
    \<^item> \<^verbatim>\<open>LCI_Backlog\<close>: \<^verbatim>\<open>network/endpoint_inline.hpp\<close> and \<^verbatim>\<open>backlog_queue\<close>; requests reach the network in the order
      in which they were accepted, and the backlog drains.
    \<^item> \<^verbatim>\<open>LCI_Device\<close>: the refill of posted receives of \<^verbatim>\<open>network/device_inline.hpp\<close> under concurrency.
    \<^item> \<^verbatim>\<open>LCI_OFI\<close>, \<^verbatim>\<open>LCI_IBV\<close>: the data paths of the two network backends, interpreting the contracts
      \<^verbatim>\<open>net_backend\<close> and \<^verbatim>\<open>live_backend\<close> that the endpoint relies on.
    \<^item> \<^verbatim>\<open>LCI_Protocol\<close>, \<^verbatim>\<open>LCI_Post\<close>, \<^verbatim>\<open>LCI_Post_Spec\<close>: contexts, memory and packets of a process, every
      step of \<^verbatim>\<open>post_comm_x\<close>, and what a post promises.
    \<^item> \<^verbatim>\<open>LCI_Rendezvous\<close>, \<^verbatim>\<open>LCI_Progress\<close>, \<^verbatim>\<open>LCI_Transfer\<close>, \<^verbatim>\<open>LCI_Rdv_Transfer\<close>: the handlers of \<^verbatim>\<open>core/rendezvous.hpp\<close> and of
      \<^verbatim>\<open>core/progress.cpp\<close>, and transfers from the post in one process to the completion in another, by the
      eager and by the rendezvous protocol.
    \<^item> \<^verbatim>\<open>LCI_Shm_Ring\<close>, \<^verbatim>\<open>LCI_Posix_Ring\<close>, \<^verbatim>\<open>LCI_Shm_Transport\<close>: the shared-memory path of \<^verbatim>\<open>shm\<close>, from the
      lock-free ring to the messages that the progress engine takes out of it.
    \<^item> \<^verbatim>\<open>LCI_LCT_Queue\<close>, \<^verbatim>\<open>LCI_Comp\<close>, \<^verbatim>\<open>LCI_Graph\<close>: the queues of \<^verbatim>\<open>lct/data_structure/queue\<close> and the completion
      objects of \<^verbatim>\<open>comp\<close>, including completion graphs.

  \<^bold>\<open>How code becomes definitions.\<close>  A class is a record, an enumeration a datatype, a method a function from the
  object's state to a result and the new state; a raised error is an \<^verbatim>\<open>Inl\<close>.  Where threads interleave without a lock
  (the growable array, the receive counter, send-queue slots, synchronizers, completion graphs, the fetch-and-add queue, the shared-memory ring)
  a step relation has one step per atomic access, and the theorems are about every reachable state.  Operations under a lock are single steps, and the outcome of a
  \<^verbatim>\<open>try_lock\<close> is an argument.  Atomic accesses are taken as sequentially consistent.

  \<^bold>\<open>The environment\<close> is never fixed: what libfabric, verbs, the operating system, the process manager and user
  callbacks return are arguments of the definitions, and what the code relies on is a hypothesis (a mapping is not null and aligned, a
  backend gives back what it was given).  Loops whose end depends on the environment take the list of its
  answers and return \<^verbatim>\<open>None\<close> if the list is too short; the theorems say for which answers they return.  Loops over \<^verbatim>\<open>size_t\<close> counters recurse on
  the counter, so no other fuel is needed.

  \<^bold>\<open>Not modelled.\<close>  The collective operations (\<^verbatim>\<open>collective\<close>) are schedules over the posts and graphs that are modelled; the
  schedules themselves are left out.  Set-up and tear-down of devices in \<^verbatim>\<open>network/*/backend_*.cpp\<close>, the registration cache, accelerators
  and the process-manager clients under \<^verbatim>\<open>lct/pmi\<close> are sequences of calls into libraries and sockets, and the creation of the
  runtime (\<^verbatim>\<open>runtime\<close>, \<^verbatim>\<open>global\<close>, \<^verbatim>\<open>bootstrap\<close>) only puts together what the components model.  The performance counters, the
  logger and the remaining utilities of \<^verbatim>\<open>lct\<close> have no effect on the core.  The Python generators under \<^verbatim>\<open>binding\<close>
  produce declarations.
\<close>

end
